(* ===== verification/BK_Prelude.thy ===== *)
theory BK_Prelude
  imports Main "HOL-Library.Word" "HOL-Library.Multiset"
begin

text \<open>
  Shared vocabulary of the development: the machine types of the C code, the parts of the
  C library that the modelled sources call on strings (\<open>isspace\<close>, \<open>isdigit\<close>, \<open>strspn\<close>,
  \<open>strcspn\<close>, the \<open>%d\<close> conversion of \<open>printf\<close>), and the generic facts on lists, options and
  words that several components use.

  Conventions used everywhere below:
  \<^item> a C string is the list of its characters without the terminating NUL; a buffer that
    holds several strings (the delta heap) keeps its NULs;
  \<^item> a function that may stop at a failing \<open>assert\<close> (or an \<open>exit\<close>) returns an \<open>option\<close>, and
    \<open>None\<close> is the abort;
  \<^item> a size that the code keeps in an \<open>int\<close> is a natural number that passes through \<open>to_int\<close>: a value
    that an \<open>int\<close> does not hold is \<open>None\<close> as well, because C does not define the overflow;
  \<^item> an array that the C code allocates with one slot per serial is a total function on
    serials; that no slot outside the allocation is touched is a theorem, not a convention.
\<close>

unbundle bit_operations_syntax

type_synonym u8 = "8 word"
type_synonym u32 = "32 word"
type_synonym ser = nat

named_theorems bit_macros \<open>the bit-twiddling macros of the C code, read bit by bit\<close>
named_theorems graph_acc \<open>accessors of the delta table after an update of the table\<close>

section \<open>Integers of C\<close>

definition INT_MAX :: nat where
  "INT_MAX = 2 ^ 31 - 1"

definition to_int :: "nat \<Rightarrow> nat option" where
  "to_int n = (if n \<le> INT_MAX then Some n else None)"

text \<open>The value that 32 bits of a signed sum represent, and the value of a \<open>char\<close> as an \<open>int\<close>.\<close>

definition wrap32 :: "int \<Rightarrow> int" where
  "wrap32 x = signed_take_bit 31 x"

definition schar :: "char \<Rightarrow> int" where
  "schar c = signed_take_bit 7 (of_char c)"

lemma to_int_Some [simp]: "n \<le> INT_MAX \<Longrightarrow> to_int n = Some n"
  by (simp add: to_int_def)

lemma to_int_eq_Some: "to_int n = Some m \<longleftrightarrow> n \<le> INT_MAX \<and> m = n"
  by (auto simp: to_int_def)

section \<open>Characters and strings of the C library\<close>

definition NUL :: char where
  "NUL = CHR 0x00"

text \<open>The \<open>isspace\<close> and \<open>isdigit\<close> of the C locale.\<close>

definition isspace :: "char \<Rightarrow> bool" where
  "isspace c \<longleftrightarrow> c \<in> {CHR '' '', CHR 0x09, CHR 0x0A, CHR 0x0B, CHR 0x0C, CHR 0x0D}"

definition isdigit :: "char \<Rightarrow> bool" where
  "isdigit c \<longleftrightarrow> 48 \<le> (of_char c :: nat) \<and> (of_char c :: nat) \<le> 57"

definition digit_val :: "char \<Rightarrow> nat" where
  "digit_val c = of_char c - 48"

definition digit_char :: "nat \<Rightarrow> char" where
  "digit_char n = char_of (48 + n)"

definition strspn :: "string \<Rightarrow> string \<Rightarrow> nat" where
  "strspn s accept = length (takeWhile (\<lambda>c. c \<in> set accept) s)"

definition strcspn :: "string \<Rightarrow> string \<Rightarrow> nat" where
  "strcspn s reject = length (takeWhile (\<lambda>c. c \<notin> set reject) s)"

text \<open>The character at an offset of a string; the one after the last is the NUL.\<close>

definition nth_char :: "string \<Rightarrow> nat \<Rightarrow> char" where
  "nth_char s i = (if i < length s then s ! i else NUL)"

text \<open>The \<open>%u\<close> and \<open>%d\<close> conversions.\<close>

fun show_nat :: "nat \<Rightarrow> string" where
  "show_nat n = (if n < 10 then [digit_char n] else show_nat (n div 10) @ [digit_char (n mod 10)])"

declare show_nat.simps [simp del]

definition show_int :: "int \<Rightarrow> string" where
  "show_int i = (if i < 0 then CHR ''-'' # show_nat (nat (- i)) else show_nat (nat i))"

text \<open>The strings of a list glued together with a separator.\<close>

fun join :: "string \<Rightarrow> string list \<Rightarrow> string" where
  "join sep [] = []"
| "join sep [x] = x"
| "join sep (x # xs) = x @ sep @ join sep xs"

lemma isdigit_iff: "isdigit c \<longleftrightarrow> 48 \<le> (of_char c :: nat) \<and> (of_char c :: nat) < 58"
  by (auto simp: isdigit_def)

lemma of_char_digit_char [simp]: "n < 10 \<Longrightarrow> (of_char (digit_char n) :: nat) = 48 + n"
  by (simp add: digit_char_def)

lemma isdigit_digit_char [simp]: "n < 10 \<Longrightarrow> isdigit (digit_char n)"
  by (simp add: isdigit_iff)

lemma digit_val_digit_char [simp]: "n < 10 \<Longrightarrow> digit_val (digit_char n) = n"
  by (simp add: digit_val_def)

lemma isdigit_not_isspace [simp]: "isdigit c \<Longrightarrow> \<not> isspace c"
  by (auto simp: isdigit_iff isspace_def)

lemma isdigit_not_minus [simp]: "isdigit c \<Longrightarrow> c \<noteq> CHR ''-''"
  by (auto simp: isdigit_iff)

lemma isdigit_not_NUL [simp]: "isdigit c \<Longrightarrow> c \<noteq> NUL"
  by (auto simp: isdigit_iff NUL_def)

lemma show_nat_digits: "\<forall>c\<in>set (show_nat n). isdigit c"
  by (induction n rule: show_nat.induct) (subst show_nat.simps, auto)

lemma show_nat_digitD [dest]: "c \<in> set (show_nat n) \<Longrightarrow> isdigit c"
  using show_nat_digits by blast

lemma show_nat_not_Nil [simp]: "show_nat n \<noteq> []"
  by (subst show_nat.simps) simp

section \<open>Lists\<close>

lemma takeWhile_append_stop:
  "\<forall>x\<in>set xs. P x \<Longrightarrow> (ys = [] \<or> \<not> P (hd ys)) \<Longrightarrow> takeWhile P (xs @ ys) = xs"
  by (cases ys) (auto simp: takeWhile_append)

lemma dropWhile_append_stop:
  "\<forall>x\<in>set xs. P x \<Longrightarrow> (ys = [] \<or> \<not> P (hd ys)) \<Longrightarrow> dropWhile P (xs @ ys) = ys"
  by (cases ys) (auto simp: dropWhile_append)

section \<open>Words\<close>

text \<open>A word with a single bit set, and the test of one bit with a mask.\<close>

lemma bit_one_hot: "k < LENGTH('a) \<Longrightarrow> bit (push_bit k 1 :: 'a::len word) n \<longleftrightarrow> n = k"
  by (auto simp: bit_simps)

lemma word_bits_eq: "(a :: 'a::len word) = b \<longleftrightarrow> (\<forall>n<LENGTH('a). bit a n = bit b n)"
  by (auto intro: bit_word_eqI)

lemma word_bits_neq_0: "(a :: 'a::len word) \<noteq> 0 \<longleftrightarrow> (\<exists>n<LENGTH('a). bit a n)"
  by (simp add: word_bits_eq)

lemma and_one_hot_eq_0: "k < LENGTH('a) \<Longrightarrow> b AND push_bit k 1 = (0 :: 'a::len word) \<longleftrightarrow> \<not> bit b k"
  by (auto simp: word_bits_eq bit_simps)

lemma one_hot_bit: "w = push_bit k (1 :: 'a::len word) \<Longrightarrow> k < LENGTH('a) \<Longrightarrow> bit w n \<longleftrightarrow> n = k"
  by (simp only: bit_one_hot)

lemma one_hot_and: "w = push_bit k (1 :: 'a::len word) \<Longrightarrow> k < LENGTH('a) \<Longrightarrow> b AND w = 0 \<longleftrightarrow> \<not> bit b k"
  by (simp only: and_one_hot_eq_0)

end
