(* ===== verification/BK_Sccs.thy ===== *)
theory BK_Sccs
  imports BK_Prelude
begin

text \<open>
  The in-memory form of an s.file (\<open>sccs.h\<close>, \<open>slib.c\<close>, \<open>dataheap.c\<close>): the delta table, the
  string heap that holds every variable-length field, the textual include/exclude list of a
  delta (\<open>CLUDES\<close>) with its reader \<open>sccs_eachNum\<close> and writer \<open>sccs_saveNum\<close>, and the lookup
  of a delta by revision (\<open>rfind\<close>, \<open>findrev\<close>).  The well-formedness predicate of the graph is
  the one stated in \<open>Notes/SCCSGRAPH.adoc\<close>: serials are sorted by age, every edge and every
  include or exclude goes to an older delta.
\<close>

section \<open>The delta table\<close>

record delta =
  d_parent :: ser
  d_merge :: ser
  d_flags :: u32
  d_ptag :: ser
  d_mtag :: ser
  d_r0 :: nat
  d_r1 :: nat
  d_r2 :: nat
  d_r3 :: nat
  d_cludes :: nat
  d_date :: u32
  d_dateFudge :: u32
  d_zone :: nat

record symbol =
  symname :: nat
  sym_ser :: ser
  meta_ser :: ser

record sccs =
  slist1 :: "ser \<Rightarrow> delta"
  tip :: ser
  heap :: string
  symlist :: "symbol list"
  encoding_in :: u32
  bitkeeper :: bool
  def_branch :: "string option"
  rstart :: ser
  rstop :: ser

definition D_INARRAY :: u32 where "D_INARRAY = 0x00000001"
definition D_TAG :: u32 where "D_TAG = 0x00000100"
definition D_GREEN :: u32 where "D_GREEN = 0x00200000"
definition D_RED :: u32 where "D_RED = 0x08000000"
definition D_GONE :: u32 where "D_GONE = 0x10000000"
definition D_BLUE :: u32 where "D_BLUE = 0x20000000"
definition D_SET :: u32 where "D_SET = 0x80000000"
definition E_BKMERGE :: u32 where "E_BKMERGE = 0x40"

definition TREE :: "sccs \<Rightarrow> ser" where "TREE s = 1"
definition TABLE :: "sccs \<Rightarrow> ser" where "TABLE s = tip s"
definition PARENT :: "sccs \<Rightarrow> ser \<Rightarrow> ser" where "PARENT s d = d_parent (slist1 s d)"
definition MERGE :: "sccs \<Rightarrow> ser \<Rightarrow> ser" where "MERGE s d = d_merge (slist1 s d)"
definition PTAG :: "sccs \<Rightarrow> ser \<Rightarrow> ser" where "PTAG s d = d_ptag (slist1 s d)"
definition MTAG :: "sccs \<Rightarrow> ser \<Rightarrow> ser" where "MTAG s d = d_mtag (slist1 s d)"
definition FLAGS :: "sccs \<Rightarrow> ser \<Rightarrow> u32" where "FLAGS s d = d_flags (slist1 s d)"
definition TAG :: "sccs \<Rightarrow> ser \<Rightarrow> bool" where "TAG s d \<longleftrightarrow> FLAGS s d AND D_TAG \<noteq> 0"
definition BKMERGE :: "sccs \<Rightarrow> bool" where "BKMERGE s \<longleftrightarrow> encoding_in s AND E_BKMERGE \<noteq> 0"
definition CLUDES_INDEX :: "sccs \<Rightarrow> ser \<Rightarrow> nat" where "CLUDES_INDEX s d = d_cludes (slist1 s d)"

text \<open>\<open>EACH_PARENT\<close> and \<open>EACH_PTAG\<close>: the walk over the (at most two) edges of a delta stops at
  the first empty one.\<close>

definition EACH_PARENT :: "sccs \<Rightarrow> ser \<Rightarrow> ser list" where
  "EACH_PARENT s d = takeWhile (\<lambda>p. p \<noteq> 0) [PARENT s d, MERGE s d]"

definition EACH_PTAG :: "sccs \<Rightarrow> ser \<Rightarrow> ser list" where
  "EACH_PTAG s d = takeWhile (\<lambda>p. p \<noteq> 0) [PTAG s d, MTAG s d]"

section \<open>The string heap\<close>

definition HEAP :: "sccs \<Rightarrow> nat \<Rightarrow> string" where
  "HEAP s off = takeWhile (\<lambda>c. c \<noteq> NUL) (drop off (heap s))"

definition CLUDES :: "sccs \<Rightarrow> ser \<Rightarrow> string" where
  "CLUDES s d = HEAP s (CLUDES_INDEX s d)"

text \<open>
  \<open>sccs_addStr\<close> appends the string and its NUL and returns the offset; an empty heap first
  gets the empty string, so that offset 0 is always the empty string.
\<close>

definition sccs_addStr :: "sccs \<Rightarrow> string option \<Rightarrow> sccs \<times> nat" where
  "sccs_addStr s str =
     (let s = (if heap s = [] then s\<lparr>heap := [NUL]\<rparr> else s) in
      case str of
        None \<Rightarrow> (s, 0)
      | Some t \<Rightarrow> (s\<lparr>heap := heap s @ t @ [NUL]\<rparr>, length (heap s)))"

definition CLUDES_SET :: "sccs \<Rightarrow> ser \<Rightarrow> string option \<Rightarrow> sccs" where
  "CLUDES_SET s d val =
     (let (s', off) = sccs_addStr s val
      in s'\<lparr>slist1 := (slist1 s')(d := (slist1 s' d)\<lparr>d_cludes := off\<rparr>)\<rparr>)"

section \<open>Lists of signed serials as text\<close>

text \<open>
  The \<open>atoi\<close> of \<open>slib.c\<close>: no sign, stops at the first byte that is not a digit.  The
  accumulator is a 32-bit integer.
\<close>

fun atoi_loop :: "u32 \<Rightarrow> string \<Rightarrow> u32 \<times> string" where
  "atoi_loop val [] = (val, [])"
| "atoi_loop val (c # cs) =
     (if isdigit c then atoi_loop (val * 10 + of_nat (digit_val c)) cs else (val, c # cs))"

definition atoi :: "string \<Rightarrow> u32" where
  "atoi s = fst (atoi_loop 0 s)"

definition atoi_p :: "string \<Rightarrow> u32 \<times> string" where
  "atoi_p s = atoi_loop 0 s"

text \<open>
  \<open>eachstr\<close> skips white space and returns the token with the rest of the line; it clears the
  line pointer (\<open>None\<close>) when there is no further token.
\<close>

definition eachstr :: "string option \<Rightarrow> (string \<times> string option) option" where
  "eachstr linep =
     (case linep of
        None \<Rightarrow> None
      | Some line \<Rightarrow>
          (let ret = dropWhile isspace line in
           if ret = [] then None
           else Some (takeWhile (\<lambda>c. \<not> isspace c) ret, Some (dropWhile (\<lambda>c. \<not> isspace c) ret))))"

text \<open>
  One call of \<open>sccs_eachNum (&p, &sign)\<close>: the value, the sign, and the line that is left.  The
  value 0 means that there is nothing more to read.
\<close>

definition sccs_eachNum :: "string option \<Rightarrow> u32 \<times> int \<times> string option" where
  "sccs_eachNum linep =
     (case eachstr linep of
        None \<Rightarrow> (0, 0, None)
      | Some (p, rest) \<Rightarrow>
          (case p of
             c # cs \<Rightarrow> if c = CHR ''-'' then (atoi cs, -1, rest) else (atoi p, 1, rest)
           | [] \<Rightarrow> (0, 1, rest)))"

lemma eachstr_shorter:
  "eachstr (Some line) = Some (tok, Some rest) \<Longrightarrow> length rest < length line"
proof -
  assume "eachstr (Some line) = Some (tok, Some rest)"
  then have ne: "dropWhile isspace line \<noteq> []"
    and r: "rest = dropWhile (\<lambda>c. \<not> isspace c) (dropWhile isspace line)"
    by (auto simp: eachstr_def Let_def split: if_splits)
  then obtain c cs where c: "dropWhile isspace line = c # cs" by (cases "dropWhile isspace line") auto
  then have "\<not> isspace c" using hd_dropWhile[of isspace line] by simp
  with r c have "rest = dropWhile (\<lambda>c. \<not> isspace c) cs" by simp
  then have "length rest \<le> length cs" by (simp add: length_dropWhile_le)
  also have "\<dots> < length (dropWhile isspace line)" using c by simp
  also have "\<dots> \<le> length line" by (simp add: length_dropWhile_le)
  finally show ?thesis .
qed

lemma sccs_eachNum_shorter:
  assumes "(v, sign, rest) = sccs_eachNum linep" and "v \<noteq> 0"
  shows "(case rest of None \<Rightarrow> 0 | Some t \<Rightarrow> Suc (length t))
    < (case linep of None \<Rightarrow> 0 | Some t \<Rightarrow> Suc (length t))"
proof -
  from assms obtain tok where e: "eachstr linep = Some (tok, rest)"
    by (auto simp: sccs_eachNum_def split: option.splits list.splits if_splits)
  then obtain line r where "linep = Some line" "rest = Some r"
    by (auto simp: eachstr_def Let_def split: option.splits if_splits)
  with e eachstr_shorter show ?thesis by auto
qed

text \<open>
  The loop \<open>while (i = sccs_eachNum(&p, &sign))\<close>, which every client runs: the list of
  serials with their signs.
\<close>

function eachNum_loop :: "string option \<Rightarrow> (ser \<times> int) list" where
  "eachNum_loop linep =
     (case sccs_eachNum linep of
        (v, sign, rest) \<Rightarrow> if v = 0 then [] else (unat v, sign) # eachNum_loop rest)"
  by pat_completeness auto
termination
  by (relation "measure (\<lambda>l. case l of None \<Rightarrow> 0 | Some t \<Rightarrow> Suc (length t))")
     (auto dest!: sccs_eachNum_shorter)

declare eachNum_loop.simps [simp del]

definition sccs_saveNum :: "int \<Rightarrow> int \<Rightarrow> string" where
  "sccs_saveNum num sign = CHR '' '' # (if sign < 0 then ''-'' else '''') @ show_int num"

definition cludes_of :: "sccs \<Rightarrow> ser \<Rightarrow> (ser \<times> int) list" where
  "cludes_of s d = eachNum_loop (Some (CLUDES s d))"

definition saveNums :: "(ser \<times> int) list \<Rightarrow> string" where
  "saveNums xs = concat (map (\<lambda>(n, sign). sccs_saveNum (int n) sign) xs)"

lemma saveNums_simps [simp]:
  "saveNums [] = []"
  "saveNums ((n, sign) # xs) = sccs_saveNum (int n) sign @ saveNums xs"
  by (simp_all add: saveNums_def)

lemma saveNums_append [simp]: "saveNums (xs @ ys) = saveNums xs @ saveNums ys"
  by (simp add: saveNums_def)

section \<open>Reading back what was written\<close>

lemma atoi_loop_digits:
  "\<forall>c\<in>set ds. isdigit c \<Longrightarrow> (rest = [] \<or> \<not> isdigit (hd rest)) \<Longrightarrow>
   atoi_loop v (ds @ rest) = (foldl (\<lambda>v c. v * 10 + of_nat (digit_val c)) v ds, rest)"
  by (induction ds arbitrary: v) (auto simp: neq_Nil_conv, cases rest, auto)

lemma foldl_digits_show_nat:
  "foldl (\<lambda>v c. v * 10 + of_nat (digit_val c)) (0 :: u32) (show_nat n) = of_nat n"
proof (induction n rule: show_nat.induct)
  case (1 n)
  show ?case
  proof (cases "n < 10")
    case True
    then show ?thesis by (simp add: show_nat.simps [of n])
  next
    case False
    with 1 have ih: "foldl (\<lambda>v c. v * 10 + of_nat (digit_val c)) (0 :: u32) (show_nat (n div 10)) = of_nat (n div 10)"
      by blast
    have "(of_nat n :: u32) = of_nat (n div 10 * 10 + n mod 10)" by simp
    also have "\<dots> = of_nat (n div 10) * 10 + of_nat (n mod 10)"
      by (simp only: of_nat_add of_nat_mult of_nat_numeral)
    finally show ?thesis using False ih by (simp add: show_nat.simps [of n])
  qed
qed

lemma atoi_p_show_nat:
  "(rest = [] \<or> \<not> isdigit (hd rest)) \<Longrightarrow> atoi_p (show_nat n @ rest) = (of_nat n, rest)"
  by (simp add: atoi_p_def atoi_loop_digits [OF show_nat_digits] foldl_digits_show_nat)

lemma atoi_show_nat [simp]: "atoi (show_nat n) = of_nat n"
  using atoi_loop_digits [OF show_nat_digits, of "[]" 0 n]
  by (simp add: atoi_def foldl_digits_show_nat)

lemma sccs_eachNum_saveNum:
  assumes "sign = 1 \<or> sign = -1" and "rest = [] \<or> isspace (hd rest)"
  shows "sccs_eachNum (Some (sccs_saveNum (int n) sign @ rest)) = (of_nat n, sign, Some rest)"
proof -
  define tok where "tok = (if sign < 0 then ''-'' else []) @ show_nat n"
  have ns: "\<forall>c\<in>set tok. \<not> isspace c"
    by (auto simp: tok_def isspace_def dest!: show_nat_digitD) (auto simp: isdigit_iff)
  have sn: "show_int (int n) = show_nat n"
    by (simp add: show_int_def)
  have "tok \<noteq> []" by (simp add: tok_def)
  then obtain c cs where tok: "tok = c # cs" by (cases tok) auto
  have "isspace CHR '' ''" by (simp add: isspace_def)
  moreover have eq: "sccs_saveNum (int n) sign @ rest = CHR '' '' # tok @ rest"
    by (simp add: sccs_saveNum_def tok_def sn)
  ultimately have dw: "dropWhile isspace (sccs_saveNum (int n) sign @ rest) = tok @ rest"
    using ns by (simp add: tok)
  have tw: "takeWhile (\<lambda>c. \<not> isspace c) (tok @ rest) = tok"
    and dw2: "dropWhile (\<lambda>c. \<not> isspace c) (tok @ rest) = rest"
    using takeWhile_append_stop [OF ns] dropWhile_append_stop [OF ns] assms(2) by auto
  have "tok @ rest \<noteq> []" by (simp add: tok)
  then have e: "eachstr (Some (sccs_saveNum (int n) sign @ rest)) = Some (tok, Some rest)"
    by (simp add: eachstr_def Let_def dw tw dw2 del: append_is_Nil_conv)
  have "hd (show_nat n) \<in> set (show_nat n)" by simp
  then have "isdigit (hd (show_nat n))" by (rule show_nat_digitD)
  then have "hd (show_nat n) \<noteq> CHR ''-''" by (rule isdigit_not_minus)
  then show ?thesis
    using assms(1) e
    by (auto simp: sccs_eachNum_def tok_def split: list.splits simp flip: atoi_show_nat)
qed

lemma saveNums_hd: "saveNums xs = [] \<or> isspace (hd (saveNums xs))"
  by (cases xs) (auto simp: sccs_saveNum_def isspace_def)

definition serial_signs :: "(ser \<times> int) list \<Rightarrow> bool" where
  "serial_signs xs \<longleftrightarrow> list_all (\<lambda>(n, sign). 0 < n \<and> n < 2 ^ 31 \<and> (sign = 1 \<or> sign = -1)) xs"

lemma eachNum_loop_Nil [simp]: "eachNum_loop (Some []) = []"
  by (subst eachNum_loop.simps) (simp add: sccs_eachNum_def eachstr_def)

lemma eachNum_loop_saveNums:
  "serial_signs xs \<Longrightarrow> eachNum_loop (Some (saveNums xs)) = xs"
proof (induction xs)
  case Nil
  then show ?case by simp
next
  case (Cons x xs)
  obtain n sign where x: "x = (n, sign)" by (cases x)
  with Cons.prems have n: "0 < n" "n < 2 ^ 31" and sg: "sign = 1 \<or> sign = -1"
    and xs: "serial_signs xs"
    by (auto simp: serial_signs_def)
  have u: "unat (of_nat n :: u32) = n"
    using n(2) by (simp add: unat_of_nat take_bit_nat_eq_self)
  with n(1) have nz: "(of_nat n :: u32) \<noteq> 0" by auto
  show ?case
    unfolding x saveNums_simps
    by (subst eachNum_loop.simps, subst sccs_eachNum_saveNum [OF sg saveNums_hd])
      (simp add: nz u Cons.IH [OF xs])
qed

section \<open>The heap keeps the strings it has\<close>

lemma takeWhile_append_last:
  "ys \<noteq> [] \<Longrightarrow> \<not> P (last ys) \<Longrightarrow> takeWhile P (ys @ zs) = takeWhile P ys"
  by (metis last_in_set takeWhile_append1)

lemma HEAP_old:
  assumes "heap s \<noteq> []" and "last (heap s) = NUL" and "off < length (heap s)"
    and "heap s' = heap s @ zs"
  shows "HEAP s' off = HEAP s off"
  using assms by (simp add: HEAP_def takeWhile_append_last)

lemma HEAP_new:
  assumes "NUL \<notin> set t" and "heap s' = heap s @ t @ [NUL]"
  shows "HEAP s' (length (heap s)) = t"
  using assms by (auto simp: HEAP_def intro: takeWhile_append_stop)

section \<open>Finding a delta by its revision\<close>

text \<open>
  \<open>scanrev\<close> takes nothing unless the string holds only digits and dots; it returns how many
  components it read (out of at most four) and the components, those not read being left at 0.
\<close>

definition scanrev :: "string \<Rightarrow> nat \<times> nat list" where
  "scanrev s =
     (if dropWhile (\<lambda>c. isdigit c \<or> c = CHR ''.'') s \<noteq> [] then (0, [0, 0, 0, 0])
      else case atoi_p s of (a, s1) \<Rightarrow>
        (case s1 of
           CHR ''.'' # s1' \<Rightarrow>
             (case atoi_p s1' of (b, s2) \<Rightarrow>
               (case s2 of
                  CHR ''.'' # s2' \<Rightarrow>
                    (case atoi_p s2' of (c, s3) \<Rightarrow>
                      (case s3 of
                         CHR ''.'' # s3' \<Rightarrow> (4, [unat a, unat b, unat c, unat (atoi s3')])
                       | _ \<Rightarrow> (3, [unat a, unat b, unat c, 0])))
                | _ \<Rightarrow> (2, [unat a, unat b, 0, 0])))
         | _ \<Rightarrow> (1, [unat a, 0, 0, 0])))"

definition R0 :: "sccs \<Rightarrow> ser \<Rightarrow> nat" where "R0 s d = d_r0 (slist1 s d)"
definition R1 :: "sccs \<Rightarrow> ser \<Rightarrow> nat" where "R1 s d = d_r1 (slist1 s d)"
definition R2 :: "sccs \<Rightarrow> ser \<Rightarrow> nat" where "R2 s d = d_r2 (slist1 s d)"
definition R3 :: "sccs \<Rightarrow> ser \<Rightarrow> nat" where "R3 s d = d_r3 (slist1 s d)"

text \<open>
  \<open>delta_rev\<close>.  The components are printed with \<open>%d\<close>, that is, as signed 32-bit integers.  A
  delta that is not in the array yet prints as a constant.
\<close>

definition print_d :: "nat \<Rightarrow> string" where
  "print_d r = show_int (sint (of_nat r :: u32))"

definition delta_rev :: "sccs \<Rightarrow> ser \<Rightarrow> string" where
  "delta_rev s d =
     (let buf = (if R2 s d \<noteq> 0
        then print_d (R0 s d) @ ''.'' @ print_d (R1 s d) @ ''.'' @ print_d (R2 s d) @ ''.'' @ print_d (R3 s d)
        else print_d (R0 s d) @ ''.'' @ print_d (R1 s d))
      in if FLAGS s d AND D_INARRAY \<noteq> 0 then buf else ''1.3.9.62'')"

definition samebranch :: "sccs \<Rightarrow> ser \<Rightarrow> ser \<Rightarrow> bool" where
  "samebranch s a b \<longleftrightarrow>
     R2 s a = 0 \<and> R2 s b = 0 \<or> R0 s a = R0 s b \<and> R1 s a = R1 s b \<and> R2 s a = R2 s b"

definition samerev :: "sccs \<Rightarrow> ser \<Rightarrow> nat list \<Rightarrow> bool" where
  "samerev s d b \<longleftrightarrow> b = [R0 s d, R1 s d, R2 s d, R3 s d]"

text \<open>\<open>findSym\<close> walks the symbol table backwards, so the newest symbol of a name wins.\<close>

definition findSym :: "sccs \<Rightarrow> string \<Rightarrow> symbol option" where
  "findSym s name = find (\<lambda>sy. HEAP s (symname sy) = name) (rev (symlist s))"

text \<open>The serials of the table, newest first: \<open>for (d = TABLE(s); d >= TREE(s); d--)\<close>.\<close>

definition serials_down :: "sccs \<Rightarrow> ser list" where
  "serials_down s = rev [1..<Suc (TABLE s)]"

definition rfind :: "sccs \<Rightarrow> string \<Rightarrow> ser" where
  "rfind s rv =
     (if rv = [] \<or> \<not> isdigit (hd rv)
      then (case findSym s rv of Some sy \<Rightarrow> sym_ser sy | None \<Rightarrow> 0)
      else (case find (\<lambda>d. \<not> TAG s d \<and> samerev s d (snd (scanrev rv))) (serials_down s) of
              Some d \<Rightarrow> d | None \<Rightarrow> 0))"

definition defbranch :: "sccs \<Rightarrow> string" where
  "defbranch s = (if bitkeeper s then ''1'' else (case def_branch s of Some b \<Rightarrow> b | None \<Rightarrow> ''65535''))"

text \<open>
  The loop of \<open>findrev\<close> for a bare release number: the newest trunk delta of the release, or
  else the newest one of the largest smaller release.
\<close>

fun findrev_release :: "sccs \<Rightarrow> nat \<Rightarrow> ser list \<Rightarrow> ser \<Rightarrow> nat \<Rightarrow> ser" where
  "findrev_release s a [] f mx = f"
| "findrev_release s a (e # es) f mx =
     (if FLAGS s e AND D_GONE \<noteq> 0 then findrev_release s a es f mx
      else if TAG s e \<or> R2 s e \<noteq> 0 \<or> R0 s e > a then findrev_release s a es f mx
      else if R0 s e = a then e
      else if R0 s e > mx then findrev_release s a es e (R0 s e)
      else findrev_release s a es f mx)"

definition findrev_branch :: "sccs \<Rightarrow> ser \<Rightarrow> ser" where
  "findrev_branch s e =
     (if e = 0 then 0
      else (case find (\<lambda>f. samebranch s e f) (filter (\<lambda>f. f > e) (serials_down s)) of
              Some f \<Rightarrow> f | None \<Rightarrow> e))"

definition findrev_num :: "sccs \<Rightarrow> string \<Rightarrow> ser" where
  "findrev_num s rv =
     (case scanrev rv of (n, ds) \<Rightarrow>
        if n = 1 then (if ds ! 0 = 0 then 0 else findrev_release s (ds ! 0) (serials_down s) 0 0)
        else if n = 2 \<or> n = 4 then rfind s rv
        else if n = 3 then findrev_branch s (rfind s (rv @ ''.1''))
        else 0)"

definition findrev_serial :: "sccs \<Rightarrow> ser \<Rightarrow> ser" where
  "findrev_serial s e = (if TREE s \<le> e \<and> e \<le> TABLE s then e else 0)"

definition findrev :: "sccs \<Rightarrow> string option \<Rightarrow> ser" where
  "findrev s rv0 =
     (if TABLE s = 0 then 0
      else let rv = (case rv0 of None \<Rightarrow> defbranch s
                      | Some r \<Rightarrow> if r = [] \<or> r = ''+'' then defbranch s else r) in
        if rv = ''1.0'' then TREE s
        else if rv \<noteq> [] \<and> hd rv = CHR ''='' \<and> tl rv \<noteq> [] \<and> isdigit (hd (tl rv)) then
          findrev_serial s (unat (atoi (tl rv)))
        else if rv = [] \<or> \<not> isdigit (hd rv) then
          (case findSym s rv of Some sy \<Rightarrow> sym_ser sy | None \<Rightarrow> 0)
        else findrev_num s rv)"

definition sccs_top :: "sccs \<Rightarrow> ser" where
  "sccs_top s = findrev s None"

section \<open>Well-formed graphs\<close>

text \<open>
  A serial is live when it is in the table, in use and not a tag.  The edges of a live delta
  go to older live deltas, and so do its includes and excludes; the root is live; a merge
  needs a parent.
\<close>

definition live :: "sccs \<Rightarrow> ser \<Rightarrow> bool" where
  "live s d \<longleftrightarrow> 1 \<le> d \<and> d \<le> TABLE s \<and> FLAGS s d \<noteq> 0 \<and> \<not> TAG s d"

definition wf_delta :: "sccs \<Rightarrow> ser \<Rightarrow> bool" where
  "wf_delta s d \<longleftrightarrow>
     (PARENT s d \<noteq> 0 \<longrightarrow> PARENT s d < d \<and> live s (PARENT s d)) \<and>
     (MERGE s d \<noteq> 0 \<longrightarrow> PARENT s d \<noteq> 0 \<and> MERGE s d < d \<and> live s (MERGE s d)) \<and>
     list_all (\<lambda>(e, sign). e < d \<and> live s e) (cludes_of s d)"

definition wf_graph :: "sccs \<Rightarrow> bool" where
  "wf_graph s \<longleftrightarrow> TABLE s < 2 ^ 27 \<and> (\<forall>d\<in>set [1..<Suc (TABLE s)]. live s d \<longrightarrow> wf_delta s d)"

lemma liveD: "live s d \<Longrightarrow> 1 \<le> d \<and> d \<le> TABLE s \<and> FLAGS s d \<noteq> 0 \<and> \<not> TAG s d"
  by (simp add: live_def)

lemma wf_graph_delta: "wf_graph s \<Longrightarrow> live s d \<Longrightarrow> wf_delta s d"
  by (simp add: wf_graph_def live_def del: upt_Suc)

lemma wf_parent: "wf_graph s \<Longrightarrow> live s d \<Longrightarrow> PARENT s d \<noteq> 0 \<Longrightarrow> PARENT s d < d \<and> live s (PARENT s d)"
  using wf_graph_delta by (auto simp: wf_delta_def)

lemma wf_merge: "wf_graph s \<Longrightarrow> live s d \<Longrightarrow> MERGE s d \<noteq> 0 \<Longrightarrow>
   PARENT s d \<noteq> 0 \<and> MERGE s d < d \<and> live s (MERGE s d)"
  using wf_graph_delta by (auto simp: wf_delta_def)

lemma wf_clude: "wf_graph s \<Longrightarrow> live s d \<Longrightarrow> (e, sign) \<in> set (cludes_of s d) \<Longrightarrow> e < d \<and> live s e"
  using wf_graph_delta by (fastforce simp: wf_delta_def list_all_iff)

section \<open>Revisions round trip\<close>

text \<open>
  What a repository guarantees of the revision numbers: they fit the C \<open>int\<close> that prints them,
  a trunk revision has no fourth component, and no two deltas share a revision.
\<close>

definition revs_ok :: "sccs \<Rightarrow> bool" where
  "revs_ok s \<longleftrightarrow> (\<forall>d\<in>set [1..<Suc (TABLE s)]. live s d \<longrightarrow>
     FLAGS s d AND D_INARRAY \<noteq> 0 \<and> R0 s d < 2 ^ 31 \<and> R1 s d < 2 ^ 31 \<and> R2 s d < 2 ^ 31 \<and> R3 s d < 2 ^ 31 \<and>
     (R2 s d = 0 \<longrightarrow> R3 s d = 0) \<and>
     (\<forall>e\<in>set [1..<Suc (TABLE s)]. \<not> TAG s e \<and> samerev s e [R0 s d, R1 s d, R2 s d, R3 s d] \<longrightarrow> e = d))"

lemma revs_okD:
  assumes "revs_ok s" "live s d"
  shows "FLAGS s d AND D_INARRAY \<noteq> 0" "R0 s d < 2 ^ 31" "R1 s d < 2 ^ 31" "R2 s d < 2 ^ 31" "R3 s d < 2 ^ 31"
    "R2 s d = 0 \<Longrightarrow> R3 s d = 0"
    "1 \<le> e \<Longrightarrow> e \<le> TABLE s \<Longrightarrow> \<not> TAG s e \<Longrightarrow> samerev s e [R0 s d, R1 s d, R2 s d, R3 s d] \<Longrightarrow> e = d"
  using assms by (auto simp: revs_ok_def live_def simp del: upt_Suc dest!: bspec [of _ _ d])

lemma print_d_nat: "r < 2 ^ 31 \<Longrightarrow> print_d r = show_nat r"
proof -
  assume r: "r < 2 ^ 31"
  have "sint (of_nat r :: u32) = int r"
    using r by (simp add: signed_of_nat signed_take_bit_int_eq_self)
  then show ?thesis by (simp add: print_d_def show_int_def)
qed

lemma dot_not_digit [simp]: "\<not> isdigit CHR ''.''"
  by (simp add: isdigit_iff)

lemma scanrev_2:
  assumes "a < 2 ^ 31" "b < 2 ^ 31"
  shows "scanrev (show_nat a @ ''.'' @ show_nat b) = (2, [a, b, 0, 0])"
proof -
  have "atoi_p (show_nat a @ ''.'' @ show_nat b) = (of_nat a, ''.'' @ show_nat b)"
    by (rule atoi_p_show_nat) simp
  moreover have "atoi_p (show_nat b) = (of_nat b, [])"
    using atoi_p_show_nat [of "[]" b] by simp
  ultimately show ?thesis
    using assms by (auto simp: scanrev_def unat_of_nat take_bit_nat_eq_self)
qed

lemma scanrev_4:
  assumes "a < 2 ^ 31" "b < 2 ^ 31" "c < 2 ^ 31" "d < 2 ^ 31"
  shows "scanrev (show_nat a @ ''.'' @ show_nat b @ ''.'' @ show_nat c @ ''.'' @ show_nat d) = (4, [a, b, c, d])"
proof -
  have "atoi_p (show_nat a @ ''.'' @ show_nat b @ ''.'' @ show_nat c @ ''.'' @ show_nat d) =
      (of_nat a, ''.'' @ show_nat b @ ''.'' @ show_nat c @ ''.'' @ show_nat d)"
    by (rule atoi_p_show_nat) simp
  moreover have "atoi_p (show_nat b @ ''.'' @ show_nat c @ ''.'' @ show_nat d) =
      (of_nat b, ''.'' @ show_nat c @ ''.'' @ show_nat d)"
    by (rule atoi_p_show_nat) simp
  moreover have "atoi_p (show_nat c @ ''.'' @ show_nat d) = (of_nat c, ''.'' @ show_nat d)"
    by (rule atoi_p_show_nat) simp
  ultimately show ?thesis
    using assms by (auto simp: scanrev_def unat_of_nat take_bit_nat_eq_self)
qed

lemma scanrev_delta_rev:
  assumes "revs_ok s" "live s d"
  shows "snd (scanrev (delta_rev s d)) = [R0 s d, R1 s d, R2 s d, R3 s d]"
  using revs_okD [OF assms] scanrev_2 [of "R0 s d" "R1 s d"] scanrev_4 [of "R0 s d" "R1 s d" "R2 s d" "R3 s d"]
  by (simp add: delta_rev_def Let_def print_d_nat)

lemma delta_rev_chars:
  assumes "revs_ok s" "live s d"
  shows "\<forall>c\<in>set (delta_rev s d). isdigit c \<or> c = CHR ''.''" "delta_rev s d \<noteq> []" "isdigit (hd (delta_rev s d))"
proof -
  have "hd (show_nat n) \<in> set (show_nat n)" for n by simp
  then have "isdigit (hd (show_nat n))" for n by blast
  then show "\<forall>c\<in>set (delta_rev s d). isdigit c \<or> c = CHR ''.''" "delta_rev s d \<noteq> []" "isdigit (hd (delta_rev s d))"
    using revs_okD [OF assms] by (auto simp: delta_rev_def Let_def print_d_nat)
qed

text \<open>The revision that a delta prints finds the delta.\<close>

lemma rfind_delta_rev:
  assumes "revs_ok s" "live s d"
  shows "rfind s (delta_rev s d) = d"
proof -
  let ?P = "\<lambda>e. \<not> TAG s e \<and> samerev s e (snd (scanrev (delta_rev s d)))"
  have Pd: "?P d" "d \<in> set (serials_down s)"
    using assms(2) by (auto simp: scanrev_delta_rev [OF assms] samerev_def live_def serials_down_def)
  have uniq: "e = d" if "?P e" "e \<in> set (serials_down s)" for e
    using that revs_okD(7) [OF assms, of e] by (auto simp: scanrev_delta_rev [OF assms] serials_down_def)
  obtain e where "find ?P (serials_down s) = Some e"
    using Pd find_None_iff [of ?P "serials_down s"] by (cases "find ?P (serials_down s)") auto
  moreover from this have "?P e" "e \<in> set (serials_down s)"
    by (auto simp: find_Some_iff intro: nth_mem)
  ultimately show ?thesis using uniq delta_rev_chars [OF assms] by (simp add: rfind_def)
qed

section \<open>Writing an include/exclude list\<close>

text \<open>
  The comparison function subtracts unsigned serials and returns the difference as an \<open>int\<close>.
  Sorting with it puts the newest serial first.
\<close>

definition serial_sortrev :: "ser \<Rightarrow> ser \<Rightarrow> int" where
  "serial_sortrev l r = sint (of_nat r - of_nat l :: u32)"

definition sort_serials :: "ser list \<Rightarrow> ser list" where
  "sort_serials xs = rev (sort xs)"

definition clude_list :: "ser list \<Rightarrow> ser list \<Rightarrow> (ser \<times> int) list" where
  "clude_list incl excl = map (\<lambda>t. (t, 1)) (sort_serials incl) @ map (\<lambda>t. (t, -1)) (sort_serials excl)"

lemma set_sort_serials [simp]: "set (sort_serials xs) = set xs"
  by (simp add: sort_serials_def)

lemma serial_sortrev_less:
  assumes "a < 2 ^ 31" "b < 2 ^ 31"
  shows "serial_sortrev a b = int b - int a"
proof -
  have "(of_nat b - of_nat a :: u32) = of_int (int b - int a)" by simp
  then show ?thesis
    unfolding serial_sortrev_def using assms
    by (simp add: signed_of_int signed_take_bit_int_eq_self del: of_int_diff)
qed

lemma sort_serials_ordered:
  assumes "\<forall>x\<in>set xs. x < 2 ^ 31"
  shows "mset (sort_serials xs) = mset xs" "sorted_wrt (\<lambda>a b. serial_sortrev a b \<le> 0) (sort_serials xs)"
proof -
  have "sorted_wrt (\<lambda>a b. b \<le> a) (sort_serials xs)"
    unfolding sort_serials_def sorted_wrt_rev by simp
  then show "sorted_wrt (\<lambda>a b. serial_sortrev a b \<le> 0) (sort_serials xs)"
    by (rule sorted_wrt_mono_rel [rotated]) (use assms in \<open>auto simp: serial_sortrev_less\<close>)
qed (simp add: sort_serials_def)

lemma slist1_addStr [simp]: "slist1 (fst (sccs_addStr s str)) = slist1 s"
  by (auto simp: sccs_addStr_def Let_def split: option.splits)

lemma sccs_fields_addStr [simp]:
  "tip (fst (sccs_addStr s str)) = tip s" "encoding_in (fst (sccs_addStr s str)) = encoding_in s"
  "symlist (fst (sccs_addStr s str)) = symlist s"
  by (auto simp: sccs_addStr_def Let_def split: option.splits)

text \<open>Setting an include/exclude list leaves the graph alone.\<close>

lemma CLUDES_SET_graph [graph_acc]:
  "PARENT (CLUDES_SET s d v) e = PARENT s e" "MERGE (CLUDES_SET s d v) e = MERGE s e"
  "FLAGS (CLUDES_SET s d v) e = FLAGS s e" "TAG (CLUDES_SET s d v) e = TAG s e"
  "TABLE (CLUDES_SET s d v) = TABLE s" "BKMERGE (CLUDES_SET s d v) = BKMERGE s"
  "live (CLUDES_SET s d v) e = live s e" "encoding_in (CLUDES_SET s d v) = encoding_in s"
  "tip (CLUDES_SET s d v) = tip s"
  by (auto simp: CLUDES_SET_def Let_def split_def PARENT_def MERGE_def FLAGS_def TAG_def TABLE_def BKMERGE_def live_def)

definition heap_start :: "sccs \<Rightarrow> bool" where
  "heap_start s \<longleftrightarrow> heap s \<noteq> [] \<and> hd (heap s) = NUL \<and> last (heap s) = NUL"

definition heap_wf :: "sccs \<Rightarrow> bool" where
  "heap_wf s \<longleftrightarrow> heap_start s \<and> (\<forall>d\<in>set [1..<Suc (TABLE s)]. CLUDES_INDEX s d < length (heap s))"

lemma heap_wfD:
  assumes "heap_wf s"
  shows "heap s \<noteq> []" "hd (heap s) = NUL" "last (heap s) = NUL"
    "1 \<le> d \<Longrightarrow> d \<le> TABLE s \<Longrightarrow> CLUDES_INDEX s d < length (heap s)"
  using assms by (auto simp: heap_wf_def heap_start_def simp del: upt_Suc)

lemma heap_CLUDES_SET: "heap_wf s \<Longrightarrow> heap (CLUDES_SET s d (Some v)) = heap s @ v @ [NUL]"
  by (auto simp: CLUDES_SET_def Let_def sccs_addStr_def split_def dest: heap_wfD(1))

lemma heap_CLUDES_SET_None: "heap_wf s \<Longrightarrow> heap (CLUDES_SET s d None) = heap s"
  by (auto simp: CLUDES_SET_def Let_def sccs_addStr_def split_def dest: heap_wfD(1))

lemma CLUDES_INDEX_SET:
  "heap_wf s \<Longrightarrow> CLUDES_INDEX (CLUDES_SET s d v) e =
     (if e = d then (case v of None \<Rightarrow> 0 | Some _ \<Rightarrow> length (heap s)) else CLUDES_INDEX s e)"
  by (auto simp: CLUDES_SET_def Let_def sccs_addStr_def CLUDES_INDEX_def split_def dest: heap_wfD(1) split: option.split)

lemma heap_wf_CLUDES_SET:
  assumes "heap_wf s"
  shows "heap_wf (CLUDES_SET s d v)"
proof -
  have "0 < length (heap s)" using heap_wfD(1) [OF assms] by simp
  with heap_wfD [OF assms] show ?thesis
    by (cases v) (auto simp: heap_wf_def heap_start_def graph_acc CLUDES_INDEX_SET [OF assms] heap_CLUDES_SET [OF assms]
        heap_CLUDES_SET_None [OF assms] simp del: upt_Suc intro!: less_SucI trans_less_add1)
qed

lemma CLUDES_SET_other:
  assumes "heap_wf s" "e \<noteq> d" "1 \<le> e" "e \<le> TABLE s"
  shows "CLUDES (CLUDES_SET s d v) e = CLUDES s e"
proof -
  have "HEAP (CLUDES_SET s d v) (CLUDES_INDEX s e) = HEAP s (CLUDES_INDEX s e)"
    using heap_wfD [OF assms(1)] assms(3,4) heap_CLUDES_SET [OF assms(1)] heap_CLUDES_SET_None [OF assms(1)]
    by (cases v) (auto intro: HEAP_old [where zs = "[]"] HEAP_old)
  then show ?thesis by (simp add: CLUDES_def CLUDES_INDEX_SET [OF assms(1)] assms(2))
qed

lemma CLUDES_SET_same:
  assumes "heap_wf s"
  shows "CLUDES (CLUDES_SET s d None) d = []" "NUL \<notin> set v \<Longrightarrow> CLUDES (CLUDES_SET s d (Some v)) d = v"
proof -
  show "CLUDES (CLUDES_SET s d None) d = []"
    using heap_wfD(1,2) [OF assms]
    by (cases "heap s") (auto simp: CLUDES_def CLUDES_INDEX_SET [OF assms] heap_CLUDES_SET_None [OF assms] HEAP_def)
  show "NUL \<notin> set v \<Longrightarrow> CLUDES (CLUDES_SET s d (Some v)) d = v"
    using HEAP_new [of v "CLUDES_SET s d (Some v)" s]
    by (simp add: CLUDES_def CLUDES_INDEX_SET [OF assms] heap_CLUDES_SET [OF assms])
qed

lemma saveNums_no_NUL: "serial_signs xs \<Longrightarrow> NUL \<notin> set (saveNums xs)"
proof (induction xs)
  case (Cons x xs)
  have "NUL \<notin> set (show_nat n)" for n
    using show_nat_digitD isdigit_not_NUL by blast
  with Cons show ?case
    by (cases x) (auto simp: serial_signs_def sccs_saveNum_def show_int_def NUL_def)
qed simp

lemma serial_signs_clude_list:
  "\<forall>t\<in>set incl \<union> set excl. 0 < t \<and> t < 2 ^ 31 \<Longrightarrow> serial_signs (clude_list incl excl)"
  by (auto simp: serial_signs_def clude_list_def list_all_iff)

lemma cludes_of_SET:
  assumes "heap_wf s" "\<forall>t\<in>set incl \<union> set excl. 0 < t \<and> t < 2 ^ 31"
  shows "cludes_of (CLUDES_SET s d (Some (saveNums (clude_list incl excl)))) d = clude_list incl excl"
  using assms serial_signs_clude_list [OF assms(2)]
  by (simp add: cludes_of_def CLUDES_SET_same saveNums_no_NUL eachNum_loop_saveNums)

section \<open>A small file\<close>

text \<open>
  A file with five deltas: the trunk 1.1, 1.2, 1.3, a branch 1.2.1.1 off 1.2, and the merge
  1.4 of the branch into the trunk, which includes the branch delta.  It is the concrete input
  at which the properties of the graph algorithms are evaluated.
\<close>

definition mk_delta :: "ser \<Rightarrow> ser \<Rightarrow> nat list \<Rightarrow> nat \<Rightarrow> delta" where
  "mk_delta p m r c =
     \<lparr>d_parent = p, d_merge = m, d_flags = D_INARRAY, d_ptag = 0, d_mtag = 0,
      d_r0 = r ! 0, d_r1 = r ! 1, d_r2 = r ! 2, d_r3 = r ! 3, d_cludes = c,
      d_date = 0, d_dateFudge = 0, d_zone = 0\<rparr>"

definition ex_file :: sccs where
  "ex_file =
     \<lparr>slist1 = (\<lambda>d. if d = 1 then mk_delta 0 0 [1, 1, 0, 0] 0
        else if d = 2 then mk_delta 1 0 [1, 2, 0, 0] 0
        else if d = 3 then mk_delta 2 0 [1, 3, 0, 0] 0
        else if d = 4 then mk_delta 2 0 [1, 2, 1, 1] 0
        else if d = 5 then mk_delta 3 4 [1, 4, 0, 0] 1
        else mk_delta 0 0 [0, 0, 0, 0] 0),
      tip = 5, heap = [NUL] @ '' 4'' @ [NUL], symlist = [], encoding_in = 0, bitkeeper = True,
      def_branch = None, rstart = 0, rstop = 0\<rparr>"

lemma ex_file_wf: "wf_graph ex_file"
  unfolding wf_graph_def
proof
  show "TABLE ex_file < 2 ^ 27" by (simp add: TABLE_def ex_file_def)
  show "\<forall>d\<in>set [1..<Suc (TABLE ex_file)]. live ex_file d \<longrightarrow> wf_delta ex_file d" by code_simp
qed

lemma ex_file_rev: "revs_ok ex_file"
proof -
  have "\<forall>d\<in>set [1..<Suc (TABLE ex_file)]. R0 ex_file d < 10 \<and> R1 ex_file d < 10 \<and> R2 ex_file d < 10 \<and> R3 ex_file d < 10"
    by code_simp
  moreover have "n < 10 \<Longrightarrow> n < 2 ^ 31" for n :: nat by simp
  moreover have "\<forall>d\<in>set [1..<Suc (TABLE ex_file)]. FLAGS ex_file d AND D_INARRAY \<noteq> 0 \<and>
     (R2 ex_file d = 0 \<longrightarrow> R3 ex_file d = 0) \<and>
     (\<forall>e\<in>set [1..<Suc (TABLE ex_file)]. \<not> TAG ex_file e \<and>
        samerev ex_file e [R0 ex_file d, R1 ex_file d, R2 ex_file d, R3 ex_file d] \<longrightarrow> e = d)"
    by code_simp
  ultimately show ?thesis unfolding revs_ok_def by blast
qed

end
