(* ===== verification/BK_Marks.thy ===== *)
theory BK_Marks
  imports BK_Sccs
begin

text \<open>
  What a version is.  \<open>Notes/SCCSGRAPH.adoc\<close> describes the set of deltas that make up a
  version in words; \<open>in_view\<close> is that description as a function.  A delta is in the version
  when the newest active delta that names it includes it, or when nobody names it and it is
  in the lineage of the version.  The second half gives the one-pass marking procedure over
  the serials, newest first, in the abstract (\<open>m_step\<close>), shows that it computes \<open>in_view\<close>,
  and states as a locale what a byte encoding of the marks has to provide.  \<open>serialmap\<close> and
  the two halves of \<open>symdiff\<close> use three different encodings, which interpret the locale.
\<close>

section \<open>Versions, declaratively\<close>

definition edges :: "sccs \<Rightarrow> ser \<Rightarrow> ser list" where
  "edges s d = filter (\<lambda>p. p \<noteq> 0) (PARENT s d # (if BKMERGE s then [MERGE s d] else []))"

inductive lineage :: "(ser \<Rightarrow> ser list) \<Rightarrow> ser set \<Rightarrow> ser \<Rightarrow> bool"
  for E :: "ser \<Rightarrow> ser list" and S :: "ser set" where
  lineage_tip: "d \<in> S \<Longrightarrow> lineage E S d"
| lineage_edge: "lineage E S u \<Longrightarrow> e \<in> set (E u) \<Longrightarrow> lineage E S e"

text \<open>What the include/exclude list of a delta says of another delta: the first entry counts.\<close>

definition clude_in :: "(ser \<times> int) list \<Rightarrow> ser \<Rightarrow> bool option" where
  "clude_in k e = map_option (\<lambda>sign. 0 < sign) (map_of k e)"

fun first_of :: "'a option list \<Rightarrow> 'a option" where
  "first_of [] = None"
| "first_of (None # xs) = first_of xs"
| "first_of (Some x # xs) = Some x"

text \<open>
  \<open>E\<close> gives the edges of a delta, \<open>K\<close> its includes and excludes; \<open>hi\<close> is the newest serial
  concerned, \<open>S\<close> the tips of the version and \<open>pre\<close> the includes and excludes that the user
  asked for on top.
\<close>

function in_view ::
  "(ser \<Rightarrow> ser list) \<Rightarrow> (ser \<Rightarrow> (ser \<times> int) list) \<Rightarrow> ser \<Rightarrow> ser set \<Rightarrow> (ser \<Rightarrow> bool option) \<Rightarrow> ser \<Rightarrow> bool" where
  "in_view E K hi S pre t =
     (case first_of (pre t #
        map (\<lambda>u. if in_view E K hi S pre u then clude_in (K u) t else None) (rev [Suc t..<Suc hi])) of
        Some b \<Rightarrow> b
      | None \<Rightarrow> lineage E S t)"
  by pat_completeness auto
termination
  by (relation "measure (\<lambda>(E, K, hi, S, pre, t). Suc hi - t)") auto

declare in_view.simps [simp del]

section \<open>The marking procedure, abstractly\<close>

type_synonym marks = "(ser \<Rightarrow> bool) \<times> (ser \<Rightarrow> bool option)"

definition m_active :: "marks \<Rightarrow> ser \<Rightarrow> bool" where
  "m_active M d = (case snd M d of Some b \<Rightarrow> b | None \<Rightarrow> fst M d)"

definition m_par :: "ser list \<Rightarrow> marks \<Rightarrow> marks" where
  "m_par es M = ((\<lambda>e. fst M e \<or> e \<in> set es), snd M)"

definition m_clude :: "(ser \<times> int) list \<Rightarrow> marks \<Rightarrow> marks" where
  "m_clude k M = (fst M, \<lambda>e. case snd M e of Some b \<Rightarrow> Some b | None \<Rightarrow> clude_in k e)"

definition m_step :: "(ser \<Rightarrow> ser list) \<Rightarrow> (ser \<Rightarrow> (ser \<times> int) list) \<Rightarrow> ser \<Rightarrow> marks \<Rightarrow> marks" where
  "m_step E K d M =
     (let M' = (if fst M d then m_par (E d) M else M)
      in if m_active M d then m_clude (K d) M' else M')"

definition m_upto ::
  "(ser \<Rightarrow> ser list) \<Rightarrow> (ser \<Rightarrow> (ser \<times> int) list) \<Rightarrow> ser \<Rightarrow> ser \<Rightarrow> marks \<Rightarrow> marks" where
  "m_upto E K hi t M = fold (m_step E K) (rev [Suc t..<Suc hi]) M"

definition older :: "(ser \<Rightarrow> ser list) \<Rightarrow> (ser \<Rightarrow> (ser \<times> int) list) \<Rightarrow> bool" where
  "older E K \<longleftrightarrow> (\<forall>u e. e \<in> set (E u) \<longrightarrow> e < u) \<and> (\<forall>u e sign. (e, sign) \<in> set (K u) \<longrightarrow> e < u)"

lemma older_E: "older E K \<Longrightarrow> e \<in> set (E u) \<Longrightarrow> e < u"
  by (simp add: older_def)

lemma m_upto_refl [simp]: "hi \<le> t \<Longrightarrow> m_upto E K hi t M = M"
  by (simp add: m_upto_def)

lemma m_upto_step: "t < hi \<Longrightarrow> m_upto E K hi t M = m_step E K (Suc t) (m_upto E K hi (Suc t) M)"
  by (simp add: m_upto_def upt_rec [of "Suc t"] del: upt_Suc)

lemma lineage_le: "lineage E S u \<Longrightarrow> older E K \<Longrightarrow> \<forall>d\<in>S. d \<le> hi \<Longrightarrow> u \<le> hi"
  by (induction rule: lineage.induct) (auto dest: older_E [THEN less_imp_le])

lemma lineage_unfold: "lineage E S e \<longleftrightarrow> e \<in> S \<or> (\<exists>u. lineage E S u \<and> e \<in> set (E u))"
  by (auto elim: lineage.cases intro: lineage.intros)

lemma first_of_append: "first_of (xs @ ys) = (case first_of xs of Some b \<Rightarrow> Some b | None \<Rightarrow> first_of ys)"
  by (induction xs rule: first_of.induct) auto

lemma first_of_single [simp]: "first_of [x] = x"
  by (cases x) auto

text \<open>
  The same walk with the decisions given from outside: \<open>W\<close> says which deltas are active.  It is
  the walk of the functions that compute an include/exclude list for a given set of deltas.
\<close>

definition f_step ::
  "(ser \<Rightarrow> ser list) \<Rightarrow> (ser \<Rightarrow> (ser \<times> int) list) \<Rightarrow> (ser \<Rightarrow> bool) \<Rightarrow> ser \<Rightarrow> marks \<Rightarrow> marks" where
  "f_step E K W d M =
     (let M' = (if fst M d then m_par (E d) M else M)
      in if W d then m_clude (K d) M' else M')"

definition f_upto ::
  "(ser \<Rightarrow> ser list) \<Rightarrow> (ser \<Rightarrow> (ser \<times> int) list) \<Rightarrow> (ser \<Rightarrow> bool) \<Rightarrow> ser \<Rightarrow> ser \<Rightarrow> marks \<Rightarrow> marks" where
  "f_upto E K W hi t M = fold (f_step E K W) (rev [Suc t..<Suc hi]) M"

lemma f_upto_refl [simp]: "hi \<le> t \<Longrightarrow> f_upto E K W hi t M = M"
  by (simp add: f_upto_def)

lemma f_upto_step: "t < hi \<Longrightarrow> f_upto E K W hi t M = f_step E K W (Suc t) (f_upto E K W hi (Suc t) M)"
  by (simp add: f_upto_def upt_rec [of "Suc t"] del: upt_Suc)

lemma m_step_f_step: "m_active M d = W d \<Longrightarrow> m_step E K d M = f_step E K W d M"
  by (simp add: m_step_def f_step_def)

text \<open>
  The state of the marks when \<open>t\<close> is the next serial: the lineage marks come from the newer
  members of the lineage, the include/exclude marks from the newer active deltas.
\<close>

definition votes :: "(ser \<Rightarrow> (ser \<times> int) list) \<Rightarrow> (ser \<Rightarrow> bool) \<Rightarrow> ser \<Rightarrow> ser \<Rightarrow> ser \<Rightarrow> bool option list" where
  "votes K W hi t e = map (\<lambda>u. if W u then clude_in (K u) e else None) (rev [Suc t..<Suc hi])"

lemma votes_refl [simp]: "hi \<le> t \<Longrightarrow> votes K W hi t e = []"
  by (simp add: votes_def)

lemma votes_step: "t < hi \<Longrightarrow>
   votes K W hi t e = votes K W hi (Suc t) e @ [if W (Suc t) then clude_in (K (Suc t)) e else None]"
  by (simp add: votes_def upt_rec [of "Suc t"] del: upt_Suc)

lemma votes_cong: "\<forall>u. t < u \<and> u \<le> hi \<longrightarrow> W u = W' u \<Longrightarrow> votes K W hi t e = votes K W' hi t e"
  by (auto simp: votes_def)

lemma in_view_votes:
  "in_view E K hi S pre t =
     (case first_of (pre t # votes K (in_view E K hi S pre) hi t t) of Some b \<Rightarrow> b | None \<Rightarrow> lineage E S t)"
  by (subst in_view.simps) (simp add: votes_def)

lemma f_upto_clude:
  assumes "t \<le> hi"
  shows "snd (f_upto E K W hi t (P, pre)) e = first_of (pre e # votes K W hi t e)"
  using assms
proof (induction "hi - t" arbitrary: t)
  case 0
  then show ?case by simp
next
  case (Suc n)
  then have t: "t < hi" and ih: "snd (f_upto E K W hi (Suc t) (P, pre)) e = first_of (pre e # votes K W hi (Suc t) e)"
    by auto
  show ?case
    unfolding f_upto_step [OF t] votes_step [OF t] append_Cons [symmetric] first_of_append ih [symmetric]
    by (auto simp: f_step_def Let_def m_par_def m_clude_def split: option.splits)
qed

lemma f_upto_par:
  assumes old: "older E K" and S: "\<forall>d\<in>S. d \<le> hi"
  shows "t \<le> hi \<Longrightarrow> fst (f_upto E K W hi t ((\<lambda>e. e \<in> S), pre)) e \<longleftrightarrow>
     e \<in> S \<or> (\<exists>u>t. u \<le> hi \<and> lineage E S u \<and> e \<in> set (E u))"
proof (induction "hi - t" arbitrary: t e)
  case 0
  then show ?case by auto
next
  case (Suc n)
  let ?F = "\<lambda>t. f_upto E K W hi t ((\<lambda>e. e \<in> S), pre)"
  from Suc have t: "t < hi" and ih: "\<And>e. fst (?F (Suc t)) e \<longleftrightarrow>
      e \<in> S \<or> (\<exists>u>Suc t. u \<le> hi \<and> lineage E S u \<and> e \<in> set (E u))" by auto
  have lin: "fst (?F (Suc t)) (Suc t) = lineage E S (Suc t)"
    using ih older_E [OF old] lineage_le [OF _ old S] by (subst lineage_unfold) blast
  have f: "fst (?F t) e \<longleftrightarrow> fst (?F (Suc t)) e \<or> lineage E S (Suc t) \<and> e \<in> set (E (Suc t))"
    by (simp add: f_upto_step [OF t] f_step_def m_par_def m_clude_def Let_def lin)
  have ex: "(\<exists>u>t. u \<le> hi \<and> Q u) \<longleftrightarrow> Q (Suc t) \<or> (\<exists>u>Suc t. u \<le> hi \<and> Q u)" for Q
  proof -
    have "t < u \<longleftrightarrow> u = Suc t \<or> Suc t < u" for u by auto
    with Suc_leI [OF t] show ?thesis by auto
  qed
  show ?case unfolding f ih ex by blast
qed

lemma f_upto_lineage:
  assumes old: "older E K" and S: "\<forall>d\<in>S. d \<le> hi" and "t \<le> hi"
  shows "fst (f_upto E K W hi t ((\<lambda>e. e \<in> S), pre)) t = lineage E S t"
  unfolding f_upto_par [OF assms] using older_E [OF old] lineage_le [OF _ old S]
  by (subst (2) lineage_unfold) blast

lemma f_upto_active:
  assumes "older E K" and "\<forall>d\<in>S. d \<le> hi" and "t \<le> hi"
  shows "m_active (f_upto E K W hi t ((\<lambda>e. e \<in> S), pre)) t =
     (case first_of (pre t # votes K W hi t t) of Some b \<Rightarrow> b | None \<Rightarrow> lineage E S t)"
  unfolding m_active_def f_upto_clude [OF assms(3)] f_upto_lineage [OF assms] ..

text \<open>The marking procedure is the forced walk along the version itself.\<close>

lemma m_upto_f_upto:
  assumes "older E K" and "\<forall>d\<in>S. d \<le> hi" and "t \<le> hi"
  shows "m_upto E K hi t ((\<lambda>e. e \<in> S), pre) =
    f_upto E K (in_view E K hi S pre) hi t ((\<lambda>e. e \<in> S), pre)"
  using assms(3)
proof (induction "hi - t" arbitrary: t)
  case 0
  then show ?case by simp
next
  case (Suc n)
  then have t: "t < hi" and ih: "m_upto E K hi (Suc t) ((\<lambda>e. e \<in> S), pre) =
    f_upto E K (in_view E K hi S pre) hi (Suc t) ((\<lambda>e. e \<in> S), pre)" by auto
  have "m_active (f_upto E K (in_view E K hi S pre) hi (Suc t) ((\<lambda>e. e \<in> S), pre)) (Suc t) =
      in_view E K hi S pre (Suc t)"
    using f_upto_active [OF assms(1,2), of "Suc t"] t by (simp add: in_view_votes [symmetric])
  then show ?case
    by (simp add: m_upto_step [OF t] f_upto_step [OF t] ih m_step_f_step)
qed

text \<open>So the marks decide membership in the version when the walk reaches a serial.\<close>

lemma m_upto_active:
  assumes "older E K" and "\<forall>d\<in>S. d \<le> hi" and "t \<le> hi"
  shows "m_active (m_upto E K hi t ((\<lambda>e. e \<in> S), pre)) t = in_view E K hi S pre t"
  unfolding m_upto_f_upto [OF assms] f_upto_active [OF assms] in_view_votes [of E K hi S pre t] ..

text \<open>
  Computing an include/exclude list for a wanted set \<open>W\<close>: run the forced walk, and record
  every delta whose mark disagrees with \<open>W\<close>.  Any \<open>pre\<close> that has all of these, and that never
  contradicts \<open>W\<close>, turns the version with the given tips into \<open>W\<close>.
\<close>

lemma in_view_forced:
  assumes old: "older E K" and S: "\<forall>d\<in>S. d \<le> hi"
    and pre: "\<And>t b. pre t = Some b \<Longrightarrow> b = W t"
    and rec: "\<And>t. t \<le> hi \<Longrightarrow> liv t \<Longrightarrow> m_active (f_upto E K W hi t ((\<lambda>e. e \<in> S), \<lambda>_. None)) t \<noteq> W t \<Longrightarrow>
       pre t = Some (W t)"
    and dead: "\<And>t. \<not> liv t \<Longrightarrow> K t = []"
  shows "t \<le> hi \<Longrightarrow> liv t \<Longrightarrow> in_view E K hi S pre t = W t"
proof (induction "hi - t" arbitrary: t rule: less_induct)
  case less
  have "in_view E K hi S pre u = W u \<or> K u = []" if "t < u" "u \<le> hi" for u
    using less(1) [of u] that dead [of u] by (cases "liv u") auto
  then have "(if in_view E K hi S pre u then clude_in (K u) t else None) = (if W u then clude_in (K u) t else None)"
    if "t < u" "u \<le> hi" for u
    using that by (fastforce simp: clude_in_def)
  then have "votes K (in_view E K hi S pre) hi t t = votes K W hi t t"
    by (simp add: votes_def del: upt_Suc)
  then have eq: "in_view E K hi S pre t =
      (case first_of (pre t # votes K W hi t t) of Some b \<Rightarrow> b | None \<Rightarrow> lineage E S t)"
    using in_view_votes [of E K hi S pre t] by simp
  show ?case
  proof (cases "pre t")
    case (Some b)
    with pre eq show ?thesis by simp
  next
    case None
    with rec [of t] less.prems have "m_active (f_upto E K W hi t ((\<lambda>e. e \<in> S), \<lambda>_. None)) t = W t" by auto
    then show ?thesis using None eq f_upto_active [OF old S less.prems(1), of W "\<lambda>_. None"] by simp
  qed
qed

text \<open>
  Marks that agree from a serial downwards decide the same for all of these serials: this is
  what allows the symmetric difference to stop early.
\<close>

definition agree :: "ser \<Rightarrow> marks \<Rightarrow> marks \<Rightarrow> bool" where
  "agree t M N \<longleftrightarrow> (\<forall>e\<le>t. fst M e = fst N e \<and> snd M e = snd N e)"

lemma agree_active: "agree t M N \<Longrightarrow> e \<le> t \<Longrightarrow> m_active M e = m_active N e"
  by (auto simp: agree_def m_active_def split: option.split)

lemma agree_step: "agree t M N \<Longrightarrow> d \<le> t \<Longrightarrow> agree t (m_step E K d M) (m_step E K d N)"
  by (auto simp: agree_def m_step_def m_active_def m_par_def m_clude_def Let_def split: option.splits)

lemma agree_mono: "agree t M N \<Longrightarrow> t' \<le> t \<Longrightarrow> agree t' M N"
  by (simp add: agree_def)

lemma agree_upto: "agree hi M N \<Longrightarrow> agree hi (m_upto E K hi t M) (m_upto E K hi t N)"
proof (induction "hi - t" arbitrary: t)
  case 0
  then show ?case by simp
next
  case (Suc n)
  then have "t < hi" by simp
  with Suc show ?case by (simp add: m_upto_step agree_step)
qed

text \<open>A serial without marks changes nothing.\<close>

lemma m_step_unmarked: "\<not> fst M d \<Longrightarrow> snd M d = None \<Longrightarrow> m_step E K d M = M"
  by (simp add: m_step_def m_active_def)

section \<open>Byte encodings of the marks\<close>

definition clude_bits :: "nat \<Rightarrow> nat \<Rightarrow> u8 \<Rightarrow> bool option" where
  "clude_bits i x b = (if bit b i then Some True else if bit b x then Some False else None)"

definition byte_marks :: "nat \<Rightarrow> nat \<Rightarrow> nat \<Rightarrow> (ser \<Rightarrow> u8) \<Rightarrow> marks" where
  "byte_marks p i x sl = ((\<lambda>e. bit (sl e) p), (\<lambda>e. clude_bits i x (sl e)))"

text \<open>
  The three bits of one encoding, and what the client has to do with a byte: or in the
  lineage bit (\<open>set_par\<close>), or in the include or exclude bit unless one of them is set
  (\<open>set_clude\<close>).  The laws are stated on the abstracted marks.
\<close>

locale mark_encoding =
  fixes p i x :: nat
    and par_bit :: u8
    and new_clude :: "u8 \<Rightarrow> int \<Rightarrow> u8"
    and marks_of :: "(ser \<Rightarrow> u8) \<Rightarrow> marks"
  assumes marks_of: "marks_of sl = byte_marks p i x sl"
    and bits: "p < 8" "i < 8" "x < 8" "p \<noteq> i" "p \<noteq> x" "i \<noteq> x"
    and par_bit: "par_bit = push_bit p 1"
    and new_clude_p: "bit (b OR new_clude b sign) p = bit b p"
    and new_clude_c: "clude_bits i x (b OR new_clude b sign) =
      (case clude_bits i x b of Some c \<Rightarrow> Some c | None \<Rightarrow> Some (0 < sign))"
begin

lemma bit_par_bit: "bit par_bit n \<longleftrightarrow> n = p"
  using bits by (auto simp: par_bit bit_simps)

lemma marks_par: "marks_of (sl(e := sl e OR par_bit)) = m_par [e] (marks_of sl)"
  using bits by (auto simp: marks_of byte_marks_def m_par_def clude_bits_def bit_simps bit_par_bit)

lemma marks_clude:
  "marks_of (sl(e := sl e OR new_clude (sl e) sign)) = m_clude [(e, sign)] (marks_of sl)"
  by (auto simp: marks_of byte_marks_def m_clude_def clude_in_def new_clude_p new_clude_c
      split: option.splits)

lemma marks_clude_list:
  "marks_of (fold (\<lambda>(e, sign) sl. sl(e := sl e OR new_clude (sl e) sign)) k sl) = m_clude k (marks_of sl)"
proof (induction k arbitrary: sl)
  case Nil
  have "m_clude [] N = N" for N
    by (cases N) (auto simp: m_clude_def clude_in_def split: option.splits)
  then show ?case by simp
next
  case (Cons a k)
  obtain e sign where a: "a = (e, sign)" by (cases a)
  have "m_clude k (m_clude [(e, sign)] (marks_of sl)) = m_clude ((e, sign) # k) (marks_of sl)"
    by (simp add: m_clude_def clude_in_def fun_eq_iff split: option.splits)
  then show ?case
    unfolding a fold_simps prod.case Cons.IH marks_clude .
qed

lemma marks_active: "m_active (marks_of sl) d \<longleftrightarrow> bit (sl d) p \<and> \<not> bit (sl d) x \<or> bit (sl d) i"
  by (auto simp: m_active_def marks_of byte_marks_def clude_bits_def)

end

end
