(* ===== verification/BK_Serialmap.thy ===== *)
theory BK_Serialmap
  imports BK_Marks
begin

text \<open>
  From a revision to the set of deltas that make it up: \<open>walkList\<close> (the reader of a user's
  include or exclude list), \<open>serialmap\<close>, \<open>setmap\<close> and \<open>compressmap\<close> of \<open>slib.c\<close>.  The main
  result is that \<open>serialmap\<close> computes the version of \<open>BK_Marks\<close>.
\<close>

section \<open>The graph as edges and includes\<close>

definition gE :: "sccs \<Rightarrow> ser \<Rightarrow> ser list" where
  "gE s d = (if live s d then edges s d else [])"

definition gK :: "sccs \<Rightarrow> ser \<Rightarrow> (ser \<times> int) list" where
  "gK s d = (if live s d then cludes_of s d else [])"

text \<open>The version with the given tips and the given user includes and excludes.\<close>

definition view :: "sccs \<Rightarrow> ser set \<Rightarrow> (ser \<Rightarrow> bool option) \<Rightarrow> ser \<Rightarrow> bool" where
  "view s S pre t = in_view (gE s) (gK s) (TABLE s) S pre t"

lemma gE_live: "wf_graph s \<Longrightarrow> e \<in> set (gE s d) \<Longrightarrow> e < d \<and> live s e"
  by (auto simp: gE_def edges_def dest: wf_parent wf_merge split: if_splits)

lemma gK_live: "wf_graph s \<Longrightarrow> (e, sign) \<in> set (gK s d) \<Longrightarrow> e < d \<and> live s e"
  by (auto simp: gK_def dest: wf_clude split: if_splits)

text \<open>
  The marking procedure runs on the edges of the graph and on one include/exclude list per delta:
  both only name older live deltas, and deltas that are not live have none.
\<close>

definition graph_live :: "sccs \<Rightarrow> (ser \<Rightarrow> ser list) \<Rightarrow> (ser \<Rightarrow> (ser \<times> int) list) \<Rightarrow> bool" where
  "graph_live s E K \<longleftrightarrow>
     (\<forall>d e. e \<in> set (E d) \<longrightarrow> live s d \<and> e < d \<and> live s e) \<and>
     (\<forall>d e sign. (e, sign) \<in> set (K d) \<longrightarrow> live s d \<and> e < d \<and> live s e)"

lemma graph_liveD:
  assumes "graph_live s E K"
  shows "e \<in> set (E d) \<Longrightarrow> live s d \<and> e < d \<and> live s e" "(e, sign) \<in> set (K d) \<Longrightarrow> live s d \<and> e < d \<and> live s e"
  using assms unfolding graph_live_def by blast+

lemma graph_live_dead:
  assumes "graph_live s E K" "\<not> live s d"
  shows "E d = []" "K d = []"
proof -
  have "e \<notin> set (E d)" "(e, sign) \<notin> set (K d)" for e sign
    using graph_liveD [OF assms(1)] assms(2) by blast+
  then have "set (E d) \<subseteq> {}" "set (K d) \<subseteq> {}" by fast+
  then show "E d = []" "K d = []" by simp_all
qed

lemma graph_live_wf: "wf_graph s \<Longrightarrow> graph_live s (gE s) (gK s)"
  unfolding graph_live_def
proof (intro conjI allI impI)
  assume wf: "wf_graph s"
  show "live s d" if "e \<in> set (gE s d)" for d e using that by (simp add: gE_def split: if_splits)
  show "e < d" "live s e" if "e \<in> set (gE s d)" for d e using gE_live [OF wf that] by auto
  show "live s d" if "(e, sign) \<in> set (gK s d)" for d e sign using that by (simp add: gK_def split: if_splits)
  show "e < d" "live s e" if "(e, sign) \<in> set (gK s d)" for d e sign using gK_live [OF wf that] by auto
qed

lemma older_live: "graph_live s E K \<Longrightarrow> older E K"
  by (auto simp: older_def dest: graph_liveD)

lemma older_graph: "wf_graph s \<Longrightarrow> older (gE s) (gK s)"
  by (rule older_live [OF graph_live_wf])

text \<open>Marks only ever sit on live serials.\<close>

definition marks_live :: "sccs \<Rightarrow> marks \<Rightarrow> bool" where
  "marks_live s M \<longleftrightarrow> (\<forall>e. fst M e \<or> snd M e \<noteq> None \<longrightarrow> live s e)"

lemma clude_in_SomeD: "clude_in k e = Some b \<Longrightarrow> \<exists>sign. (e, sign) \<in> set k"
  by (auto simp: clude_in_def dest: map_of_SomeD)

lemma marks_live_f_step: "graph_live s E K \<Longrightarrow> marks_live s M \<Longrightarrow> marks_live s (f_step E K W d M)"
  by (auto simp: marks_live_def f_step_def m_par_def m_clude_def Let_def
      dest: graph_liveD clude_in_SomeD split: option.splits if_splits)

lemma marks_live_step: "graph_live s E K \<Longrightarrow> marks_live s M \<Longrightarrow> marks_live s (m_step E K d M)"
  using marks_live_f_step [of s E K M "m_active M" d] by (simp add: m_step_f_step)

lemma f_step_not_live:
  assumes "graph_live s E K" "marks_live s M" "\<not> live s d"
  shows "f_step E K W d M = M"
proof -
  have "m_clude [] M = M" by (cases M) (auto simp: m_clude_def clude_in_def split: option.splits)
  moreover have "\<not> fst M d" using assms by (auto simp: marks_live_def)
  ultimately show ?thesis using assms by (simp add: f_step_def graph_live_dead(2))
qed

lemma m_step_not_live: "marks_live s M \<Longrightarrow> \<not> live s d \<Longrightarrow> m_step E K d M = M"
  by (rule m_step_unmarked) (auto simp: marks_live_def)

lemma marks_live_f_upto: "graph_live s E K \<Longrightarrow> marks_live s M \<Longrightarrow> marks_live s (f_upto E K W hi t M)"
proof (induction "hi - t" arbitrary: t)
  case 0
  then show ?case by simp
next
  case (Suc n)
  then have "t < hi" by simp
  with Suc show ?case by (simp add: f_upto_step marks_live_f_step)
qed

lemma marks_live_upto: "graph_live s E K \<Longrightarrow> marks_live s M \<Longrightarrow> marks_live s (m_upto E K hi t M)"
proof (induction "hi - t" arbitrary: t)
  case 0
  then show ?case by simp
next
  case (Suc n)
  then have "t < hi" by simp
  with Suc show ?case by (simp add: m_upto_step marks_live_step)
qed

text \<open>The walk may start at the newest marked serial instead of the newest serial.\<close>

lemma m_upto_start:
  assumes "\<forall>e>start. \<not> fst M e \<and> snd M e = None" and "start \<le> hi" and "t \<le> start"
  shows "m_upto E K hi t M = m_upto E K start t M"
proof -
  have idle: "start \<le> t' \<Longrightarrow> m_upto E K hi t' M = M" for t'
  proof (induction "hi - t'" arbitrary: t')
    case 0
    then show ?case by simp
  next
    case (Suc n)
    then have lt: "t' < hi" by simp
    with Suc have "m_upto E K hi (Suc t') M = M" by simp
    moreover have "m_step E K (Suc t') M = M"
      using assms(1) Suc.prems by (intro m_step_unmarked) auto
    ultimately show ?case by (simp add: m_upto_step lt)
  qed
  from assms(3) show ?thesis
  proof (induction "start - t" arbitrary: t)
    case 0
    then show ?case by (simp add: idle)
  next
    case (Suc n)
    then have "t < start" by simp
    moreover from this assms(2) have "t < hi" by simp
    ultimately show ?case using Suc by (simp add: m_upto_step)
  qed
qed

lemma view_upto:
  assumes "wf_graph s" and "\<forall>d\<in>S. d \<le> start" and "\<forall>e>start. pre e = None"
    and "start \<le> TABLE s" and "t \<le> start"
  shows "m_active (m_upto (gE s) (gK s) start t ((\<lambda>e. e \<in> S), pre)) t = view s S pre t"
proof -
  have "\<forall>d\<in>S. d \<le> TABLE s" using assms(2,4) by auto
  from m_upto_active [OF older_graph [OF assms(1)] this, of t pre] assms(4,5)
  have "m_active (m_upto (gE s) (gK s) (TABLE s) t ((\<lambda>e. e \<in> S), pre)) t = view s S pre t"
    by (simp add: view_def)
  moreover have "m_upto (gE s) (gK s) (TABLE s) t ((\<lambda>e. e \<in> S), pre) =
      m_upto (gE s) (gK s) start t ((\<lambda>e. e \<in> S), pre)"
    using assms by (intro m_upto_start) auto
  ultimately show ?thesis by simp
qed

section \<open>The user's list of revisions\<close>

text \<open>\<open>walkList\<close> keeps its place in static variables between the calls.\<close>

record walk_state =
  wl_next :: "string option"
  wl_d :: ser
  wl_stop :: ser

definition wl_init :: walk_state where
  "wl_init = \<lparr>wl_next = None, wl_d = 0, wl_stop = 0\<rparr>"

text \<open>
  \<open>for (tmp = d; tmp && tmp != stop; tmp = PARENT(s, tmp))\<close>, with fuel; a well-formed graph
  needs at most \<open>d\<close> steps.
\<close>

fun parent_walk :: "nat \<Rightarrow> sccs \<Rightarrow> ser \<Rightarrow> ser \<Rightarrow> ser option" where
  "parent_walk 0 s tmp stop = None"
| "parent_walk (Suc n) s tmp stop =
     (if tmp \<noteq> 0 \<and> tmp \<noteq> stop then parent_walk n s (PARENT s tmp) stop else Some tmp)"

definition rev_or_top :: "sccs \<Rightarrow> string \<Rightarrow> ser" where
  "rev_or_top s rv = (if rv = ''+'' then findrev s None else rfind s rv)"

definition not_sep :: "char \<Rightarrow> bool" where
  "not_sep c \<longleftrightarrow> c \<noteq> CHR '','' \<and> c \<noteq> CHR ''-''"

text \<open>One call: the serial (0 when there is none), \<open>*errp\<close> and the static variables after it.\<close>

definition walkList :: "sccs \<Rightarrow> string option \<Rightarrow> nat \<Rightarrow> walk_state \<Rightarrow> (ser \<times> nat \<times> walk_state) option" where
  "walkList s list err wl0 =
    (let wl = (case list of Some l \<Rightarrow> \<lparr>wl_next = Some l, wl_d = 0, wl_stop = 0\<rparr> | None \<Rightarrow> wl0) in
     if wl_d wl \<noteq> 0 then
       Some (wl_d wl, err, wl\<lparr>wl_d := (if wl_d wl = wl_stop wl then 0 else PARENT s (wl_d wl))\<rparr>)
     else case wl_next wl of
       None \<Rightarrow> Some (0, err, wl)
     | Some nx \<Rightarrow>
        (let rv = takeWhile not_sep nx; t = dropWhile not_sep nx in
         if t = [] then Some (rev_or_top s rv, err, wl\<lparr>wl_next := None\<rparr>)
         else if hd t = CHR '','' then Some (rev_or_top s rv, err, wl\<lparr>wl_next := Some (tl t)\<rparr>)
         else
           (let stop = rfind s rv; rv2 = takeWhile not_sep (tl t); u = dropWhile not_sep (tl t) in
            if u \<noteq> [] \<and> hd u \<noteq> CHR '','' then
              Some (0, 1, wl\<lparr>wl_next := Some (tl t), wl_stop := stop\<rparr>)
            else
              (let d = rev_or_top s rv2;
                   wl' = wl\<lparr>wl_next := (if u = [] then None else Some (tl u)), wl_d := d, wl_stop := stop\<rparr> in
               if stop = 0 \<or> d = 0 then Some (0, 2, wl')
               else case parent_walk (Suc (Suc (TABLE s))) s d stop of
                 None \<Rightarrow> None
               | Some tmp \<Rightarrow>
                   if tmp \<noteq> stop then Some (0, 2, wl')
                   else Some (d, err, wl'\<lparr>wl_d := (if d = stop then 0 else PARENT s d)\<rparr>)))))"

text \<open>
  The client's loop \<open>for (t = walkList(s, list, &err); !err && t; t = walkList(s, 0, &err)) body\<close>.
  The body returns the error it raises (0 for none) and its new state; a later call of
  \<open>walkList\<close> may overwrite the error.
\<close>

fun walk_fold ::
  "nat \<Rightarrow> sccs \<Rightarrow> (ser \<Rightarrow> 'a \<Rightarrow> nat \<times> 'a) \<Rightarrow> string option \<Rightarrow> nat \<Rightarrow> walk_state \<Rightarrow> 'a
     \<Rightarrow> ('a \<times> nat \<times> walk_state) option" where
  "walk_fold 0 s body list err wl a = None"
| "walk_fold (Suc n) s body list err wl a =
     (case walkList s list err wl of
        None \<Rightarrow> None
      | Some (t, err', wl') \<Rightarrow>
          if err' = 0 \<and> t \<noteq> 0 then
            (case body t a of (err2, a') \<Rightarrow> walk_fold n s body None err2 wl' a')
          else Some (a, err', wl'))"

text \<open>The serials that a list stands for, with the final error and static variables.\<close>

fun walk_loop :: "nat \<Rightarrow> sccs \<Rightarrow> string option \<Rightarrow> nat \<Rightarrow> walk_state \<Rightarrow> (ser list \<times> nat \<times> walk_state) option" where
  "walk_loop 0 s list err wl = None"
| "walk_loop (Suc n) s list err wl =
     (case walkList s list err wl of
        None \<Rightarrow> None
      | Some (t, err', wl') \<Rightarrow>
          if err' = 0 \<and> t \<noteq> 0 then
            (case walk_loop n s None err' wl' of
               None \<Rightarrow> None
             | Some (ts, r) \<Rightarrow> Some (t # ts, r))
          else Some ([], err', wl'))"

definition walk_fuel :: "sccs \<Rightarrow> string option \<Rightarrow> walk_state \<Rightarrow> nat" where
  "walk_fuel s list wl =
     (length (case list of Some l \<Rightarrow> l | None \<Rightarrow> (case wl_next wl of Some l \<Rightarrow> l | None \<Rightarrow> [])) + 3)
       * (TABLE s + 3) + wl_d wl + 1"

section \<open>Serial maps\<close>

type_synonym slist = "ser \<Rightarrow> u8"

definition S_INC :: u8 where "S_INC = 1"
definition S_EXCL :: u8 where "S_EXCL = 2"
definition S_PAR :: u8 where "S_PAR = 4"

definition clude_new :: "u8 \<Rightarrow> int \<Rightarrow> u8" where
  "clude_new b sign =
     (if b AND (S_INC OR S_EXCL) = 0 then (if sign > 0 then S_INC else S_EXCL) else 0)"

text \<open>\<open>while (i = sccs_eachNum(&p, &sign)) unless (slist[i] & (S_INC|S_EXCL)) slist[i] |= ...\<close>\<close>

definition mark_cludes :: "(ser \<times> int) list \<Rightarrow> slist \<Rightarrow> slist" where
  "mark_cludes k sl = fold (\<lambda>(i, sign) sl. sl(i := sl i OR clude_new (sl i) sign)) k sl"

definition mark_parents :: "sccs \<Rightarrow> ser \<Rightarrow> slist \<Rightarrow> slist" where
  "mark_parents s t sl =
     (if sl t AND S_PAR \<noteq> 0 \<and> PARENT s t \<noteq> 0 then
        (let sl' = sl(PARENT s t := sl (PARENT s t) OR S_PAR) in
         if BKMERGE s \<and> MERGE s t \<noteq> 0 then sl'(MERGE s t := sl' (MERGE s t) OR S_PAR) else sl')
      else sl)"

definition map_active :: "u8 \<Rightarrow> bool" where
  "map_active b \<longleftrightarrow> b AND (S_PAR OR S_EXCL) = S_PAR \<or> b AND S_INC \<noteq> 0"

definition serialmap_body :: "sccs \<Rightarrow> ser \<Rightarrow> slist \<Rightarrow> slist" where
  "serialmap_body s t sl =
     (if TAG s t then sl
      else
        (let sl = mark_parents s t sl in
         if map_active (sl t) then mark_cludes (cludes_of s t) (sl(t := 1)) else sl(t := 0)))"

fun serialmap_loop :: "sccs \<Rightarrow> ser \<Rightarrow> slist \<Rightarrow> slist" where
  "serialmap_loop s 0 sl = sl"
| "serialmap_loop s (Suc n) sl =
     (if Suc n > TREE s then serialmap_loop s n (serialmap_body s (Suc n) sl) else sl)"

definition mark_inc :: "ser \<Rightarrow> slist \<times> ser \<Rightarrow> nat \<times> slist \<times> ser" where
  "mark_inc t = (\<lambda>(sl, start). (0, sl(t := S_INC), if t > start then t else start))"

definition mark_exc :: "ser \<Rightarrow> slist \<times> ser \<Rightarrow> nat \<times> slist \<times> ser" where
  "mark_exc t = (\<lambda>(sl, start).
     (if sl t = S_INC then 3 else 0, if sl t = S_INC then sl else sl(t := S_EXCL),
      if t > start then t else start))"

text \<open>
  \<open>serialmap\<close> returns the map, or the error number that it leaves in \<open>*errp\<close>.  The result is
  \<open>None\<close> when the assertion \<open>d\<close> fails.  The static variables of \<open>walkList\<close> do not matter: every
  list is passed explicitly.
\<close>

definition serialmap :: "sccs \<Rightarrow> ser \<Rightarrow> ser \<Rightarrow> string option \<Rightarrow> string option \<Rightarrow> (nat + slist) option" where
  "serialmap s d m iLst xLst =
    (if d = 0 then None
     else
       case (case iLst of None \<Rightarrow> Some ((\<lambda>_. 0, max d m), 0, wl_init)
             | Some l \<Rightarrow> walk_fold (walk_fuel s iLst wl_init) s mark_inc iLst 0 wl_init (\<lambda>_. 0, max d m)) of
         None \<Rightarrow> None
       | Some (st, err, _) \<Rightarrow>
          if err \<noteq> 0 then Some (Inl err)
          else
            (case (case xLst of None \<Rightarrow> Some (st, 0, wl_init)
                   | Some l \<Rightarrow> walk_fold (walk_fuel s xLst wl_init) s mark_exc xLst 0 wl_init st) of
               None \<Rightarrow> None
             | Some ((sl, start), err, _) \<Rightarrow>
                if err \<noteq> 0 then Some (Inl err)
                else
                  (let sl = sl(d := sl d OR S_PAR);
                       sl = (if m \<noteq> 0 then sl(m := sl m OR S_PAR) else sl)
                   in Some (Inr (serialmap_loop s start sl)))))"

definition sccs_set :: "sccs \<Rightarrow> ser \<Rightarrow> ser \<Rightarrow> string option \<Rightarrow> string option \<Rightarrow> slist option" where
  "sccs_set s d m iLst xLst =
     (case serialmap s d m iLst xLst of Some (Inr sl) \<Rightarrow> Some sl | _ \<Rightarrow> None)"

definition setmap :: "sccs \<Rightarrow> u32 \<Rightarrow> bool \<Rightarrow> slist" where
  "setmap s b all =
     fold (\<lambda>t sl. if (all \<or> \<not> TAG s t) \<and> FLAGS s t AND b \<noteq> 0 then sl(t := 1) else sl)
       (serials_down s) (\<lambda>_. 0)"

section \<open>The encoding used by serialmap\<close>

lemma S_one_hot: "S_INC = push_bit 0 1" "S_EXCL = push_bit 1 1" "S_PAR = push_bit 2 1"
  by (simp_all add: S_INC_def S_EXCL_def S_PAR_def push_bit_eq_mult)

lemma S_bits [bit_macros]:
  "bit S_INC n \<longleftrightarrow> n = 0" "bit S_EXCL n \<longleftrightarrow> n = 1" "bit S_PAR n \<longleftrightarrow> n = 2"
  by (unfold S_one_hot, rule bit_one_hot, simp, rule bit_one_hot, simp, rule bit_one_hot, simp)

lemma and_S_eq_0 [bit_macros]:
  "b AND S_INC = 0 \<longleftrightarrow> \<not> bit b 0" "b AND S_EXCL = 0 \<longleftrightarrow> \<not> bit b 1" "b AND S_PAR = 0 \<longleftrightarrow> \<not> bit b 2"
  by (unfold S_one_hot, rule and_one_hot_eq_0, simp, rule and_one_hot_eq_0, simp, rule and_one_hot_eq_0, simp)

lemma and_S_clude_eq_0 [bit_macros]: "b AND (S_INC OR S_EXCL) = 0 \<longleftrightarrow> \<not> bit b 0 \<and> \<not> bit b 1"
  by (simp add: bit.conj_disj_distrib or_eq_0_iff and_S_eq_0)

lemma bit_clude_new:
  "bit (clude_new b sign) n \<longleftrightarrow> \<not> bit b 0 \<and> \<not> bit b 1 \<and> n = (if sign > 0 then 0 else 1)"
  by (auto simp: clude_new_def bit_macros)

definition sm_marks :: "slist \<Rightarrow> marks" where
  "sm_marks sl = byte_marks 2 0 1 sl"

interpretation sm: mark_encoding 2 0 1 S_PAR clude_new sm_marks
  by unfold_locales
    (auto simp: sm_marks_def S_one_hot(3) bit_clude_new bit_simps clude_bits_def split: if_splits)

lemma map_active_iff: "map_active (sl t) = m_active (sm_marks sl) t"
proof -
  have "b AND (S_PAR OR S_EXCL) = S_PAR \<longleftrightarrow> bit b 2 \<and> \<not> bit b 1" for b
    by (auto simp: word_bits_eq bit_simps bit_macros dest: spec [of _ 2] spec [of _ "Suc 0"])
  then show ?thesis
    by (auto simp: map_active_def sm.marks_active bit_macros)
qed

section \<open>One step of serialmap is one marking step\<close>

lemma agree_par: "agree t M N \<Longrightarrow> agree t (m_par es M) (m_par es N)"
  by (auto simp: agree_def m_par_def)

lemma agree_clude: "agree t M N \<Longrightarrow> agree t (m_clude k M) (m_clude k N)"
  by (auto simp: agree_def m_clude_def split: option.splits)

lemma agree_upd: "t < d \<Longrightarrow> agree t (sm_marks (sl(d := v))) N \<longleftrightarrow> agree t (sm_marks sl) N"
  by (auto simp: agree_def sm_marks_def byte_marks_def)

lemma m_par_append: "m_par (xs @ ys) M = m_par ys (m_par xs M)"
  by (auto simp: m_par_def)

lemma marks_mark_parents:
  assumes "wf_graph s" "live s t"
  shows "sm_marks (mark_parents s t sl) =
    (if fst (sm_marks sl) t then m_par (gE s t) (sm_marks sl) else sm_marks sl)"
proof -
  have P: "fst (sm_marks sl) t \<longleftrightarrow> sl t AND S_PAR \<noteq> 0"
    by (simp add: sm_marks_def byte_marks_def bit_macros)
  have "m_par [] M = M" for M by (cases M) (simp add: m_par_def)
  moreover have "MERGE s t \<noteq> 0 \<Longrightarrow> PARENT s t \<noteq> 0" using wf_merge [OF assms] by blast
  ultimately show ?thesis
    using assms(2) m_par_append [of "[PARENT s t]" "[MERGE s t]"]
    by (auto simp: P mark_parents_def gE_def edges_def Let_def sm.marks_par
        simp del: fun_upd_apply)
qed

lemma mark_parents_newer: "wf_graph s \<Longrightarrow> live s t \<Longrightarrow> t \<le> e \<Longrightarrow> mark_parents s t sl e = sl e"
  using wf_parent [of s t] wf_merge [of s t] by (auto simp: mark_parents_def Let_def)

lemma mark_cludes_other: "\<forall>(i, sign)\<in>set k. i \<noteq> e \<Longrightarrow> mark_cludes k sl e = sl e"
  unfolding mark_cludes_def by (induction k arbitrary: sl) auto

lemma mark_cludes_newer: "wf_graph s \<Longrightarrow> live s t \<Longrightarrow> t \<le> e \<Longrightarrow> mark_cludes (cludes_of s t) sl e = sl e"
  by (rule mark_cludes_other) (auto dest: wf_clude)

lemma serialmap_body_live:
  assumes "wf_graph s" "live s t" "agree t (sm_marks sl) M"
  shows "agree (t - 1) (sm_marks (serialmap_body s t sl)) (m_step (gE s) (gK s) t M)"
    and "serialmap_body s t sl t = (if m_active M t then 1 else 0)"
    and "t < e \<or> e = 0 \<Longrightarrow> serialmap_body s t sl e = sl e"
proof -
  define sl1 where "sl1 = mark_parents s t sl"
  have ntag: "\<not> TAG s t" and t1: "1 \<le> t" using assms(2) by (auto simp: live_def)
  have same: "sl1 t = sl t" using mark_parents_newer [OF assms(1,2)] by (simp add: sl1_def)
  have "map_active (sl t) = m_active (sm_marks sl) t" by (rule map_active_iff)
  also have "\<dots> = m_active M t" using assms(3) by (rule agree_active) simp
  finally have act: "map_active (sl1 t) = m_active M t" by (simp add: same)
  have body: "serialmap_body s t sl =
      (if m_active M t then mark_cludes (cludes_of s t) (sl1(t := 1)) else sl1(t := 0))"
    using ntag act by (simp add: serialmap_body_def sl1_def [symmetric] Let_def)
  let ?M' = "if fst M t then m_par (gE s t) M else M"
  have "fst (sm_marks sl) t = fst M t" using assms(3) by (simp add: agree_def)
  then have "agree t (sm_marks sl1) ?M'"
    using assms(3) by (auto simp: sl1_def marks_mark_parents [OF assms(1,2)] agree_par)
  then have a1: "agree (t - 1) (sm_marks sl1) ?M'" by (rule agree_mono) simp
  have "agree (t - 1) (sm_marks (sl1(t := v))) ?M'" for v
    using a1 t1 by (subst agree_upd) auto
  then show "agree (t - 1) (sm_marks (serialmap_body s t sl)) (m_step (gE s) (gK s) t M)"
    using assms(2)
    by (auto simp: body m_step_def Let_def mark_cludes_def sm.marks_clude_list gK_def
        simp del: fun_upd_apply intro: agree_clude)
  show "serialmap_body s t sl t = (if m_active M t then 1 else 0)"
    by (simp add: body mark_cludes_newer [OF assms(1,2)])
  have "mark_cludes (cludes_of s t) sl' 0 = sl' 0" for sl'
    using wf_clude [OF assms(1,2)] by (intro mark_cludes_other) (fastforce simp: live_def)
  moreover have "mark_parents s t sl 0 = sl 0" by (simp add: mark_parents_def Let_def)
  ultimately show "t < e \<or> e = 0 \<Longrightarrow> serialmap_body s t sl e = sl e"
    using t1 by (auto simp: body mark_cludes_newer [OF assms(1,2)])
      (auto simp: sl1_def mark_parents_newer [OF assms(1,2)])
qed

lemma serialmap_body_dead:
  assumes "marks_live s M" "\<not> live s t" "agree t (sm_marks sl) M" "1 \<le> t" "t \<le> TABLE s"
  shows "agree (t - 1) (sm_marks (serialmap_body s t sl)) (m_step (gE s) (gK s) t M)"
    and "t < e \<or> e = 0 \<Longrightarrow> serialmap_body s t sl e = sl e"
proof -
  have "\<not> fst M t" "snd M t = None" using assms(1,2) by (auto simp: marks_live_def)
  then have "\<not> fst (sm_marks sl) t" "\<not> m_active (sm_marks sl) t"
    using assms(3) by (auto simp: agree_def m_active_def)
  then have "mark_parents s t sl = sl" "\<not> map_active (sl t)"
    by (auto simp: mark_parents_def map_active_iff sm_marks_def byte_marks_def bit_macros)
  then have body: "serialmap_body s t sl = (if TAG s t then sl else sl(t := 0))"
    by (simp add: serialmap_body_def)
  show "agree (t - 1) (sm_marks (serialmap_body s t sl)) (m_step (gE s) (gK s) t M)"
    using agree_mono [OF assms(3), of "t - 1"] assms(4)
    by (auto simp: body m_step_not_live [OF assms(1,2)] agree_upd simp del: fun_upd_apply)
  show "t < e \<or> e = 0 \<Longrightarrow> serialmap_body s t sl e = sl e"
    using assms(4) by (auto simp: body)
qed

lemma serialmap_loop_correct:
  assumes wf: "wf_graph s" and hi: "hi \<le> TABLE s" and M: "marks_live s M"
  shows "t \<le> hi \<Longrightarrow> agree t (sm_marks sl) (m_upto (gE s) (gK s) hi t M) \<Longrightarrow>
     (1 \<le> t \<longrightarrow> agree 1 (sm_marks (serialmap_loop s t sl)) (m_upto (gE s) (gK s) hi 1 M)) \<and>
     (\<forall>e. e > t \<or> e = 0 \<longrightarrow> serialmap_loop s t sl e = sl e) \<and>
     (\<forall>e\<le>t. live s e \<and> e \<noteq> 1 \<longrightarrow>
       serialmap_loop s t sl e = (if m_active (m_upto (gE s) (gK s) hi e M) e then 1 else 0))"
proof (induction t arbitrary: sl)
  case 0
  then show ?case by (simp add: live_def)
next
  case (Suc n)
  let ?M = "m_upto (gE s) (gK s) hi (Suc n) M"
  have ml: "marks_live s ?M" by (rule marks_live_upto [OF graph_live_wf [OF wf] M])
  show ?case
  proof (cases "Suc n > TREE s")
    case False
    then have "n = 0" by (simp add: TREE_def)
    with False Suc.prems(2) show ?thesis by (auto simp: live_def)
  next
    case True
    have "Suc n \<le> TABLE s" using Suc.prems hi by simp
    then have ag: "agree n (sm_marks (serialmap_body s (Suc n) sl)) (m_step (gE s) (gK s) (Suc n) ?M)"
      using serialmap_body_live(1) [OF wf _ Suc.prems(2)] serialmap_body_dead(1) [OF ml _ Suc.prems(2)]
      by (cases "live s (Suc n)") simp_all
    have fr: "serialmap_body s (Suc n) sl e = sl e" if "Suc n < e \<or> e = 0" for e
      using serialmap_body_live(3) [OF wf _ Suc.prems(2) that]
        serialmap_body_dead(2) [OF ml _ Suc.prems(2) _ \<open>Suc n \<le> TABLE s\<close> that]
      by (cases "live s (Suc n)") simp_all
    have "m_step (gE s) (gK s) (Suc n) ?M = m_upto (gE s) (gK s) hi n M"
      using Suc.prems(1) by (simp add: m_upto_step)
    with ag Suc.prems(1) have ih:
      "(1 \<le> n \<longrightarrow> agree 1 (sm_marks (serialmap_loop s n (serialmap_body s (Suc n) sl))) (m_upto (gE s) (gK s) hi 1 M)) \<and>
       (\<forall>e. e > n \<or> e = 0 \<longrightarrow> serialmap_loop s n (serialmap_body s (Suc n) sl) e = serialmap_body s (Suc n) sl e) \<and>
       (\<forall>e\<le>n. live s e \<and> e \<noteq> 1 \<longrightarrow> serialmap_loop s n (serialmap_body s (Suc n) sl) e =
         (if m_active (m_upto (gE s) (gK s) hi e M) e then 1 else 0))"
      by (intro Suc.IH) auto
    show ?thesis
    proof (intro conjI allI impI)
      show "agree 1 (sm_marks (serialmap_loop s (Suc n) sl)) (m_upto (gE s) (gK s) hi 1 M)"
        using True ih by (simp add: TREE_def)
    next
      fix e assume "e > Suc n \<or> e = 0"
      then show "serialmap_loop s (Suc n) sl e = sl e" using True ih fr by auto
    next
      fix e assume e: "e \<le> Suc n" "live s e \<and> e \<noteq> 1"
      show "serialmap_loop s (Suc n) sl e = (if m_active (m_upto (gE s) (gK s) hi e M) e then 1 else 0)"
      proof (cases "e = Suc n")
        case eq: True
        then have "serialmap_loop s (Suc n) sl e = serialmap_body s (Suc n) sl (Suc n)"
          using True ih by simp
        then show ?thesis using serialmap_body_live(2) [OF wf _ Suc.prems(2)] e eq by simp
      next
        case False
        then show ?thesis using True ih e by simp
      qed
    qed
  qed
qed

section \<open>The user's lists as marks\<close>

definition revs_of :: "sccs \<Rightarrow> string option \<Rightarrow> ser list option" where
  "revs_of s lst =
     (case lst of
        None \<Rightarrow> Some []
      | Some l \<Rightarrow>
          (case walk_loop (walk_fuel s lst wl_init) s lst 0 wl_init of
             Some (ts, err, _) \<Rightarrow> if err = 0 then Some ts else None
           | None \<Rightarrow> None))"

definition user_pre :: "ser list \<Rightarrow> ser list \<Rightarrow> ser \<Rightarrow> bool option" where
  "user_pre incs excs t =
     (if t \<in> set incs then Some True else if t \<in> set excs then Some False else None)"

definition tips :: "ser \<Rightarrow> ser \<Rightarrow> ser set" where
  "tips d m = (if m = 0 then {d} else {d, m})"

fun body_ok :: "(ser \<Rightarrow> 'a \<Rightarrow> nat \<times> 'a) \<Rightarrow> ser list \<Rightarrow> 'a \<Rightarrow> bool" where
  "body_ok body [] a = True"
| "body_ok body (t # ts) a = (fst (body t a) = 0 \<and> body_ok body ts (snd (body t a)))"

lemma walk_fold_loop:
  "walk_loop n s list err wl = Some (ts, e, wl') \<Longrightarrow> body_ok body ts a \<Longrightarrow>
   walk_fold n s body list err wl a = Some (fold (\<lambda>t a. snd (body t a)) ts a, e, wl')"
proof (induction n s list err wl arbitrary: ts a rule: walk_loop.induct)
  case (1 s list err wl)
  then show ?case by simp
next
  case (2 n s list err wl)
  then obtain t err' wl'' where w: "walkList s list err wl = Some (t, err', wl'')"
    by (auto split: option.splits)
  show ?case
  proof (cases "err' = 0 \<and> t \<noteq> 0")
    case False
    with w 2(2) show ?thesis by (auto split: if_splits)
  next
    case True
    with w 2(2) obtain ts' where ts: "walk_loop n s None err' wl'' = Some (ts', e, wl')" "ts = t # ts'"
      by (auto split: option.splits)
    obtain err2 a' where b: "body t a = (err2, a')" by (cases "body t a")
    with ts(2) 2(3) have "err2 = 0" "body_ok body ts' a'" by auto
    moreover have "walk_fold n s body None err' wl'' a' = Some (fold (\<lambda>t a. snd (body t a)) ts' a', e, wl')"
      using 2(1) [OF w refl refl True ts(1)] calculation(2) by blast
    ultimately show ?thesis using w True b ts(2) by simp
  qed
qed

lemma body_ok_inc: "body_ok mark_inc ts a"
  by (induction ts arbitrary: a) (auto simp: mark_inc_def split: prod.splits)

lemma fold_mark_inc:
  "fold (\<lambda>t a. snd (mark_inc t a)) ts (sl, start) =
     ((\<lambda>e. if e \<in> set ts then S_INC else sl e), fold max ts start)"
  by (induction ts arbitrary: sl start) (auto simp: mark_inc_def max_def fun_eq_iff)

lemma S_INC_neq_S_EXCL [simp]: "S_INC \<noteq> S_EXCL" "S_EXCL \<noteq> S_INC" "S_INC \<noteq> 0" "0 \<noteq> S_INC"
  by (simp_all add: S_INC_def S_EXCL_def)

lemma body_ok_exc: "\<forall>t\<in>set ts. sl t \<noteq> S_INC \<Longrightarrow> body_ok mark_exc ts (sl, start)"
  by (induction ts arbitrary: sl start) (auto simp: mark_exc_def)

lemma fold_mark_exc:
  "\<forall>t\<in>set ts. sl t \<noteq> S_INC \<Longrightarrow> fold (\<lambda>t a. snd (mark_exc t a)) ts (sl, start) =
     ((\<lambda>e. if e \<in> set ts then S_EXCL else sl e), fold max ts start)"
  by (induction ts arbitrary: sl start) (auto simp: mark_exc_def max_def fun_eq_iff)

lemma fold_max_ge: "(start :: nat) \<le> fold max ts start" "t \<in> set ts \<Longrightarrow> t \<le> fold max ts start"
proof (induction ts arbitrary: start)
  case (Cons a ts)
  { case 1 show ?case using Cons(1) [of "max a start"] by simp }
  { case 2 then show ?case using Cons(1,2) [of "max a start"] by auto }
qed auto

lemma fold_max_start: "(x :: nat) \<le> start \<Longrightarrow> x \<le> fold max ts start"
  using fold_max_ge(1) [of start ts] by simp

lemma fold_max_le: "start \<le> b \<Longrightarrow> \<forall>t\<in>set ts. t \<le> b \<Longrightarrow> fold max ts start \<le> (b :: nat)"
  by (induction ts arbitrary: start) auto

lemma walk_inc:
  assumes "revs_of s iLst = Some incs"
  shows "\<exists>wl. (case iLst of None \<Rightarrow> Some ((sl, start), 0, wl_init)
     | Some l \<Rightarrow> walk_fold (walk_fuel s iLst wl_init) s mark_inc iLst 0 wl_init (sl, start)) =
     Some (((\<lambda>e. if e \<in> set incs then S_INC else sl e), fold max incs start), 0, wl)"
  using assms walk_fold_loop [OF _ body_ok_inc]
  by (auto simp: revs_of_def fold_mark_inc split: option.splits if_splits)

lemma walk_exc:
  assumes "revs_of s xLst = Some excs" and "\<forall>t\<in>set excs. sl t \<noteq> S_INC"
  shows "\<exists>wl. (case xLst of None \<Rightarrow> Some ((sl, start), 0, wl_init)
     | Some l \<Rightarrow> walk_fold (walk_fuel s xLst wl_init) s mark_exc xLst 0 wl_init (sl, start)) =
     Some (((\<lambda>e. if e \<in> set excs then S_EXCL else sl e), fold max excs start), 0, wl)"
  using assms(1) walk_fold_loop [OF _ body_ok_exc [OF assms(2)]]
  by (auto simp: revs_of_def fold_mark_exc [OF assms(2)] split: option.splits if_splits)

text \<open>The map that the loop of \<open>serialmap\<close> starts from.\<close>

definition seed :: "ser \<Rightarrow> ser \<Rightarrow> ser list \<Rightarrow> ser list \<Rightarrow> slist" where
  "seed d m incs excs =
     (let sl = (\<lambda>e. if e \<in> set excs then S_EXCL else if e \<in> set incs then S_INC else 0);
          sl = sl(d := sl d OR S_PAR)
      in if m \<noteq> 0 then sl(m := sl m OR S_PAR) else sl)"

lemma serialmap_eq_loop:
  assumes "d \<noteq> 0" and "revs_of s iLst = Some incs" and "revs_of s xLst = Some excs"
    and "set incs \<inter> set excs = {}"
  shows "serialmap s d m iLst xLst =
    Some (Inr (serialmap_loop s (fold max excs (fold max incs (max d m))) (seed d m incs excs)))"
proof -
  obtain wl where i: "(case iLst of None \<Rightarrow> Some ((\<lambda>_. 0, max d m), 0, wl_init)
     | Some l \<Rightarrow> walk_fold (walk_fuel s iLst wl_init) s mark_inc iLst 0 wl_init (\<lambda>_. 0, max d m)) =
     Some (((\<lambda>e. if e \<in> set incs then S_INC else 0), fold max incs (max d m)), 0, wl)"
    using walk_inc [OF assms(2)] by blast
  have no: "\<forall>t\<in>set excs. (\<lambda>e. if e \<in> set incs then S_INC else 0) t \<noteq> S_INC"
    using assms(4) by auto
  obtain wl' where x: "(case xLst of None \<Rightarrow> Some (((\<lambda>e. if e \<in> set incs then S_INC else 0), fold max incs (max d m)), 0, wl_init)
     | Some l \<Rightarrow> walk_fold (walk_fuel s xLst wl_init) s mark_exc xLst 0 wl_init
         ((\<lambda>e. if e \<in> set incs then S_INC else 0), fold max incs (max d m))) =
     Some (((\<lambda>e. if e \<in> set excs then S_EXCL else if e \<in> set incs then S_INC else 0),
       fold max excs (fold max incs (max d m))), 0, wl')"
    using walk_exc [OF assms(3) no] by blast
  show ?thesis
    using assms(1) by (simp add: serialmap_def i x seed_def Let_def del: fun_upd_apply)
qed

lemma marks_seed:
  assumes "set incs \<inter> set excs = {}"
  shows "sm_marks (seed d m incs excs) = ((\<lambda>e. e \<in> tips d m), user_pre incs excs)"
proof -
  define base :: slist where
    "base = (\<lambda>e. if e \<in> set excs then S_EXCL else if e \<in> set incs then S_INC else 0)"
  have "sm_marks base = ((\<lambda>e. False), user_pre incs excs)"
    using assms by (auto simp: base_def sm_marks_def byte_marks_def user_pre_def clude_bits_def bit_macros fun_eq_iff)
  then have "sm_marks (base(d := base d OR S_PAR)) = ((\<lambda>e. e = d), user_pre incs excs)"
    by (simp add: sm.marks_par m_par_def del: fun_upd_apply)
  moreover have "seed d m incs excs =
      (let sl = base(d := base d OR S_PAR) in if m \<noteq> 0 then sl(m := sl m OR S_PAR) else sl)"
    by (simp add: seed_def base_def Let_def)
  ultimately show ?thesis
    by (auto simp: Let_def tips_def sm.marks_par m_par_def simp del: fun_upd_apply)
qed

lemma serialmap_map:
  assumes wf: "wf_graph s" and d: "live s d" and m: "m = 0 \<or> live s m"
    and inc: "revs_of s iLst = Some incs" "\<forall>t\<in>set incs. live s t"
    and exc: "revs_of s xLst = Some excs" "\<forall>t\<in>set excs. live s t"
    and dis: "set incs \<inter> set excs = {}"
  shows "\<exists>sl. serialmap s d m iLst xLst = Some (Inr sl) \<and>
    (\<forall>t. live s t \<and> t \<noteq> 1 \<longrightarrow> sl t = (if view s (tips d m) (user_pre incs excs) t then 1 else 0)) \<and>
    map_active (sl 1) = view s (tips d m) (user_pre incs excs) 1 \<and>
    (\<forall>t. t = 0 \<or> t > TABLE s \<longrightarrow> sl t = 0)"
proof -
  define start where "start = fold max excs (fold max incs (max d m))"
  define sl where "sl = serialmap_loop s start (seed d m incs excs)"
  let ?pre = "user_pre incs excs" and ?S = "tips d m"
  let ?M = "\<lambda>t. m_upto (gE s) (gK s) start t ((\<lambda>e. e \<in> ?S), ?pre)"
  have d1: "1 \<le> d" "d \<le> TABLE s" using d by (auto simp: live_def)
  have ser: "serialmap s d m iLst xLst = Some (Inr sl)"
    unfolding sl_def start_def using d1 inc exc dis by (intro serialmap_eq_loop) auto
  have st: "start \<le> TABLE s"
    unfolding start_def using d1 m inc(2) exc(2) by (intro fold_max_le) (auto simp: live_def)
  have le: "d \<le> start" "m \<le> start" "\<forall>t\<in>set incs. t \<le> start" "\<forall>t\<in>set excs. t \<le> start"
    unfolding start_def
    by (simp_all add: fold_max_start fold_max_ge(2))
  have S: "\<forall>e\<in>?S. e \<le> start" and pre: "\<forall>e>start. ?pre e = None"
    using le by (auto simp: tips_def user_pre_def)
  have ml: "marks_live s ((\<lambda>e. e \<in> ?S), ?pre)"
    using d m inc(2) exc(2) by (auto simp: marks_live_def tips_def user_pre_def split: if_splits)
  have "agree start (sm_marks (seed d m incs excs)) (?M start)"
    by (simp add: marks_seed [OF dis] agree_def)
  from serialmap_loop_correct [OF wf st ml order_refl this] d1(1) le(1)
  have root: "agree 1 (sm_marks sl) (?M 1)"
    and frame: "\<And>e. e > start \<or> e = 0 \<Longrightarrow> sl e = seed d m incs excs e"
    and main: "\<And>e. e \<le> start \<Longrightarrow> live s e \<Longrightarrow> e \<noteq> 1 \<Longrightarrow> sl e = (if m_active (?M e) e then 1 else 0)"
    by (auto simp: sl_def)
  have vw: "m_active (?M t) t = view s ?S ?pre t" if "t \<le> start" for t
    using view_upto [OF wf S pre st that] .
  have seed0: "seed d m incs excs e = 0" if "e > start \<or> e = 0" for e
    using that le d m inc(2) exc(2) by (auto simp: seed_def Let_def live_def)
  have above: "\<not> view s ?S ?pre t" if "t > start" "t \<le> TABLE s" for t
  proof -
    have "m_active (m_upto (gE s) (gK s) t t ((\<lambda>e. e \<in> ?S), ?pre)) t = view s ?S ?pre t"
      using that S pre by (intro view_upto [OF wf]) auto
    then show ?thesis using that S pre by (auto simp: m_active_def)
  qed
  have "sl t = (if view s ?S ?pre t then 1 else 0)" if "live s t" "t \<noteq> 1" for t
    using main [of t] vw [of t] frame [of t] seed0 [of t] above [of t] that
    by (cases "t \<le> start") (auto simp: live_def)
  moreover have "map_active (sl 1) = view s ?S ?pre 1"
    using agree_active [OF root order_refl] vw [of 1] d1(1) le(1) by (simp add: map_active_iff)
  moreover have "sl t = 0" if "t = 0 \<or> t > TABLE s" for t
    using frame [of t] seed0 [of t] that st by auto
  ultimately show ?thesis using ser by blast
qed

text \<open>
  C1.  \<open>serialmap\<close> computes the version.  For any tip \<open>d\<close> (with an optional merge tip \<open>m\<close>) and any
  user lists that resolve to live deltas and do not overlap, the entry of every delta above
  the root is 1 when the delta is in the version and 0 otherwise; the entry of the root is
  left as marks, which say whether the root is in the version; and nothing outside the
  allocated serials (nor entry 0) is ever written.
\<close>

theorem serialmap_view:
  assumes wf: "wf_graph s" and d: "live s d" and m: "m = 0 \<or> live s m"
    and inc: "revs_of s iLst = Some incs" "\<forall>t\<in>set incs. live s t"
    and exc: "revs_of s xLst = Some excs" "\<forall>t\<in>set excs. live s t"
    and dis: "set incs \<inter> set excs = {}"
  shows "\<exists>sl. serialmap s d m iLst xLst = Some (Inr sl) \<and>
    (\<forall>t. live s t \<and> t \<noteq> 1 \<longrightarrow> sl t = (if view s (tips d m) (user_pre incs excs) t then 1 else 0)) \<and>
    map_active (sl 1) = view s (tips d m) (user_pre incs excs) 1 \<and>
    (\<forall>t. t = 0 \<or> t > TABLE s \<longrightarrow> sl t = 0)"
  using assms by (rule serialmap_map)

theorem serialmap_view_witness:
  "wf_graph ex_file \<and> live ex_file 5 \<and>
   revs_of ex_file (Some ''1.2.1.1'') = Some [4] \<and> revs_of ex_file (Some ''1.2-1.3'') = Some [3, 2] \<and>
   (\<exists>sl. serialmap ex_file 5 0 (Some ''1.2.1.1'') (Some ''1.2-1.3'') = Some (Inr sl) \<and>
     (\<forall>t. live ex_file t \<and> t \<noteq> 1 \<longrightarrow>
        sl t = (if view ex_file (tips 5 0) (user_pre [4] [3, 2]) t then 1 else 0)))"
proof -
  have h: "live ex_file 5" "live ex_file 4" "live ex_file 3" "live ex_file 2"
    by code_simp+
  have r: "revs_of ex_file (Some ''1.2.1.1'') = Some [4]" "revs_of ex_file (Some ''1.2-1.3'') = Some [3, 2]"
    by code_simp+
  show ?thesis
    using serialmap_view [OF ex_file_wf h(1) _ r(1) _ r(2), of 0] h r ex_file_wf by auto
qed

section \<open>Compressing a set of deltas\<close>

text \<open>
  \<open>compressmap\<close> is given a set of deltas and a basis, and computes the include and exclude
  lists that turn the basis into the set.  \<open>None\<close> is a failing assertion.
\<close>

definition compressmap_body ::
  "sccs \<Rightarrow> slist \<Rightarrow> ser \<Rightarrow> slist \<times> ser list \<times> ser list \<Rightarrow> slist \<times> ser list \<times> ser list" where
  "compressmap_body s mp t = (\<lambda>(sl, incser, excser).
     if TAG s t then (sl, incser, excser)
     else
       (let sl = mark_parents s t sl;
            active = map_active (sl t);
            excser = (if active \<and> mp t = 0 then excser @ [t] else excser)
        in if mp t = 0 then (sl, incser, excser)
           else (mark_cludes (cludes_of s t) sl, if \<not> active then incser @ [t] else incser, excser)))"

definition rev_list :: "sccs \<Rightarrow> ser list \<Rightarrow> string option" where
  "rev_list s xs = (if xs = [] then None else Some (join '','' (map (delta_rev s) (rev xs))))"

definition compressmap :: "sccs \<Rightarrow> ser \<Rightarrow> slist \<Rightarrow> (string option \<times> string option) option" where
  "compressmap s d mp =
     (if d = 0 then None
      else case fold (compressmap_body s mp) (serials_down s) ((\<lambda>_. 0)(d := S_PAR), [], []) of
        (_, incser, excser) \<Rightarrow> Some (rev_list s incser, rev_list s excser))"

definition sccs_graph :: "sccs \<Rightarrow> ser \<Rightarrow> slist \<Rightarrow> (string option \<times> string option) option" where
  "sccs_graph s d mp = compressmap s d mp"

text \<open>The walk is the forced walk of \<open>BK_Marks\<close>, and records where the marks disagree with the set.\<close>

definition f_marks :: "sccs \<Rightarrow> ser \<Rightarrow> slist \<Rightarrow> ser \<Rightarrow> marks" where
  "f_marks s d mp t = f_upto (gE s) (gK s) (\<lambda>t. mp t \<noteq> 0) (TABLE s) t ((\<lambda>e. e \<in> {d}), \<lambda>_. None)"

definition missing :: "sccs \<Rightarrow> ser \<Rightarrow> slist \<Rightarrow> ser \<Rightarrow> bool" where
  "missing s d mp t \<longleftrightarrow> live s t \<and> mp t \<noteq> 0 \<and> \<not> m_active (f_marks s d mp t) t"

definition extra :: "sccs \<Rightarrow> ser \<Rightarrow> slist \<Rightarrow> ser \<Rightarrow> bool" where
  "extra s d mp t \<longleftrightarrow> live s t \<and> mp t = 0 \<and> m_active (f_marks s d mp t) t"

definition map_live :: "sccs \<Rightarrow> slist \<Rightarrow> bool" where
  "map_live s mp \<longleftrightarrow> (\<forall>t. mp t \<noteq> 0 \<longrightarrow> live s t)"

lemma compressmap_body_correct:
  assumes wf: "wf_graph s" and d: "live s d" and mp: "map_live s mp" and t: "1 \<le> t" "t \<le> TABLE s"
    and sl: "sm_marks sl = f_marks s d mp t"
  shows "\<exists>sl'. compressmap_body s mp t (sl, incser, excser) =
      (sl', incser @ (if missing s d mp t then [t] else []), excser @ (if extra s d mp t then [t] else [])) \<and>
      sm_marks sl' = f_marks s d mp (t - 1)"
proof -
  have ml: "marks_live s (f_marks s d mp t)"
    unfolding f_marks_def using d by (intro marks_live_f_upto [OF graph_live_wf [OF wf]]) (auto simp: marks_live_def)
  have step: "f_marks s d mp (t - 1) = f_step (gE s) (gK s) (\<lambda>t. mp t \<noteq> 0) t (f_marks s d mp t)"
    using t f_upto_step [of "t - 1" "TABLE s"] by (simp add: f_marks_def)
  show ?thesis
  proof (cases "live s t")
    case True
    then have "sm_marks (mark_parents s t sl) =
        (if fst (f_marks s d mp t) t then m_par (gE s t) (f_marks s d mp t) else f_marks s d mp t)"
      by (simp add: marks_mark_parents [OF wf] sl)
    moreover have "map_active (mark_parents s t sl t) = m_active (f_marks s d mp t) t"
      using mark_parents_newer [OF wf True order_refl] sl by (simp add: map_active_iff)
    moreover have "\<not> TAG s t" using True by (simp add: live_def)
    ultimately show ?thesis
      using True by (auto simp: compressmap_body_def Let_def missing_def extra_def step [unfolded One_nat_def] f_step_def gK_def
          mark_cludes_def sm.marks_clude_list)
  next
    case False
    then have no: "\<not> fst (f_marks s d mp t) t" "snd (f_marks s d mp t) t = None"
      using ml by (auto simp: marks_live_def)
    then have "\<not> fst (sm_marks sl) t" "\<not> m_active (sm_marks sl) t" by (auto simp: sl m_active_def)
    then have "mark_parents s t sl = sl" "\<not> map_active (sl t)"
      by (auto simp: mark_parents_def map_active_iff sm_marks_def byte_marks_def bit_macros)
    moreover have "mp t = 0" using mp False by (auto simp: map_live_def)
    ultimately show ?thesis
      using False f_step_not_live [OF graph_live_wf [OF wf] ml False] sl
      by (auto simp: compressmap_body_def missing_def extra_def step [unfolded One_nat_def] Let_def)
  qed
qed

lemma compressmap_fold:
  assumes wf: "wf_graph s" and d: "live s d" and mp: "map_live s mp"
  shows "n \<le> TABLE s \<Longrightarrow> sm_marks sl = f_marks s d mp n \<Longrightarrow>
    \<exists>sl'. fold (compressmap_body s mp) (rev [1..<Suc n]) (sl, incser, excser) =
      (sl', incser @ filter (missing s d mp) (rev [1..<Suc n]), excser @ filter (extra s d mp) (rev [1..<Suc n]))"
proof (induction n arbitrary: sl incser excser)
  case 0
  then show ?case by simp
next
  case (Suc n)
  from compressmap_body_correct [OF wf d mp _ Suc.prems] obtain sl1 where
    b: "compressmap_body s mp (Suc n) (sl, incser, excser) =
      (sl1, incser @ (if missing s d mp (Suc n) then [Suc n] else []), excser @ (if extra s d mp (Suc n) then [Suc n] else []))"
    and m: "sm_marks sl1 = f_marks s d mp n" by auto
  from Suc.prems have "n \<le> TABLE s" by simp
  from Suc.IH [OF this m, of "incser @ (if missing s d mp (Suc n) then [Suc n] else [])"
      "excser @ (if extra s d mp (Suc n) then [Suc n] else [])"]
  have ih: "\<exists>sl'. fold (compressmap_body s mp) (rev [1..<Suc n]) (compressmap_body s mp (Suc n) (sl, incser, excser)) =
      (sl', incser @ (if missing s d mp (Suc n) then [Suc n] else []) @ filter (missing s d mp) (rev [1..<Suc n]),
        excser @ (if extra s d mp (Suc n) then [Suc n] else []) @ filter (extra s d mp) (rev [1..<Suc n]))"
    by (simp add: b del: upt_Suc)
  have split: "rev [1..<Suc (Suc n)] = Suc n # rev [1..<Suc n]" by simp
  from ih show ?case
    unfolding split fold_simps by (auto simp del: upt_Suc split: if_splits)
qed

lemma compressmap_lists:
  assumes wf: "wf_graph s" and d: "live s d" and mp: "map_live s mp"
  shows "compressmap s d mp =
    Some (rev_list s (filter (missing s d mp) (serials_down s)), rev_list s (filter (extra s d mp) (serials_down s)))"
proof -
  have "sm_marks (\<lambda>_. 0) = ((\<lambda>_. False), \<lambda>_. None)"
    by (simp add: sm_marks_def byte_marks_def clude_bits_def)
  then have "sm_marks ((\<lambda>_. 0)(d := S_PAR)) = f_marks s d mp (TABLE s)"
    using sm.marks_par [of "\<lambda>_. 0" d] by (simp add: m_par_def f_marks_def)
  from compressmap_fold [OF wf d mp order_refl this, of "[]" "[]"] d show ?thesis
    by (auto simp: compressmap_def serials_down_def live_def simp del: upt_Suc)
qed

text \<open>The lists that \<open>compressmap\<close> writes are read back by \<open>walkList\<close>.\<close>

lemma not_sep_rev: "isdigit c \<or> c = CHR ''.'' \<Longrightarrow> not_sep c"
  by (auto simp: not_sep_def isdigit_iff)

lemma rev_or_top_delta_rev:
  assumes "revs_ok s" "live s d"
  shows "rev_or_top s (delta_rev s d) = d"
proof -
  have "delta_rev s d \<noteq> ''+''" using delta_rev_chars(3) [OF assms] by (auto simp: isdigit_iff)
  then show ?thesis by (simp add: rev_or_top_def rfind_delta_rev [OF assms])
qed

lemma walkList_list: "walkList s (Some l) err wl = walkList s None err \<lparr>wl_next = Some l, wl_d = 0, wl_stop = 0\<rparr>"
  by (simp add: walkList_def)

lemma walk_loop_list:
  "walk_loop n s (Some l) err wl = walk_loop n s None err \<lparr>wl_next = Some l, wl_d = 0, wl_stop = 0\<rparr>"
  by (cases n) (simp_all add: walkList_list)

lemma walk_loop_join:
  assumes "revs_ok s" and "\<forall>t\<in>set ts. live s t" and "length ts < n"
  shows "walk_loop n s None 0 \<lparr>wl_next = (if ts = [] then None else Some (join '','' (map (delta_rev s) ts))), wl_d = 0, wl_stop = x\<rparr> =
    Some (ts, 0, \<lparr>wl_next = None, wl_d = 0, wl_stop = x\<rparr>)"
  using assms(2,3)
proof (induction ts arbitrary: n)
  case Nil
  then obtain k where "n = Suc k" by (cases n) auto
  then show ?case by (simp add: walkList_def)
next
  case (Cons t ts)
  then obtain k where n: "n = Suc k" and k: "length ts < k" by (cases n) auto
  from Cons have t: "live s t" "t \<noteq> 0" by (auto simp: live_def)
  let ?r = "delta_rev s t" and ?rest = "if ts = [] then [] else CHR '','' # join '','' (map (delta_rev s) ts)"
  have j: "join '','' (map (delta_rev s) (t # ts)) = ?r @ ?rest"
    by (cases ts) simp_all
  have ns: "\<forall>c\<in>set ?r. not_sep c"
    using delta_rev_chars(1) [OF assms(1) t(1)] not_sep_rev by blast
  have tw: "takeWhile not_sep (?r @ ?rest) = ?r" "dropWhile not_sep (?r @ ?rest) = ?rest"
    by (rule takeWhile_append_stop [OF ns] dropWhile_append_stop [OF ns], simp add: not_sep_def)+
  have "walkList s None 0 \<lparr>wl_next = Some (?r @ ?rest), wl_d = 0, wl_stop = x\<rparr> =
      Some (t, 0, \<lparr>wl_next = (if ts = [] then None else Some (join '','' (map (delta_rev s) ts))), wl_d = 0, wl_stop = x\<rparr>)"
    by (simp add: walkList_def Let_def tw rev_or_top_delta_rev [OF assms(1) t(1)])
  then show ?case
    using Cons.IH [OF _ k] Cons.prems(1) t(2) unfolding n j [symmetric] by simp
qed

lemma length_join: "length ts \<le> Suc (length (join '','' ts))"
  by (induction "'',''" ts rule: join.induct) auto

lemma revs_of_rev_list:
  assumes "revs_ok s" and "\<forall>t\<in>set xs. live s t"
  shows "revs_of s (rev_list s xs) = Some (rev xs)"
proof (cases "xs = []")
  case True
  then show ?thesis by (simp add: rev_list_def revs_of_def)
next
  case False
  let ?l = "join '','' (map (delta_rev s) (rev xs))"
  have "length xs \<le> Suc (length ?l)" using length_join [of "map (delta_rev s) (rev xs)"] by simp
  also have "\<dots> < (length ?l + 3) * (TABLE s + 3) + 0 + 1" by (simp add: algebra_simps)
  finally have "length (rev xs) < walk_fuel s (Some ?l) wl_init"
    by (simp add: walk_fuel_def wl_init_def)
  from walk_loop_join [OF assms(1) _ this, of 0] assms(2) False show ?thesis
    by (simp add: rev_list_def revs_of_def walk_loop_list)
qed

lemma view_not_live:
  assumes "wf_graph s" and "\<forall>d\<in>S. live s d" and "\<And>e b. pre e = Some b \<Longrightarrow> live s e" and "\<not> live s t" and "t \<le> TABLE s"
  shows "\<not> view s S pre t"
proof -
  have "marks_live s ((\<lambda>e. e \<in> S), pre)"
    using assms(2,3) by (auto simp: marks_live_def)
  then have "marks_live s (m_upto (gE s) (gK s) (TABLE s) t ((\<lambda>e. e \<in> S), pre))"
    by (rule marks_live_upto [OF graph_live_wf [OF assms(1)]])
  then have "\<not> m_active (m_upto (gE s) (gK s) (TABLE s) t ((\<lambda>e. e \<in> S), pre)) t"
    using assms(4) by (auto simp: marks_live_def m_active_def split: option.splits)
  moreover have "\<forall>d\<in>S. d \<le> TABLE s" using assms(2) by (auto simp: live_def)
  ultimately show ?thesis
    using m_upto_active [OF older_graph [OF assms(1)] _ assms(5)] by (simp add: view_def)
qed

text \<open>
  C2.  \<open>compressmap\<close> and \<open>serialmap\<close> are inverse.  For any set of live deltas, any basis, in a
  file with unique revisions, the include and exclude lists that \<open>compressmap\<close> prints, given back
  to \<open>serialmap\<close> with the same basis, select exactly the set.
\<close>

theorem compressmap_serialmap:
  assumes wf: "wf_graph s" and rv: "revs_ok s" and d: "live s d" and mp: "map_live s mp"
  shows "\<exists>inc exc sl. compressmap s d mp = Some (inc, exc) \<and>
    serialmap s d 0 inc exc = Some (Inr sl) \<and>
    (\<forall>t. live s t \<and> t \<noteq> 1 \<longrightarrow> sl t = (if mp t \<noteq> 0 then 1 else 0)) \<and>
    map_active (sl 1) = (mp 1 \<noteq> 0)"
proof -
  let ?i = "filter (missing s d mp) (serials_down s)" and ?x = "filter (extra s d mp) (serials_down s)"
  let ?pre = "user_pre (rev ?i) (rev ?x)"
  have lv: "\<forall>t\<in>set ?i. live s t" "\<forall>t\<in>set ?x. live s t" by (auto simp: missing_def extra_def)
  have d1: "1 \<le> d" "d \<le> TABLE s" using d by (auto simp: live_def)
  have root: "live s t \<Longrightarrow> view s {d} ?pre t = (mp t \<noteq> 0)" for t
    unfolding view_def
  proof (rule in_view_forced [where liv = "live s"])
    show "older (gE s) (gK s)" by (rule older_graph [OF wf])
    show "b = (mp u \<noteq> 0)" if "?pre u = Some b" for u b
      using that by (auto simp: user_pre_def missing_def extra_def split: if_splits)
    show "?pre u = Some (mp u \<noteq> 0)"
      if "live s u" "m_active (f_upto (gE s) (gK s) (\<lambda>t. mp t \<noteq> 0) (TABLE s) u (\<lambda>e. e \<in> {d}, \<lambda>_. None)) u \<noteq> (mp u \<noteq> 0)" for u
      using that liveD [OF that(1)]
      by (auto simp: user_pre_def missing_def extra_def f_marks_def serials_down_def simp del: upt_Suc)
  qed (use d1 in \<open>auto simp: gK_def live_def\<close>)
  have "set (rev ?i) \<inter> set (rev ?x) = {}" by (auto simp: missing_def extra_def)
  from serialmap_map [OF wf d _ revs_of_rev_list [OF rv lv(1)] _ revs_of_rev_list [OF rv lv(2)] _ this, of 0] lv
  obtain sl where sl: "serialmap s d 0 (rev_list s ?i) (rev_list s ?x) = Some (Inr sl)"
    "\<And>t. live s t \<Longrightarrow> t \<noteq> 1 \<Longrightarrow> sl t = (if view s {d} ?pre t then 1 else 0)"
    "map_active (sl 1) = view s {d} ?pre 1"
    by (auto simp: tips_def)
  have "view s {d} ?pre 1 = (mp 1 \<noteq> 0)"
  proof (cases "live s 1")
    case False
    then have "\<not> view s {d} ?pre 1"
      using d d1 lv by (subst view_not_live [OF wf]) (auto simp: user_pre_def split: if_splits)
    with False mp show ?thesis by (auto simp: map_live_def)
  qed (rule root)
  with sl root show ?thesis by (simp add: compressmap_lists [OF wf d mp])
qed
theorem compressmap_serialmap_witness:
  "wf_graph ex_file \<and> revs_ok ex_file \<and> live ex_file 5 \<and> map_live ex_file (\<lambda>t. if t = 1 \<or> t = 4 then 1 else 0) \<and>
   (\<exists>inc exc sl. compressmap ex_file 5 (\<lambda>t. if t = 1 \<or> t = 4 then 1 else 0) = Some (inc, exc) \<and>
    serialmap ex_file 5 0 inc exc = Some (Inr sl) \<and> sl 4 = 1 \<and> sl 5 = 0)"
proof -
  have lv: "live ex_file 1" "live ex_file 4" "live ex_file 5" by code_simp+
  then have mp: "map_live ex_file (\<lambda>t. if t = 1 \<or> t = 4 then 1 else 0)" by (auto simp: map_live_def)
  show ?thesis
    using compressmap_serialmap [OF ex_file_wf ex_file_rev lv(3) mp] lv ex_file_wf ex_file_rev mp by fastforce
qed

section \<open>Reading a list always ends\<close>

text \<open>
  The parent pointers of a table go down and every symbol names a delta of the table; then the
  static variables of \<open>walkList\<close> have a measure that every call decreases, and the fuel given to
  the loops above is enough.
\<close>

definition walk_ok :: "sccs \<Rightarrow> bool" where
  "walk_ok s \<longleftrightarrow> (\<forall>d\<in>set [1..<Suc (TABLE s)]. PARENT s d < d) \<and> (\<forall>sy\<in>set (symlist s). sym_ser sy \<le> TABLE s)"

definition walk_measure :: "sccs \<Rightarrow> walk_state \<Rightarrow> nat" where
  "walk_measure s wl =
     (case wl_next wl of None \<Rightarrow> 0 | Some l \<Rightarrow> (length l + 1) * (TABLE s + 2)) + wl_d wl"

lemma walk_ok_parent: "walk_ok s \<Longrightarrow> 0 < d \<Longrightarrow> d \<le> TABLE s \<Longrightarrow> PARENT s d < d"
  by (auto simp: walk_ok_def simp del: upt_Suc)

lemma find_mem: "find P xs = Some x \<Longrightarrow> x \<in> set xs \<and> P x"
  by (auto simp: find_Some_iff)

lemma findSym_le: "walk_ok s \<Longrightarrow> findSym s rv = Some sy \<Longrightarrow> sym_ser sy \<le> TABLE s"
  by (auto simp: findSym_def walk_ok_def dest!: find_mem)

lemma rfind_le: "walk_ok s \<Longrightarrow> rfind s rv \<le> TABLE s"
  by (auto simp: rfind_def serials_down_def dest: findSym_le dest!: find_mem split: option.splits)

lemma findrev_release_le: "\<forall>e\<in>set es. e \<le> b \<Longrightarrow> f \<le> b \<Longrightarrow> findrev_release s a es f mx \<le> b"
  by (induction es arbitrary: f mx) auto

lemma findrev_num_le:
  assumes "walk_ok s"
  shows "findrev_num s rv \<le> TABLE s"
proof -
  have "findrev_release s a (serials_down s) 0 0 \<le> TABLE s" for a
    by (rule findrev_release_le) (auto simp: serials_down_def)
  moreover have "e \<le> TABLE s \<Longrightarrow> findrev_branch s e \<le> TABLE s" for e
    by (auto simp: findrev_branch_def serials_down_def dest!: find_mem simp del: upt_Suc split: option.split)
  ultimately show ?thesis
    using rfind_le [OF assms] by (simp add: findrev_num_def split: prod.split)
qed

lemma findrev_le: "walk_ok s \<Longrightarrow> findrev s rv \<le> TABLE s"
  using findrev_num_le [of s] findSym_le [of s]
  by (simp add: findrev_def Let_def TREE_def findrev_serial_def split: option.split)

lemma rev_or_top_le: "walk_ok s \<Longrightarrow> rev_or_top s rv \<le> TABLE s"
  by (simp add: rev_or_top_def rfind_le findrev_le)

lemma parent_walk_ends:
  assumes "walk_ok s"
  shows "d \<le> TABLE s \<Longrightarrow> d < n \<Longrightarrow> parent_walk n s d stop \<noteq> None"
proof (induction n arbitrary: d)
  case (Suc n)
  then show ?case using walk_ok_parent [OF assms, of d] by auto
qed simp

lemma measure_drop: "length l < length nx \<Longrightarrow> d \<le> n \<Longrightarrow> (length l + 1) * (n + 2) + d < (length nx + 1) * (n + (2 :: nat))"
proof -
  assume l: "length l < length nx" and d: "d \<le> n"
  then have "(length l + 1) * (n + 2) + d < (length l + 2) * (n + 2)" by simp
  also have "\<dots> \<le> (length nx + 1) * (n + 2)" using l by (intro mult_right_mono) auto
  finally show ?thesis .
qed

lemma walkList_range:
  assumes ok: "walk_ok s" and wl: "wl_d wl = 0" "wl_next wl = Some nx"
    and t: "dropWhile not_sep nx \<noteq> []" "hd (dropWhile not_sep nx) \<noteq> CHR '',''"
  shows "\<exists>t err' wl'. walkList s None err wl = Some (t, err', wl') \<and> wl_d wl' \<le> TABLE s \<and>
    (t \<noteq> 0 \<longrightarrow> walk_measure s wl' < walk_measure s wl)"
proof -
  define u where "u = dropWhile not_sep (tl (dropWhile not_sep nx))"
  define d where "d = rev_or_top s (takeWhile not_sep (tl (dropWhile not_sep nx)))"
  define stop where "stop = rfind s (takeWhile not_sep nx)"
  define wl' where "wl' = (\<lambda>x. wl\<lparr>wl_next := (if u = [] then None else Some (tl u)), wl_d := x, wl_stop := stop\<rparr>)"
  have dT: "d \<le> TABLE s" unfolding d_def by (rule rev_or_top_le [OF ok])
  have "length u \<le> length (tl (dropWhile not_sep nx))" unfolding u_def by (rule length_dropWhile_le)
  also have "\<dots> < length nx"
    using t(1) length_dropWhile_le [of not_sep nx] by (cases "dropWhile not_sep nx") auto
  finally have lu: "length u < length nx" .
  obtain tmp where tmp: "parent_walk (Suc (Suc (TABLE s))) s d stop = Some tmp"
    using parent_walk_ends [OF ok dT, of "Suc (Suc (TABLE s))" stop] dT by fastforce
  have nd: "(if d = stop then 0 else PARENT s d) \<le> TABLE s" if "d \<noteq> 0"
    using walk_ok_parent [OF ok, of d] dT that by auto
  have m: "walk_measure s (wl' x) < walk_measure s wl" if "x \<le> TABLE s" for x
    using measure_drop [of "tl u" nx x "TABLE s"] measure_drop [of u nx x "TABLE s"] lu that
    by (auto simp: walk_measure_def wl wl'_def)
  have eq: "walkList s None err wl =
      (if u \<noteq> [] \<and> hd u \<noteq> CHR '','' then Some (0, 1, wl\<lparr>wl_next := Some (tl (dropWhile not_sep nx)), wl_stop := stop\<rparr>)
       else if stop = 0 \<or> d = 0 \<or> tmp \<noteq> stop then Some (0, 2, wl' d)
       else Some (d, err, wl' (if d = stop then 0 else PARENT s d)))"
    using t
    by (simp add: walkList_def Let_def wl tmp wl'_def
        u_def [symmetric] d_def [symmetric] stop_def [symmetric] del: parent_walk.simps dropWhile_eq_Nil_conv)
  have "wl_d (wl' x) = x" for x by (simp add: wl'_def)
  then show ?thesis
    using m [of "if d = stop then 0 else PARENT s d"] nd dT wl(1) unfolding eq by simp
qed

lemma walkList_ends:
  assumes ok: "walk_ok s" and d: "wl_d wl \<le> TABLE s"
  shows "\<exists>t err' wl'. walkList s None err wl = Some (t, err', wl') \<and> wl_d wl' \<le> TABLE s \<and>
    (t \<noteq> 0 \<longrightarrow> walk_measure s wl' < walk_measure s wl)"
proof (cases "wl_d wl = 0")
  case False
  then show ?thesis using walk_ok_parent [OF ok, of "wl_d wl"] d
    by (auto simp: walkList_def walk_measure_def split: option.splits)
next
  case z: True
  show ?thesis
  proof (cases "wl_next wl")
    case None
    with z show ?thesis by (simp add: walkList_def)
  next
    case (Some nx)
    let ?t = "dropWhile not_sep nx"
    have "?t \<noteq> [] \<Longrightarrow> length (tl ?t) < length nx"
      using length_dropWhile_le [of not_sep nx] by (cases ?t) auto
    then have "?t \<noteq> [] \<Longrightarrow> (length (tl ?t) + 1) * (TABLE s + 2) < (length nx + 1) * (TABLE s + 2)"
      using measure_drop [of "tl ?t" nx 0 "TABLE s"] by simp
    then show ?thesis
      using z Some walkList_range [OF ok z Some]
      by (cases "?t = []"; cases "hd ?t = CHR '',''") (simp_all add: walkList_def Let_def walk_measure_def)
  qed
qed

lemma walk_loop_ends_gen:
  assumes ok: "walk_ok s"
  shows "wl_d wl \<le> TABLE s \<Longrightarrow> walk_measure s wl < n \<Longrightarrow> \<exists>ts err' wl'. walk_loop n s None err wl = Some (ts, err', wl')"
proof (induction n arbitrary: wl err)
  case (Suc n)
  from walkList_ends [OF ok Suc.prems(1), of err] obtain t err' wl'
    where w: "walkList s None err wl = Some (t, err', wl')" "wl_d wl' \<le> TABLE s"
      and m: "t \<noteq> 0 \<longrightarrow> walk_measure s wl' < walk_measure s wl" by blast
  show ?case
  proof (cases "err' = 0 \<and> t \<noteq> 0")
    case True
    with m Suc.prems have "walk_measure s wl' < n" by simp
    from Suc.IH [OF w(2) this, of err'] obtain ts e2 wl2 where "walk_loop n s None err' wl' = Some (ts, e2, wl2)" by blast
    with True w show ?thesis by simp
  next
    case False
    with w show ?thesis by auto
  qed
qed simp

text \<open>
  C3.  Reading a revision list terminates.  Whatever the list says (ranges, unknown revisions,
  malformed separators) and whatever is left in the static variables, the client loop around
  \<open>walkList\<close> stops, within the fuel the model gives it, in every table whose parent pointers go
  to smaller serials.
\<close>

theorem walk_loop_ends:
  assumes "walk_ok s" and "wl_d wl \<le> TABLE s"
  shows "\<exists>ts err' wl'. walk_loop (walk_fuel s list wl) s list err wl = Some (ts, err', wl')"
proof (cases list)
  case None
  have "walk_measure s wl < walk_fuel s None wl"
    by (auto simp: walk_measure_def walk_fuel_def algebra_simps split: option.splits)
  from walk_loop_ends_gen [OF assms this] None show ?thesis by simp
next
  case (Some l)
  have "walk_measure s \<lparr>wl_next = Some l, wl_d = 0, wl_stop = 0\<rparr> < walk_fuel s (Some l) wl"
    by (auto simp: walk_measure_def walk_fuel_def algebra_simps)
  from walk_loop_ends_gen [OF assms(1) _ this] Some show ?thesis by (simp add: walk_loop_list)
qed

theorem walk_loop_ends_witness:
  "walk_ok ex_file \<and>
   (\<exists>ts err' wl'. walk_loop (walk_fuel ex_file (Some ''1.1-1.4,1.2.1.1-7'') wl_init) ex_file (Some ''1.1-1.4,1.2.1.1-7'') 0 wl_init
      = Some (ts, err', wl'))"
proof -
  have "walk_ok ex_file" by code_simp
  then show ?thesis using walk_loop_ends [of ex_file wl_init] by (simp add: wl_init_def)
qed

section \<open>Setting the lists of a delta\<close>

text \<open>
  \<open>sccs_setCludes\<close> resolves the two lists and stores them on the delta, the includes first, each
  list newest first.  It returns the error number and the file.  \<open>None\<close> never happens in a table
  with decreasing parents (see \<open>walk_loop_ends\<close>).  Both loops run over the same static variables
  of \<open>walkList\<close>, also when one of the lists is absent.
\<close>

definition sccs_setCludes ::
  "sccs \<Rightarrow> ser \<Rightarrow> string option \<Rightarrow> string option \<Rightarrow> walk_state \<Rightarrow> (nat \<times> sccs \<times> walk_state) option" where
  "sccs_setCludes sc d iLst xLst wl =
     (if iLst = None \<and> xLst = None then Some (0, sc, wl)
      else case walk_loop (walk_fuel sc iLst wl) sc iLst 0 wl of
        None \<Rightarrow> None
      | Some (incl, err, wl1) \<Rightarrow>
          (case walk_loop (walk_fuel sc xLst wl1) sc xLst err wl1 of
             None \<Rightarrow> None
           | Some (excl, err, wl2) \<Rightarrow>
               if err \<noteq> 0 then Some (err, sc, wl2)
               else Some (0, CLUDES_SET sc d (Some (saveNums (clude_list incl excl))), wl2)))"

text \<open>
  C4.  When both lists are read to their end, the delta gets exactly the resolved includes and
  excludes, and no other delta changes.
\<close>

theorem sccs_setCludes_cludes:
  assumes hp: "heap_wf sc" and d: "1 \<le> d" "d \<le> TABLE sc" and ne: "iLst \<noteq> None \<or> xLst \<noteq> None"
    and i: "walk_loop (walk_fuel sc iLst wl) sc iLst 0 wl = Some (incl, 0, wl1)"
    and x: "walk_loop (walk_fuel sc xLst wl1) sc xLst 0 wl1 = Some (excl, 0, wl2)"
    and small: "\<forall>t\<in>set incl \<union> set excl. 0 < t \<and> t < 2 ^ 31"
  shows "\<exists>s'. sccs_setCludes sc d iLst xLst wl = Some (0, s', wl2) \<and> heap_wf s' \<and>
    cludes_of s' d = clude_list incl excl \<and>
    (\<forall>e. 1 \<le> e \<and> e \<le> TABLE sc \<and> e \<noteq> d \<longrightarrow> cludes_of s' e = cludes_of sc e)"
  using ne i x cludes_of_SET [OF hp small, of d] CLUDES_SET_other [OF hp, of _ d] heap_wf_CLUDES_SET [OF hp]
  by (auto simp: sccs_setCludes_def cludes_of_def)

theorem sccs_setCludes_cludes_witness:
  "\<exists>s' wl2. sccs_setCludes ex_file 5 (Some ''1.2,1.2.1.1'') (Some ''1.3'') wl_init = Some (0, s', wl2) \<and>
     cludes_of s' 5 = [(4, 1), (2, 1), (3, -1)] \<and> cludes_of s' 4 = []"
proof -
  let ?wl1 = "\<lparr>wl_next = None, wl_d = 0, wl_stop = 0\<rparr>"
  have i: "walk_loop (walk_fuel ex_file (Some ''1.2,1.2.1.1'') wl_init) ex_file (Some ''1.2,1.2.1.1'') 0 wl_init =
      Some ([2, 4], 0, ?wl1)"
    by code_simp
  have x: "walk_loop (walk_fuel ex_file (Some ''1.3'') ?wl1) ex_file (Some ''1.3'') 0 ?wl1 = Some ([3], 0, ?wl1)"
    by code_simp
  have h: "heap_wf ex_file" and t: "TABLE ex_file = 5" by code_simp+
  have c: "clude_list [2, 4] [3] = [(4, 1), (2, 1), (3, -1)]" by code_simp
  have k: "cludes_of ex_file 4 = []" by code_simp
  show ?thesis
    using sccs_setCludes_cludes [OF h _ _ _ i x, of 5] t c k by auto
qed

text \<open>Reading single revisions, up to one that the file does not have.\<close>

lemma walkList_name:
  assumes "\<forall>c\<in>set r. not_sep c"
  shows "walkList s None err \<lparr>wl_next = Some (r @ CHR '','' # l), wl_d = 0, wl_stop = x\<rparr> =
    Some (rev_or_top s r, err, \<lparr>wl_next = Some l, wl_d = 0, wl_stop = x\<rparr>)"
proof -
  have "takeWhile not_sep (r @ CHR '','' # l) = r" "dropWhile not_sep (r @ CHR '','' # l) = CHR '','' # l"
    by (rule takeWhile_append_stop [OF assms] dropWhile_append_stop [OF assms], simp add: not_sep_def)+
  then show ?thesis by (simp add: walkList_def Let_def)
qed

lemma walk_loop_names:
  assumes "\<forall>r\<in>set names. (\<forall>c\<in>set r. not_sep c) \<and> rev_or_top s r \<noteq> 0" "\<forall>c\<in>set bad. not_sep c" "rev_or_top s bad = 0" "length names < n"
  shows "walk_loop n s None 0 \<lparr>wl_next = Some (join '','' (names @ [bad, rest])), wl_d = 0, wl_stop = x\<rparr> =
    Some (map (rev_or_top s) names, 0, \<lparr>wl_next = Some rest, wl_d = 0, wl_stop = x\<rparr>)"
  using assms
proof (induction names arbitrary: n)
  case Nil
  then obtain k where "n = Suc k" by (cases n) auto
  then show ?case using walkList_name [OF Nil(2), of s 0 rest x] Nil(3) by simp
next
  case (Cons r names)
  then obtain k where n: "n = Suc k" "length names < k" by (cases n) auto
  have "join '','' ((r # names) @ [bad, rest]) = r @ CHR '','' # join '','' (names @ [bad, rest])" by (cases names) simp_all
  then show ?case using walkList_name [of r s 0 "join '','' (names @ [bad, rest])" x] Cons n by simp
qed

text \<open>
  C5.  A revision that the file does not have, in the include list, is neither included nor
  reported: the loop over the includes ends there with the rest of the list still in the static
  variables, the loop over the absent exclude list goes on with it, and what follows the unknown
  revision is stored as excluded, with success as the result.  Whatever single revisions come
  before the unknown one, they are included; whatever list comes after it is excluded.
\<close>

theorem sccs_setCludes_stale:
  assumes hp: "heap_wf sc" and names: "\<forall>r\<in>set names. (\<forall>c\<in>set r. not_sep c) \<and> rev_or_top sc r \<noteq> 0"
    and bad: "\<forall>c\<in>set bad. not_sep c" "rev_or_top sc bad = 0" and rest: "revs_of sc (Some rest) = Some excl"
    and small: "\<forall>t\<in>set (map (rev_or_top sc) names) \<union> set excl. 0 < t \<and> t < 2 ^ 31"
  shows "\<exists>s' wl'. sccs_setCludes sc d (Some (join '','' (names @ [bad, rest]))) None wl = Some (0, s', wl') \<and>
    cludes_of s' d = clude_list (map (rev_or_top sc) names) excl"
proof -
  let ?l = "join '','' (names @ [bad, rest])" and ?wl1 = "\<lparr>wl_next = Some rest, wl_d = 0, wl_stop = 0\<rparr>"
  have "length names \<le> Suc (length ?l)" using length_join [of "names @ [bad, rest]"] by simp
  also have "\<dots> < walk_fuel sc (Some ?l) wl" by (simp add: walk_fuel_def algebra_simps)
  finally have "walk_loop (walk_fuel sc (Some ?l) wl) sc (Some ?l) 0 wl = Some (map (rev_or_top sc) names, 0, ?wl1)"
    using walk_loop_names [OF names bad, of _ rest 0] by (simp add: walk_loop_list)
  moreover have "\<exists>wl2. walk_loop (walk_fuel sc None ?wl1) sc None 0 ?wl1 = Some (excl, 0, wl2)"
    using rest by (auto simp: revs_of_def walk_loop_list walk_fuel_def wl_init_def split: option.splits if_splits)
  ultimately show ?thesis using cludes_of_SET [OF hp small, of d] by (auto simp: sccs_setCludes_def)
qed

theorem sccs_setCludes_stale_witness:
  "\<exists>s' wl'. sccs_setCludes ex_file 5 (Some ''1.2.1.1,1.9,1.2'') None wl_init = Some (0, s', wl') \<and> cludes_of s' 5 = [(4, 1), (2, -1)]"
proof -
  have h: "heap_wf ex_file" "rev_or_top ex_file ''1.2.1.1'' = 4" "rev_or_top ex_file ''1.9'' = 0" "revs_of ex_file (Some ''1.2'') = Some [2]"
    "clude_list [4] [2] = [(4, 1), (2, -1)]" by code_simp+
  from sccs_setCludes_stale [OF h(1) _ _ h(3,4), of "[''1.2.1.1'']" 5 wl_init] show ?thesis using h(2,5) by (simp add: not_sep_def)
qed

end
