(* ===== verification/BK_Symdiff.thy ===== *)
theory BK_Symdiff
  imports BK_Serialmap
begin

text \<open>
  The symmetric difference of two versions (\<open>libgraph.c\<close>): one pass over the serials that runs
  two \<open>serialmap\<close> computations at once in the two halves of a byte, stops as soon as nothing
  that is left can differ, and either accumulates the difference (expand) or computes the
  include/exclude list that produces a given difference (compress).  On top of it, the removal
  of duplicates and the conversion of a file between the two ways of storing merges.
\<close>

section \<open>The byte of a serial\<close>

definition S_DIFF :: u8 where "S_DIFF = 0x01"
definition SR_PAR :: u8 where "SR_PAR = 0x02"
definition SR_INC :: u8 where "SR_INC = 0x04"
definition SR_EXCL :: u8 where "SR_EXCL = 0x08"
definition S_DUP :: u8 where "S_DUP = 0x10"
definition SL_PAR :: u8 where "SL_PAR = 0x20"
definition SL_INC :: u8 where "SL_INC = 0x40"
definition SL_EXCL :: u8 where "SL_EXCL = 0x80"

text \<open>
  The macros compute on a byte promoted to \<open>int\<close>: the complement has all the upper bits set and
  shifts arithmetically.
\<close>

definition ACTIVE :: "u8 \<Rightarrow> u32" where
  "ACTIVE b =
     (let x = ucast b :: u32
      in ((drop_bit 1 x AND signed_drop_bit 3 (NOT x)) OR drop_bit 2 x) AND 0x11)"

definition XOR_ACTIVE :: "u32 \<Rightarrow> u32" where
  "XOR_ACTIVE x = (drop_bit 4 x XOR x) AND 1"

definition ALEFT :: u32 where "ALEFT = 0x10"
definition ARIGHT :: u32 where "ARIGHT = 0x01"

definition IE :: "u32 \<Rightarrow> u8 \<Rightarrow> int \<Rightarrow> u32" where
  "IE active bits sign =
     (let b = ucast bits :: u32
      in push_bit (if sign > 0 then 2 else 3) (NOT (drop_bit 2 b OR drop_bit 3 b) AND active))"

definition S_DIFFERENT :: "u8 \<Rightarrow> bool" where
  "S_DIFFERENT b \<longleftrightarrow>
     (let x = ucast b :: u32
      in (x XOR drop_bit 4 x) AND ucast (SR_PAR OR SR_INC OR SR_EXCL) \<noteq> 0)"

definition HIBIT :: u32 where "HIBIT = 0x80000000"

section \<open>One pass\<close>

text \<open>The variables of \<open>symdiff\<close> that the pass updates.\<close>

record sd_state =
  sd_slist :: slist
  sd_marked :: int
  sd_lower :: ser
  sd_count :: int
  sd_cludes :: "u32 list"
  sd_dups :: "u32 list"

definition sd_set :: "ser \<Rightarrow> u8 \<Rightarrow> sd_state \<Rightarrow> sd_state" where
  "sd_set d b st = st\<lparr>sd_slist := (sd_slist st)(d := b)\<rparr>"

definition sd_mark :: "int \<Rightarrow> sd_state \<Rightarrow> sd_state" where
  "sd_mark n st = st\<lparr>sd_marked := sd_marked st + n\<rparr>"

definition update :: "ser \<Rightarrow> u8 \<Rightarrow> sd_state \<Rightarrow> sd_state" where
  "update d newbits st =
     (let st = (if S_DIFFERENT (sd_slist st d) then sd_mark (-1) st else st);
          st = sd_set d (sd_slist st d OR newbits) st;
          st = (if S_DIFFERENT (sd_slist st d) then sd_mark 1 st else st)
      in if sd_lower st > d then st\<lparr>sd_lower := d\<rparr> else st)"

definition foundDup :: "u8 \<Rightarrow> ser \<Rightarrow> sd_state \<Rightarrow> sd_state" where
  "foundDup bits dup st =
     st\<lparr>sd_dups := sd_dups st @ [if bits AND SR_EXCL \<noteq> 0 then of_nat dup OR HIBIT else of_nat dup]\<rparr>"

text \<open>The include/exclude list of a delta: its own, or one from the list that was passed in.\<close>

definition sd_list :: "sccs \<Rightarrow> (ser \<Rightarrow> nat) option \<Rightarrow> ser \<Rightarrow> (ser \<times> int) list" where
  "sd_list s cludeslist d =
     eachNum_loop (Some (case cludeslist of Some c \<Rightarrow> HEAP s (c d) | None \<Rightarrow> CLUDES s d))"

definition sd_clude :: "ser \<Rightarrow> bool \<Rightarrow> ser \<Rightarrow> u32 \<Rightarrow> ser \<times> int \<Rightarrow> sd_state \<Rightarrow> sd_state" where
  "sd_clude right dups d active = (\<lambda>(e, sign) st.
     (let bits = sd_slist st e;
          newbits = ucast (IE active bits sign) :: u8;
          st = update e newbits st
      in if \<not> dups then st
         else if d = right then
           (if bits AND S_DUP \<noteq> 0 then foundDup bits e st
            else sd_mark 1 (sd_set e (sd_slist st e OR S_DUP) st))
         else if active AND ARIGHT \<noteq> 0 \<and> bits AND S_DUP \<noteq> 0 then
           (let st = (if (sign > 0) = (bits AND SR_INC \<noteq> 0) then foundDup bits e st else st)
            in sd_mark (-1) (sd_set e (sd_slist st e AND NOT S_DUP) st))
         else st))"

definition sd_decide :: "bool \<Rightarrow> ser \<Rightarrow> u8 \<Rightarrow> u32 \<Rightarrow> sd_state \<Rightarrow> u32 \<times> sd_state" where
  "sd_decide expand d bits active st =
     (if expand then
        (let st = sd_set d (bits AND S_DIFF) st
         in if XOR_ACTIVE active \<noteq> 0 then
              (let b = sd_slist st d XOR S_DIFF;
                   st = sd_set d b st
               in (active, st\<lparr>sd_count := sd_count st + (if b \<noteq> 0 then 1 else -1)\<rparr>))
            else (active, st))
      else
        (let st = sd_set d 0 st;
             st = (if bits AND S_DIFF \<noteq> 0 then sd_mark (-1) st else st)
         in if ucast (bits AND S_DIFF) XOR XOR_ACTIVE active \<noteq> 0 then
              (let active = active XOR ARIGHT;
                   e = (if active AND ARIGHT \<noteq> 0 then of_nat d else of_nat d OR HIBIT)
               in (active, st\<lparr>sd_cludes := sd_cludes st @ [e]\<rparr>))
            else (active, st)))"

definition sd_own_dup :: "ser \<Rightarrow> u8 \<Rightarrow> sd_state \<Rightarrow> sd_state" where
  "sd_own_dup d bits st =
     (if bits AND S_DUP \<noteq> 0 then
        (let st = sd_mark (-1) st
         in if (bits AND SR_PAR = 0) = (bits AND SR_INC = 0) then foundDup bits d st else st)
      else st)"

definition sd_parents :: "sccs \<Rightarrow> ser \<Rightarrow> u8 \<Rightarrow> sd_state \<Rightarrow> sd_state" where
  "sd_parents s d bits st =
     (let newbits = bits AND (SL_PAR OR SR_PAR)
      in if newbits \<noteq> 0 then
           (let st = (if PARENT s d \<noteq> 0 then update (PARENT s d) newbits st else st)
            in if BKMERGE s \<and> MERGE s d \<noteq> 0 then update (MERGE s d) newbits st else st)
         else st)"

text \<open>The body of the loop; \<open>None\<close> is the failing assertion on \<open>D_GONE\<close>.\<close>

definition symdiff_body ::
  "sccs \<Rightarrow> ser list \<Rightarrow> ser \<Rightarrow> bool \<Rightarrow> (ser \<Rightarrow> nat) option \<Rightarrow> bool \<Rightarrow> ser \<Rightarrow> sd_state \<Rightarrow> sd_state option" where
  "symdiff_body s leftlist right dups cludeslist expand d st =
     (if FLAGS s d = 0 \<or> TAG s d then Some st
      else let bits = sd_slist st d in
        if bits = 0 then Some st
        else let st = (if S_DIFFERENT bits then sd_mark (-1) st else st) in
          if FLAGS s d AND D_GONE \<noteq> 0 \<and> \<not> (\<not> expand \<and> leftlist \<noteq> [] \<and> d = hd leftlist) then None
          else case sd_decide expand d bits (ACTIVE bits) st of
            (active, st) \<Rightarrow>
              (let st = sd_parents s d bits (sd_own_dup d bits st)
               in Some (if active = 0 then st
                        else fold (sd_clude right dups d active) (sd_list s cludeslist d) st)))"

text \<open>\<open>for (d = start; (d >= TREE(s)) && marked; d--)\<close>: the serial it stops at and the state.\<close>

fun symdiff_loop ::
  "sccs \<Rightarrow> ser list \<Rightarrow> ser \<Rightarrow> bool \<Rightarrow> (ser \<Rightarrow> nat) option \<Rightarrow> bool \<Rightarrow> ser \<Rightarrow> sd_state \<Rightarrow> (ser \<times> sd_state) option" where
  "symdiff_loop s leftlist right dups cludeslist expand 0 st = Some (0, st)"
| "symdiff_loop s leftlist right dups cludeslist expand (Suc n) st =
     (if Suc n \<ge> TREE s \<and> sd_marked st \<noteq> 0 then
        (case symdiff_body s leftlist right dups cludeslist expand (Suc n) st of
           None \<Rightarrow> None
         | Some st' \<Rightarrow> symdiff_loop s leftlist right dups cludeslist expand n st')
      else Some (Suc n, st))"

definition sd_start :: "ser list \<Rightarrow> ser \<Rightarrow> ser" where
  "sd_start leftlist right = fold max (leftlist @ (if right \<noteq> 0 then [right] else [])) 0"

definition sd_seed :: "ser list \<Rightarrow> ser \<Rightarrow> sd_state \<Rightarrow> sd_state" where
  "sd_seed leftlist right st =
     (let st = fold (\<lambda>d. update d SL_PAR) leftlist st
      in if right \<noteq> 0 then update right SR_PAR st else st)"

text \<open>\<open>if (d && lower) for (; d >= lower; d--) slist[d] &= S_DIFF\<close>\<close>

definition sd_clean :: "ser \<Rightarrow> sd_state \<Rightarrow> slist" where
  "sd_clean d st =
     (if d \<noteq> 0 \<and> sd_lower st \<noteq> 0
      then fold (\<lambda>d sl. sl(d := sl d AND S_DIFF)) (rev [sd_lower st..<Suc d]) (sd_slist st)
      else sd_slist st)"

text \<open>
  \<open>symdiff\<close>: the returned count, the map, the list of computed includes and excludes and the
  duplicates.  \<open>cnt\<close> (\<open>count\<close> in the source) is negative to expand; otherwise it is the number of differences in the
  map.  The result is \<open>None\<close> when an assertion fails.
\<close>

definition symdiff ::
  "sccs \<Rightarrow> ser list \<Rightarrow> ser \<Rightarrow> u32 list option \<Rightarrow> slist \<Rightarrow> (ser \<Rightarrow> nat) option \<Rightarrow> int
     \<Rightarrow> (int \<times> slist \<times> u32 list \<times> u32 list) option" where
  "symdiff s leftlist right dups slist cludeslist cnt =
     (let expand = (cnt < 0) in
      if \<not> expand \<and> right = 0 then None
      else
        (let st = sd_seed leftlist right
               \<lparr>sd_slist = slist, sd_marked = (if expand then 0 else cnt), sd_lower = TABLE s,
                sd_count = 0, sd_cludes = [], sd_dups = (case dups of Some x \<Rightarrow> x | None \<Rightarrow> [])\<rparr>
         in case symdiff_loop s leftlist right (dups \<noteq> None) cludeslist expand (sd_start leftlist right) st of
              None \<Rightarrow> None
            | Some (d, st) \<Rightarrow>
                if sd_marked st \<noteq> 0 then None
                else Some (sd_count st, sd_clean d st, sd_cludes st, sd_dups st)))"

section \<open>The macros, bit by bit\<close>

lemma SD_one_hot:
  "S_DIFF = push_bit 0 1" "SR_PAR = push_bit 1 1" "SR_INC = push_bit 2 1" "SR_EXCL = push_bit 3 1"
  "S_DUP = push_bit 4 1" "SL_PAR = push_bit 5 1" "SL_INC = push_bit 6 1" "SL_EXCL = push_bit 7 1"
  by (simp_all add: S_DIFF_def SR_PAR_def SR_INC_def SR_EXCL_def S_DUP_def SL_PAR_def SL_INC_def SL_EXCL_def
      push_bit_eq_mult)

lemmas SD_bits [bit_macros] = SD_one_hot [THEN one_hot_bit, simplified]
lemmas SD_and_eq_0 [bit_macros] = SD_one_hot [THEN one_hot_and, simplified]

lemma A_one_hot: "ARIGHT = push_bit 0 1" "ALEFT = push_bit 4 1"
  by (simp_all add: ARIGHT_def ALEFT_def push_bit_eq_mult)

lemmas A_bits [bit_macros] = A_one_hot [THEN one_hot_bit, simplified]
lemmas A_and_eq_0 [bit_macros] = A_one_hot [THEN one_hot_and, simplified]

lemma bit_ACTIVE:
  "bit (ACTIVE b) n \<longleftrightarrow>
     n = 0 \<and> (bit b 1 \<and> \<not> bit b 3 \<or> bit b 2) \<or> n = 4 \<and> (bit b 5 \<and> \<not> bit b 7 \<or> bit b 6)"
proof -
  have m: "(0x11 :: u32) = ARIGHT OR ALEFT" by (simp add: ARIGHT_def ALEFT_def)
  have "bit (ACTIVE b) n \<longleftrightarrow> (n = 0 \<or> n = 4) \<and>
      (bit (ucast b :: u32) (1 + n) \<and> \<not> bit (ucast b :: u32) (3 + n) \<or> bit (ucast b :: u32) (2 + n))"
    unfolding ACTIVE_def m by (auto simp: Let_def bit_macros bit_and_iff bit_or_iff bit_not_iff bit_drop_bit_eq
        bit_signed_drop_bit_iff)
  then show ?thesis by (auto simp: bit_simps numeral_2_eq_2)
qed

lemma XOR_ACTIVE_eq_0: "XOR_ACTIVE a = 0 \<longleftrightarrow> bit a 4 = bit a 0"
proof -
  have "XOR_ACTIVE a = (drop_bit 4 a XOR a) AND ARIGHT" by (simp add: XOR_ACTIVE_def ARIGHT_def)
  then show ?thesis by (simp add: bit_macros bit_xor_iff bit_drop_bit_eq)
qed

lemma S_DIFFERENT_iff:
  "S_DIFFERENT b \<longleftrightarrow> bit b 1 \<noteq> bit b 5 \<or> bit b 2 \<noteq> bit b 6 \<or> bit b 3 \<noteq> bit b 7"
proof -
  have "S_DIFFERENT b \<longleftrightarrow>
      (\<exists>n<32. (n = 1 \<or> n = 2 \<or> n = 3) \<and> bit (ucast b :: u32) n \<noteq> bit (ucast b :: u32) (4 + n))"
    unfolding S_DIFFERENT_def Let_def word_bits_neq_0
    by (auto simp: bit_and_iff bit_xor_iff bit_drop_bit_eq bit_or_iff bit_unsigned_iff bit_macros)
  moreover have "(\<exists>n<32. (n = 1 \<or> n = 2 \<or> n = 3) \<and> P n) \<longleftrightarrow> P 1 \<or> P 2 \<or> P 3" for P :: "nat \<Rightarrow> bool"
    by (auto intro: exI [of _ 1] exI [of _ 2] exI [of _ 3])
  ultimately show ?thesis by (simp add: bit_simps)
qed

lemma bit_IE:
  assumes "\<And>n. bit a n \<Longrightarrow> n = 0 \<or> n = 4"
  shows "bit (ucast (IE a b sign) :: u8) n \<longleftrightarrow>
    bit a 0 \<and> \<not> bit b 2 \<and> \<not> bit b 3 \<and> n = (if sign > 0 then 2 else 3) \<or>
    bit a 4 \<and> \<not> bit b 6 \<and> \<not> bit b 7 \<and> n = (if sign > 0 then 6 else 7)"
proof -
  define k :: nat where "k = (if sign > 0 then 2 else 3)"
  have k: "k = 2 \<or> k = 3" by (simp add: k_def)
  have "bit (ucast (IE a b sign) :: u8) n \<longleftrightarrow> n < 8 \<and> k \<le> n \<and> bit a (n - k) \<and>
      \<not> bit (ucast b :: u32) (2 + (n - k)) \<and> \<not> bit (ucast b :: u32) (3 + (n - k))"
    unfolding IE_def Let_def k_def [symmetric]
    by (auto simp: bit_simps dest: assms)
  also have "\<dots> \<longleftrightarrow> bit a 0 \<and> \<not> bit b 2 \<and> \<not> bit b 3 \<and> n = k \<or> bit a 4 \<and> \<not> bit b 6 \<and> \<not> bit b 7 \<and> n = k + 4"
    (is "?l = ?r")
  proof (cases "n = k \<or> n = k + 4")
    case True
    then show ?thesis using k by (auto simp: bit_simps numeral_2_eq_2)
  next
    case False
    then have "k \<le> n \<Longrightarrow> \<not> bit a (n - k)" using assms [of "n - k"] by auto
    then show ?thesis using False by auto
  qed
  finally show ?thesis by (simp add: k_def)
qed
lemma bit_IE_right:
  "bit (ucast (IE ARIGHT b sign) :: u8) n \<longleftrightarrow> \<not> bit b 2 \<and> \<not> bit b 3 \<and> n = (if sign > 0 then 2 else 3)"
  by (subst bit_IE) (auto simp: bit_macros)

lemma bit_IE_left:
  "bit (ucast (IE ALEFT b sign) :: u8) n \<longleftrightarrow> \<not> bit b 6 \<and> \<not> bit b 7 \<and> n = (if sign > 0 then 6 else 7)"
  by (subst bit_IE) (auto simp: bit_macros)

section \<open>Two encodings in one byte\<close>

definition sdr_marks :: "slist \<Rightarrow> marks" where "sdr_marks sl = byte_marks 1 2 3 sl"
definition sdl_marks :: "slist \<Rightarrow> marks" where "sdl_marks sl = byte_marks 5 6 7 sl"

interpretation sdr: mark_encoding 1 2 3 SR_PAR "\<lambda>b sign. ucast (IE ARIGHT b sign)" sdr_marks
proof unfold_locales
  fix b :: u8 and sign :: int
  show "bit (b OR ucast (IE ARIGHT b sign)) 1 = bit b 1" by (simp add: bit_or_iff bit_IE_right)
  show "clude_bits 2 3 (b OR ucast (IE ARIGHT b sign)) =
      (case clude_bits 2 3 b of None \<Rightarrow> Some (0 < sign) | Some c \<Rightarrow> Some c)"
    by (auto simp: clude_bits_def bit_or_iff bit_IE_right)
qed (auto simp: sdr_marks_def SD_one_hot(2))

interpretation sdl: mark_encoding 5 6 7 SL_PAR "\<lambda>b sign. ucast (IE ALEFT b sign)" sdl_marks
proof unfold_locales
  fix b :: u8 and sign :: int
  show "bit (b OR ucast (IE ALEFT b sign)) 5 = bit b 5" by (simp add: bit_or_iff bit_IE_left)
  show "clude_bits 6 7 (b OR ucast (IE ALEFT b sign)) =
      (case clude_bits 6 7 b of None \<Rightarrow> Some (0 < sign) | Some c \<Rightarrow> Some c)"
    by (auto simp: clude_bits_def bit_or_iff bit_IE_left)
qed (auto simp: sdl_marks_def SD_one_hot(6))

text \<open>The marks of one side only see the three bits of the side.\<close>

lemma sdr_cong: "bit v 1 = bit w 1 \<Longrightarrow> bit v 2 = bit w 2 \<Longrightarrow> bit v 3 = bit w 3 \<Longrightarrow>
   sdr_marks (sl(e := v)) = sdr_marks (sl(e := w))"
  by (auto simp: sdr_marks_def byte_marks_def clude_bits_def fun_eq_iff)

lemma sdl_cong: "bit v 5 = bit w 5 \<Longrightarrow> bit v 6 = bit w 6 \<Longrightarrow> bit v 7 = bit w 7 \<Longrightarrow>
   sdl_marks (sl(e := v)) = sdl_marks (sl(e := w))"
  by (auto simp: sdl_marks_def byte_marks_def clude_bits_def fun_eq_iff)

lemma sdr_same: "bit v 1 = bit (sl e) 1 \<Longrightarrow> bit v 2 = bit (sl e) 2 \<Longrightarrow> bit v 3 = bit (sl e) 3 \<Longrightarrow>
   sdr_marks (sl(e := v)) = sdr_marks sl"
  using sdr_cong [of v "sl e" sl e] by simp

lemma sdl_same: "bit v 5 = bit (sl e) 5 \<Longrightarrow> bit v 6 = bit (sl e) 6 \<Longrightarrow> bit v 7 = bit (sl e) 7 \<Longrightarrow>
   sdl_marks (sl(e := v)) = sdl_marks sl"
  using sdl_cong [of v "sl e" sl e] by simp

lemma agree_sdr_upd: "t < d \<Longrightarrow> agree t (sdr_marks (sl(d := v))) N \<longleftrightarrow> agree t (sdr_marks sl) N"
  by (auto simp: agree_def sdr_marks_def byte_marks_def)

lemma agree_sdl_upd: "t < d \<Longrightarrow> agree t (sdl_marks (sl(d := v))) N \<longleftrightarrow> agree t (sdl_marks sl) N"
  by (auto simp: agree_def sdl_marks_def byte_marks_def)

section \<open>What marked counts\<close>

text \<open>
  A serial that is still to be visited counts once when its two sides differ, once when it is
  a candidate duplicate, and, in compress mode, once when it is in the given difference.
\<close>

definition wt :: "bool \<Rightarrow> u8 \<Rightarrow> int" where
  "wt expand b = of_bool (S_DIFFERENT b) + of_bool (bit b 4) + of_bool (\<not> expand \<and> bit b 0)"

definition wsum :: "bool \<Rightarrow> slist \<Rightarrow> ser \<Rightarrow> int" where
  "wsum expand sl t = (\<Sum>e = 1..t. wt expand (sl e))"

lemma wt_ge_0: "0 \<le> wt expand b"
  by (simp add: wt_def)

lemma wsum_0 [simp]: "wsum expand sl 0 = 0"
  by (simp add: wsum_def)

lemma wsum_Suc: "wsum expand sl (Suc t) = wsum expand sl t + wt expand (sl (Suc t))"
  by (simp add: wsum_def)

lemma wsum_upd: "1 \<le> e \<Longrightarrow> e \<le> t \<Longrightarrow> wsum expand (sl(e := v)) t = wsum expand sl t - wt expand (sl e) + wt expand v"
proof -
  assume e: "1 \<le> e" "e \<le> t"
  have s: "{1..t} = insert e ({1..t} - {e})" using e by auto
  have "(\<Sum>x\<in>insert e ({1..t} - {e}). wt expand ((sl(e := v)) x)) = wt expand v + (\<Sum>x\<in>{1..t} - {e}. wt expand (sl x))"
    by (subst sum.insert) auto
  moreover have "(\<Sum>x\<in>insert e ({1..t} - {e}). wt expand (sl x)) = wt expand (sl e) + (\<Sum>x\<in>{1..t} - {e}. wt expand (sl x))"
    by (subst sum.insert) auto
  ultimately show ?thesis unfolding wsum_def s [symmetric] by simp
qed

lemma wsum_newer: "t < e \<Longrightarrow> wsum expand (sl(e := v)) t = wsum expand sl t"
  unfolding wsum_def by (rule sum.cong) auto

lemma wsum_eq_0: "wsum expand sl t = 0 \<longleftrightarrow> (\<forall>e. 1 \<le> e \<and> e \<le> t \<longrightarrow> wt expand (sl e) = 0)"
  unfolding wsum_def by (subst sum_nonneg_eq_0_iff) (auto simp: wt_ge_0)

text \<open>With nothing left to count, the two sides agree.\<close>

lemma wt_0_agree:
  assumes "wsum expand sl t = 0" and "sl 0 = 0"
  shows "agree t (sdl_marks sl) (sdr_marks sl)"
proof -
  have "\<not> S_DIFFERENT (sl e)" if "e \<le> t" for e
  proof (cases "e = 0")
    case True
    with assms(2) show ?thesis by (simp add: S_DIFFERENT_iff)
  next
    case False
    with assms(1) that have "wt expand (sl e) = 0" by (auto simp: wsum_eq_0)
    then show ?thesis by (auto simp: wt_def of_bool_def split: if_splits)
  qed
  then show ?thesis
    by (auto simp: agree_def sdl_marks_def sdr_marks_def byte_marks_def clude_bits_def S_DIFFERENT_iff)
qed

section \<open>What one operation on an older serial does\<close>

text \<open>
  \<open>sd_ok\<close>: \<open>marked\<close> is the count over the serials up to \<open>n\<close>.  \<open>touched\<close>: only the given serials
  changed, the difference bit of none of them, and \<open>lower\<close> covers them.
\<close>

definition sd_ok :: "bool \<Rightarrow> ser \<Rightarrow> sd_state \<Rightarrow> bool" where
  "sd_ok expand n st \<longleftrightarrow> sd_marked st = wsum expand (sd_slist st) n"

definition touched :: "ser set \<Rightarrow> sd_state \<Rightarrow> sd_state \<Rightarrow> bool" where
  "touched es st st' \<longleftrightarrow>
     sd_count st' = sd_count st \<and> sd_cludes st' = sd_cludes st \<and>
     (\<forall>e. bit (sd_slist st' e) 0 = bit (sd_slist st e) 0) \<and>
     (\<forall>e. e \<notin> es \<longrightarrow> sd_slist st' e = sd_slist st e) \<and>
     sd_lower st' \<le> sd_lower st \<and> (\<forall>e\<in>es. sd_lower st' \<le> e) \<and>
     (sd_lower st' = sd_lower st \<or> sd_lower st' \<in> es)"

lemma touched_refl [simp]: "touched {} st st"
  by (simp add: touched_def)

lemma touched_trans: "touched as st st1 \<Longrightarrow> touched bs st1 st2 \<Longrightarrow> touched (as \<union> bs) st st2"
  unfolding touched_def by (auto intro: order_trans)

lemma update_eq:
  assumes "\<not> bit nb 0" "\<not> bit nb 4"
  shows "update e nb st = st\<lparr>sd_slist := (sd_slist st)(e := sd_slist st e OR nb),
    sd_marked := sd_marked st + wt expand (sd_slist st e OR nb) - wt expand (sd_slist st e),
    sd_lower := min (sd_lower st) e\<rparr>"
  using assms
  by (auto simp: update_def Let_def sd_mark_def sd_set_def wt_def bit_or_iff min_def)

lemma update_ok:
  assumes "\<not> bit nb 0" "\<not> bit nb 4" "1 \<le> e" "e \<le> n" "sd_ok expand n st"
  shows "sd_ok expand n (update e nb st)" "touched {e} st (update e nb st)"
proof -
  show "sd_ok expand n (update e nb st)"
    using assms by (simp add: update_eq [of _ _ _ expand] sd_ok_def wsum_upd)
  show "touched {e} st (update e nb st)"
    using assms(1,2) by (auto simp: update_eq [of _ _ _ expand] touched_def bit_or_iff min_def)
qed

lemma slist_update: "sd_slist (update e nb st) = (sd_slist st)(e := sd_slist st e OR nb)"
  by (auto simp: update_def Let_def sd_mark_def sd_set_def)

lemma update_par_marks:
  assumes "nb = bits AND (SL_PAR OR SR_PAR)"
  shows "sdr_marks (sd_slist (update e nb st)) =
      (if bit bits 1 then m_par [e] (sdr_marks (sd_slist st)) else sdr_marks (sd_slist st))"
    and "sdl_marks (sd_slist (update e nb st)) =
      (if bit bits 5 then m_par [e] (sdl_marks (sd_slist st)) else sdl_marks (sd_slist st))"
proof -
  have b: "bit nb k \<longleftrightarrow> bit bits k \<and> (k = 5 \<or> k = 1)" for k
    by (auto simp: assms bit_and_iff bit_or_iff bit_macros)
  show "sdr_marks (sd_slist (update e nb st)) =
      (if bit bits 1 then m_par [e] (sdr_marks (sd_slist st)) else sdr_marks (sd_slist st))"
  proof (cases "bit bits 1")
    case True
    then have "sdr_marks (sd_slist (update e nb st)) = sdr_marks ((sd_slist st)(e := sd_slist st e OR SR_PAR))"
      unfolding slist_update by (intro sdr_cong) (auto simp: bit_or_iff b bit_macros)
    with True show ?thesis by (simp add: sdr.marks_par)
  next
    case False
    then show ?thesis unfolding slist_update by (simp add: sdr_same bit_or_iff b)
  qed
  show "sdl_marks (sd_slist (update e nb st)) =
      (if bit bits 5 then m_par [e] (sdl_marks (sd_slist st)) else sdl_marks (sd_slist st))"
  proof (cases "bit bits 5")
    case True
    then have "sdl_marks (sd_slist (update e nb st)) = sdl_marks ((sd_slist st)(e := sd_slist st e OR SL_PAR))"
      unfolding slist_update by (intro sdl_cong) (auto simp: bit_or_iff b bit_macros)
    with True show ?thesis by (simp add: sdl.marks_par)
  next
    case False
    then show ?thesis unfolding slist_update by (simp add: sdl_same bit_or_iff b)
  qed
qed

lemma m_par_Nil [simp]: "m_par [] M = M"
  by (cases M) (simp add: m_par_def)

lemma m_par_Cons: "m_par (e # es) M = m_par es (m_par [e] M)"
  by (auto simp: m_par_def)

lemma update_par_fold:
  assumes "nb = bits AND (SL_PAR OR SR_PAR)" and "\<forall>e\<in>set es. 1 \<le> e \<and> e \<le> n" and "sd_ok expand n st"
  defines "st' \<equiv> fold (\<lambda>e. update e nb) es st"
  shows "sd_ok expand n st' \<and> touched (set es) st st' \<and>
    sdr_marks (sd_slist st') = (if bit bits 1 then m_par es (sdr_marks (sd_slist st)) else sdr_marks (sd_slist st)) \<and>
    sdl_marks (sd_slist st') = (if bit bits 5 then m_par es (sdl_marks (sd_slist st)) else sdl_marks (sd_slist st))"
  using assms(2,3) unfolding st'_def
proof (induction es arbitrary: st)
  case Nil
  then show ?case by simp
next
  case (Cons e es)
  have b: "\<not> bit nb 0" "\<not> bit nb 4" by (auto simp: assms(1) bit_and_iff bit_or_iff bit_macros)
  have e: "1 \<le> e" "e \<le> n" using Cons.prems by auto
  note u = update_ok [OF b e Cons.prems(2)]
  from Cons.IH [OF _ u(1)] Cons.prems(1) touched_trans [OF u(2)] show ?case
    by (simp add: update_par_marks [OF assms(1)] m_par_Cons [of e es])
qed

lemma sd_parents_edges:
  "sd_parents s d bits st =
     (if bits AND (SL_PAR OR SR_PAR) = 0 then st
      else fold (\<lambda>e. update e (bits AND (SL_PAR OR SR_PAR))) (edges s d) st)"
  by (simp add: sd_parents_def edges_def Let_def)

lemma sd_parents_marks:
  fixes bits :: u8
  assumes e: "\<forall>e\<in>set (edges s d). 1 \<le> e \<and> e \<le> n" and ok: "sd_ok expand n st"
  defines "st' \<equiv> sd_parents s d bits st"
  shows "sd_ok expand n st' \<and> (\<exists>es\<subseteq>set (edges s d). touched es st st') \<and>
    sdr_marks (sd_slist st') = (if bit bits 1 then m_par (edges s d) (sdr_marks (sd_slist st)) else sdr_marks (sd_slist st)) \<and>
    sdl_marks (sd_slist st') = (if bit bits 5 then m_par (edges s d) (sdl_marks (sd_slist st)) else sdl_marks (sd_slist st))"
proof (cases "bits AND (SL_PAR OR SR_PAR) = 0")
  case True
  then have "\<not> bit (bits AND (SL_PAR OR SR_PAR)) 1" "\<not> bit (bits AND (SL_PAR OR SR_PAR)) 5" by simp_all
  then have "\<not> bit bits 1" "\<not> bit bits 5"
    by (simp_all only: bit_and_iff bit_or_iff bit_macros) simp_all
  moreover have "st' = st" unfolding st'_def sd_parents_edges using True by (rule if_P)
  moreover have "\<exists>es\<subseteq>set (edges s d). touched es st st" using touched_refl by blast
  ultimately show ?thesis using ok by simp
next
  case False
  with update_par_fold [OF refl e ok, of bits] show ?thesis
    by (auto simp: st'_def sd_parents_edges)
qed

text \<open>One entry of an include/exclude list: only the byte of its serial changes.\<close>

lemma wt_dup: "\<forall>k. k \<noteq> 4 \<longrightarrow> bit v k = bit w k \<Longrightarrow>
   wt expand v = wt expand w - of_bool (bit w 4) + of_bool (bit v 4)"
  by (simp add: wt_def S_DIFFERENT_iff)

lemma sd_clude_byte:
  assumes a: "\<And>n. bit a n \<Longrightarrow> n = 0 \<or> n = 4"
  defines "w \<equiv> \<lambda>st e sign. sd_slist st e OR ucast (IE a (sd_slist st e) sign)"
  shows "\<exists>v dl. sd_clude right dups d a (e, sign) st =
      st\<lparr>sd_slist := (sd_slist st)(e := v), sd_marked := sd_marked st + wt expand v - wt expand (sd_slist st e),
         sd_lower := min (sd_lower st) e, sd_dups := dl\<rparr> \<and>
      (\<forall>k. k \<noteq> 4 \<longrightarrow> bit v k = bit (w st e sign) k)"
proof -
  let ?b = "sd_slist st e" and ?w = "w st e sign"
  let ?nb = "ucast (IE a ?b sign) :: u8"
  have nb: "\<not> bit ?nb 0" "\<not> bit ?nb 4" by (auto simp: bit_IE [OF a])
  then have w4: "bit ?w 4 = bit ?b 4" by (simp add: w_def bit_or_iff)
  note u = update_eq [OF nb, of e st expand, folded w_def]
  show ?thesis
  proof (cases "dups \<and> d = right \<and> \<not> bit ?b 4")
    case True
    let ?v = "?w OR S_DUP"
    have v: "\<forall>k. k \<noteq> 4 \<longrightarrow> bit ?v k = bit ?w k" "bit ?v 4" by (auto simp: bit_or_iff bit_macros)
    have "wt expand ?v = wt expand ?w + 1" using wt_dup [OF v(1), of expand] v(2) w4 True by simp
    then have "sd_clude right dups d a (e, sign) st =
      st\<lparr>sd_slist := (sd_slist st)(e := ?v), sd_marked := sd_marked st + wt expand ?v - wt expand ?b,
         sd_lower := min (sd_lower st) e, sd_dups := sd_dups st\<rparr>"
      using True by (simp add: sd_clude_def Let_def u bit_macros sd_mark_def sd_set_def w_def algebra_simps)
    with v(1) show ?thesis by blast
  next
    case f1: False
    show ?thesis
    proof (cases "dups \<and> d \<noteq> right \<and> bit a 0 \<and> bit ?b 4")
      case True
      let ?v = "?w AND NOT S_DUP"
      have v: "\<forall>k. k \<noteq> 4 \<longrightarrow> bit ?v k = bit ?w k" "\<not> bit ?v 4" by (auto simp: bit_and_iff bit_not_iff bit_macros dest: bit_imp_le_length)
      have "wt expand ?v = wt expand ?w - 1" using wt_dup [OF v(1), of expand] v(2) w4 True by simp
      then have "sd_clude right dups d a (e, sign) st =
        st\<lparr>sd_slist := (sd_slist st)(e := ?v), sd_marked := sd_marked st + wt expand ?v - wt expand ?b,
           sd_lower := min (sd_lower st) e,
           sd_dups := (if (sign > 0) = bit ?b 2 then sd_dups st @ [if bit ?b 3 then of_nat e OR HIBIT else of_nat e]
             else sd_dups st)\<rparr>"
        using True by (auto simp: sd_clude_def Let_def u bit_macros sd_mark_def sd_set_def foundDup_def w_def algebra_simps)
      with v(1) show ?thesis by blast
    next
      case False
      with f1 have "sd_clude right dups d a (e, sign) st =
        st\<lparr>sd_slist := (sd_slist st)(e := ?w), sd_marked := sd_marked st + wt expand ?w - wt expand ?b,
           sd_lower := min (sd_lower st) e,
           sd_dups := (if dups \<and> d = right then sd_dups st @ [if bit ?b 3 then of_nat e OR HIBIT else of_nat e]
             else sd_dups st)\<rparr>"
        by (auto simp: sd_clude_def Let_def u bit_macros foundDup_def w_def)
      then show ?thesis by blast
    qed
  qed
qed

lemma sd_clude_marks:
  fixes sign :: int and right d :: ser and dups :: bool
  assumes a: "\<And>n. bit a n \<Longrightarrow> n = 0 \<or> n = 4" and e: "1 \<le> e" "e \<le> n" and ok: "sd_ok expand n st"
  defines "st' \<equiv> sd_clude right dups d a (e, sign) st"
  shows "sd_ok expand n st' \<and> touched {e} st st' \<and>
    sdr_marks (sd_slist st') = (if bit a 0 then m_clude [(e, sign)] (sdr_marks (sd_slist st)) else sdr_marks (sd_slist st)) \<and>
    sdl_marks (sd_slist st') = (if bit a 4 then m_clude [(e, sign)] (sdl_marks (sd_slist st)) else sdl_marks (sd_slist st))"
proof -
  let ?b = "sd_slist st e"
  obtain v dl where st': "st' = st\<lparr>sd_slist := (sd_slist st)(e := v),
      sd_marked := sd_marked st + wt expand v - wt expand ?b, sd_lower := min (sd_lower st) e, sd_dups := dl\<rparr>"
    and v: "\<And>k. k \<noteq> 4 \<Longrightarrow> bit v k = bit (?b OR ucast (IE a ?b sign)) k"
    using sd_clude_byte [OF a, where right = right and dups = dups and d = d and e = e and sign = sign and st = st and expand = expand] unfolding st'_def by blast
  have ok': "sd_ok expand n st'" using ok e by (simp add: st' sd_ok_def wsum_upd)
  have "bit v 0 = bit ?b 0" using v [of 0] by (simp add: bit_or_iff bit_IE [OF a])
  then have t: "touched {e} st st'" by (auto simp: st' touched_def min_def)
  have b: "bit v k = (bit ?b k \<or> bit a 0 \<and> \<not> bit ?b 2 \<and> \<not> bit ?b 3 \<and> k = (if sign > 0 then 2 else 3) \<or>
      bit a 4 \<and> \<not> bit ?b 6 \<and> \<not> bit ?b 7 \<and> k = (if sign > 0 then 6 else 7))" if "k \<noteq> 4" for k
    using v [OF that] by (simp add: bit_or_iff bit_IE [OF a])
  have "sdr_marks (sd_slist st') =
      (if bit a 0 then sdr_marks ((sd_slist st)(e := ?b OR ucast (IE ARIGHT ?b sign))) else sdr_marks (sd_slist st))"
    unfolding st' by (auto intro!: sdr_cong sdr_same simp: b bit_or_iff bit_IE_right split: if_splits)
  moreover have "sdl_marks (sd_slist st') =
      (if bit a 4 then sdl_marks ((sd_slist st)(e := ?b OR ucast (IE ALEFT ?b sign))) else sdl_marks (sd_slist st))"
    unfolding st' by (auto intro!: sdl_cong sdl_same simp: b bit_or_iff bit_IE_left split: if_splits)
  ultimately show ?thesis using ok' t by (simp add: sdr.marks_clude sdl.marks_clude)
qed

lemma m_clude_Nil [simp]: "m_clude [] M = M"
  by (cases M) (auto simp: m_clude_def clude_in_def split: option.splits)

lemma m_clude_Cons: "m_clude ((e, sign) # k) M = m_clude k (m_clude [(e, sign)] M)"
  by (simp add: m_clude_def clude_in_def fun_eq_iff split: option.splits)

lemma sd_clude_fold:
  fixes right d :: ser and dups :: bool
  assumes a: "\<And>n. bit a n \<Longrightarrow> n = 0 \<or> n = 4" and e: "\<forall>(e, sign)\<in>set k. 1 \<le> e \<and> e \<le> n" and ok: "sd_ok expand n st"
  defines "st' \<equiv> fold (sd_clude right dups d a) k st"
  shows "sd_ok expand n st' \<and> touched (fst ` set k) st st' \<and>
    sdr_marks (sd_slist st') = (if bit a 0 then m_clude k (sdr_marks (sd_slist st)) else sdr_marks (sd_slist st)) \<and>
    sdl_marks (sd_slist st') = (if bit a 4 then m_clude k (sdl_marks (sd_slist st)) else sdl_marks (sd_slist st))"
  using e ok unfolding st'_def
proof (induction k arbitrary: st)
  case Nil
  then show ?case by simp
next
  case (Cons x k)
  obtain e sign where x: "x = (e, sign)" by (cases x)
  have e: "1 \<le> e" "e \<le> n" using Cons.prems(1) x by auto
  note c = sd_clude_marks [OF a e Cons.prems(2), where right = right and dups = dups and d = d and sign = sign]
  then have ok1: "sd_ok expand n (sd_clude right dups d a (e, sign) st)" by blast
  have k: "\<forall>(e, sign)\<in>set k. 1 \<le> e \<and> e \<le> n" using Cons.prems(1) by simp
  note ih = Cons.IH [OF k ok1]
  have "touched ({e} \<union> fst ` set k) st (fold (sd_clude right dups d a) k (sd_clude right dups d a (e, sign) st))"
    using c ih touched_trans by blast
  with c ih show ?case by (simp add: x m_clude_Cons [of e sign k])
qed

section \<open>One step of the pass is one marking step on each side\<close>

definition sdK :: "sccs \<Rightarrow> (ser \<Rightarrow> nat) option \<Rightarrow> ser \<Rightarrow> (ser \<times> int) list" where
  "sdK s cl d = (if live s d then sd_list s cl d else [])"

lemma sdK_None [simp]: "sdK s None = gK s"
  by (simp add: fun_eq_iff sdK_def gK_def sd_list_def cludes_of_def)

text \<open>The side bits of \<open>active\<close> after the decision: the left side, and the wanted right side.\<close>

definition sd_want :: "bool \<Rightarrow> bool \<Rightarrow> bool \<Rightarrow> bool \<Rightarrow> bool" where
  "sd_want expand b0 aL aR = (if expand then aR else b0 \<noteq> aL)"

definition sd_entry :: "ser \<Rightarrow> bool \<Rightarrow> u32" where
  "sd_entry d w = (if w then of_nat d else of_nat d OR HIBIT)"

lemma sd_decide_eq:
  fixes bits :: u8 and expand :: bool
  defines "aL \<equiv> bit (ACTIVE bits) 4" and "aR \<equiv> bit (ACTIVE bits) 0" and "b0 \<equiv> bit bits 0"
  defines "w \<equiv> sd_want expand b0 aL aR"
  shows "\<exists>a'. sd_decide expand d bits (ACTIVE bits) st = (a',
      st\<lparr>sd_slist := (sd_slist st)(d := of_bool (expand \<and> b0 \<noteq> (aL \<noteq> aR))),
         sd_marked := sd_marked st - of_bool (\<not> expand \<and> b0),
         sd_count := sd_count st + (if expand \<and> aL \<noteq> aR then (if b0 then -1 else 1) else 0),
         sd_cludes := sd_cludes st @ (if \<not> expand \<and> aR \<noteq> w then [sd_entry d w] else [])\<rparr>) \<and>
    (\<forall>n. bit a' n \<longleftrightarrow> n = 0 \<and> w \<or> n = 4 \<and> aL)"
proof -
  have act: "bit (ACTIVE bits) n \<longleftrightarrow> n = 0 \<and> aR \<or> n = 4 \<and> aL" for n
    unfolding aL_def aR_def by (auto simp: bit_ACTIVE)
  have d0: "bits AND S_DIFF = of_bool b0"
    by (auto simp: b0_def word_bits_eq bit_and_iff bit_macros bit_simps)
  have x: "XOR_ACTIVE (ACTIVE bits) \<noteq> 0 \<longleftrightarrow> aL \<noteq> aR" by (simp add: XOR_ACTIVE_eq_0 act)
  have xa: "XOR_ACTIVE (ACTIVE bits) = of_bool (aL \<noteq> aR)"
    unfolding XOR_ACTIVE_def by (auto simp: word_bits_eq bit_and_iff bit_xor_iff bit_drop_bit_eq act bit_simps)
  have fl: "bit (ACTIVE bits XOR ARIGHT) n \<longleftrightarrow> n = 0 \<and> \<not> aR \<or> n = 4 \<and> aL" for n
    by (auto simp: bit_xor_iff act bit_macros)
  have s: "1 XOR S_DIFF = 0" "0 XOR S_DIFF = 1" by (simp_all add: S_DIFF_def)
  let ?res = "st\<lparr>sd_slist := (sd_slist st)(d := of_bool (expand \<and> b0 \<noteq> (aL \<noteq> aR))),
         sd_marked := sd_marked st - of_bool (\<not> expand \<and> b0),
         sd_count := sd_count st + (if expand \<and> aL \<noteq> aR then (if b0 then -1 else 1) else 0),
         sd_cludes := sd_cludes st @ (if \<not> expand \<and> aR \<noteq> w then [sd_entry d w] else [])\<rparr>"
  have b: "ACTIVE bits AND ARIGHT = 0 \<longleftrightarrow> \<not> aR" "(ACTIVE bits XOR ARIGHT) AND ARIGHT = 0 \<longleftrightarrow> aR"
    by (simp_all add: bit_macros act fl)
  define a' where "a' = (if \<not> expand \<and> aR \<noteq> w then ACTIVE bits XOR ARIGHT else ACTIVE bits)"
  have "sd_decide expand d bits (ACTIVE bits) st = (a', ?res)"
  proof (cases expand)
    case True
    then show ?thesis
      by (cases b0; cases "aL \<noteq> aR"; simp add: a'_def sd_decide_def Let_def x d0 sd_set_def s; simp add: S_DIFF_def)
  next
    case False
    then show ?thesis
      by (cases b0; cases aL; cases aR)
        (simp_all add: a'_def sd_decide_def Let_def xa d0 sd_set_def sd_mark_def w_def sd_want_def sd_entry_def b)
  qed
  moreover have "bit a' n \<longleftrightarrow> n = 0 \<and> w \<or> n = 4 \<and> aL" for n
    by (cases "\<not> expand \<and> aR \<noteq> w") (auto simp: a'_def fl act, auto simp: w_def sd_want_def)
  ultimately show ?thesis by blast
qed
definition sl_live :: "sccs \<Rightarrow> slist \<Rightarrow> bool" where
  "sl_live s sl \<longleftrightarrow> (\<forall>e. sl e \<noteq> 0 \<longrightarrow> live s e)"

definition no_gone :: "sccs \<Rightarrow> bool" where
  "no_gone s \<longleftrightarrow> (\<forall>d\<in>set [1..<Suc (TABLE s)]. live s d \<longrightarrow> FLAGS s d AND D_GONE = 0)"

lemma no_goneD: "no_gone s \<Longrightarrow> live s d \<Longrightarrow> FLAGS s d AND D_GONE = 0"
  by (auto simp: no_gone_def live_def simp del: upt_Suc)

text \<open>
  What a step at serial \<open>t\<close> does: the marks of the older serials follow the marking step of each
  side, the serial itself gets its final value, and the counters follow.
\<close>

definition sd_step ::
  "sccs \<Rightarrow> (ser \<Rightarrow> nat) option \<Rightarrow> bool \<Rightarrow> ser \<Rightarrow> marks \<Rightarrow> marks \<Rightarrow> sd_state \<Rightarrow> sd_state \<Rightarrow> bool" where
  "sd_step s cl expand t NR NL st st' \<longleftrightarrow>
     (let aL = m_active NL t; aR = m_active NR t; b0 = bit (sd_slist st t) 0; w = sd_want expand b0 aL aR in
      sd_ok expand (t - 1) st' \<and> sl_live s (sd_slist st') \<and>
      agree (t - 1) (sdr_marks (sd_slist st')) (f_step (gE s) (sdK s cl) (\<lambda>_. w) t NR) \<and>
      agree (t - 1) (sdl_marks (sd_slist st')) (m_step (gE s) (sdK s cl) t NL) \<and>
      sd_slist st' t = of_bool (expand \<and> b0 \<noteq> (aL \<noteq> aR)) \<and>
      (\<forall>e>t. sd_slist st' e = sd_slist st e) \<and>
      (\<forall>e<t. bit (sd_slist st' e) 0 = bit (sd_slist st e) 0) \<and>
      sd_count st' = sd_count st + (if expand \<and> aL \<noteq> aR then (if b0 then -1 else 1) else 0) \<and>
      sd_cludes st' = sd_cludes st @ (if \<not> expand \<and> aR \<noteq> w then [sd_entry t w] else []) \<and>
      sd_lower st' \<le> sd_lower st \<and> (1 \<le> sd_lower st \<longrightarrow> 1 \<le> sd_lower st') \<and>
      (\<forall>e<t. sd_slist st' e \<noteq> sd_slist st e \<longrightarrow> sd_lower st' \<le> e))"

lemma symdiff_body_dead:
  assumes gl: "graph_live s (gE s) (sdK s cl)" and sl: "sl_live s (sd_slist st)"
    and d: "\<not> live s t \<or> sd_slist st t = 0" and t: "1 \<le> t" "t \<le> TABLE s"
    and NR: "marks_live s NR" "agree t (sdr_marks (sd_slist st)) NR"
    and NL: "marks_live s NL" "agree t (sdl_marks (sd_slist st)) NL" and ok: "sd_ok expand t st"
  shows "symdiff_body s leftlist right dups cl expand t st = Some st" "sd_step s cl expand t NR NL st st"
proof -
  have z: "sd_slist st t = 0" using d sl by (auto simp: sl_live_def)
  then show "symdiff_body s leftlist right dups cl expand t st = Some st"
    by (simp add: symdiff_body_def)
  have mr: "\<not> fst NR t" "snd NR t = None" and ml: "\<not> fst NL t" "snd NL t = None"
    using NR(2) NL(2) z by (auto simp: agree_def sdr_marks_def sdl_marks_def byte_marks_def clude_bits_def)
  then have na: "\<not> m_active NR t" "\<not> m_active NL t" by (auto simp: m_active_def)
  have "f_step (gE s) (sdK s cl) (\<lambda>_. False) t NR = NR" using mr by (simp add: f_step_def)
  moreover have "m_step (gE s) (sdK s cl) t NL = NL" using ml by (rule m_step_unmarked)
  moreover have "sd_ok expand (t - 1) st"
    using ok z t(1) wsum_Suc [of expand "sd_slist st" "t - 1"] by (simp add: sd_ok_def wt_def S_DIFFERENT_iff)
  ultimately show "sd_step s cl expand t NR NL st st"
    using z sl na agree_mono [OF NR(2), of "t - 1"] agree_mono [OF NL(2), of "t - 1"]
    by (simp add: sd_step_def sd_want_def)
qed

text \<open>The second half of the body: the marks of the serial go to its parents and its list.\<close>

lemma sd_propagate:
  fixes bits :: u8 and a' :: u32 and right :: ser and dups :: bool
  assumes gl: "graph_live s (gE s) (sdK s cl)" and lv: "live s t" and t: "t = Suc n"
    and a': "\<And>n. bit a' n \<longleftrightarrow> n = 0 \<and> w \<or> n = 4 \<and> aL"
    and ok: "sd_ok expand n st"
    and NR: "agree n (sdr_marks (sd_slist st)) NR" and NL: "agree n (sdl_marks (sd_slist st)) NL"
    and par: "bit bits 1 = fst NR t" "bit bits 5 = fst NL t" and aL: "aL = m_active NL t"
  defines "st' \<equiv> (if a' = 0 then sd_parents s t bits st
      else fold (sd_clude right dups t a') (sd_list s cl t) (sd_parents s t bits st))"
  shows "sd_ok expand n st' \<and> (\<exists>es. touched es st st' \<and> (\<forall>e\<in>es. e < t \<and> live s e)) \<and>
    agree n (sdr_marks (sd_slist st')) (f_step (gE s) (sdK s cl) (\<lambda>_. w) t NR) \<and>
    agree n (sdl_marks (sd_slist st')) (m_step (gE s) (sdK s cl) t NL)"
proof -
  have ed: "edges s t = gE s t" and K: "sdK s cl t = sd_list s cl t" using lv by (simp_all add: gE_def sdK_def)
  have "\<forall>e\<in>set (edges s t). 1 \<le> e \<and> e \<le> n"
    unfolding ed using graph_liveD(1) [OF gl, of _ t] t by (fastforce simp: live_def less_Suc_eq_le)
  note p = sd_parents_marks [OF this ok, of bits]
  define st4 where "st4 = sd_parents s t bits st"
  from p obtain es where ok4: "sd_ok expand n st4" and es: "es \<subseteq> set (gE s t)" "touched es st st4"
    and r4: "sdr_marks (sd_slist st4) = (if fst NR t then m_par (gE s t) (sdr_marks (sd_slist st)) else sdr_marks (sd_slist st))"
    and l4: "sdl_marks (sd_slist st4) = (if fst NL t then m_par (gE s t) (sdl_marks (sd_slist st)) else sdl_marks (sd_slist st))"
    unfolding st4_def ed par by blast
  have k: "\<forall>(e, sign)\<in>set (sd_list s cl t). 1 \<le> e \<and> e \<le> n"
    using graph_liveD(2) [OF gl, of _ _ t] t unfolding K by (fastforce simp: live_def less_Suc_eq_le)
  have "\<exists>fs\<subseteq>fst ` set (sdK s cl t). sd_ok expand n st' \<and> touched fs st4 st' \<and>
      sdr_marks (sd_slist st') = (if w then m_clude (sdK s cl t) (sdr_marks (sd_slist st4)) else sdr_marks (sd_slist st4)) \<and>
      sdl_marks (sd_slist st') = (if aL then m_clude (sdK s cl t) (sdl_marks (sd_slist st4)) else sdl_marks (sd_slist st4))"
  proof (cases "a' = 0")
    case True
    then have "\<not> w" "\<not> aL" using a' [of 0] a' [of 4] by simp_all
    moreover have "st' = st4" using True by (simp add: st'_def st4_def)
    ultimately show ?thesis using ok4 touched_refl [of st4] by (intro exI [of _ "{}"]) simp
  next
    case False
    have "\<And>n. bit a' n \<Longrightarrow> n = 0 \<or> n = 4" by (auto simp: a')
    note c = sd_clude_fold [OF this k ok4, where right = right and dups = dups and d = t]
    have "st' = fold (sd_clude right dups t a') (sd_list s cl t) st4" using False by (simp add: st'_def st4_def)
    then show ?thesis using c a' [of 0] a' [of 4] unfolding K
      by (intro exI [of _ "fst ` set (sd_list s cl t)"]) simp
  qed
  then obtain fs where fs: "fs \<subseteq> fst ` set (sdK s cl t)" "touched fs st4 st'" and ok5: "sd_ok expand n st'"
    and r5: "sdr_marks (sd_slist st') = (if w then m_clude (sdK s cl t) (sdr_marks (sd_slist st4)) else sdr_marks (sd_slist st4))"
    and l5: "sdl_marks (sd_slist st') = (if aL then m_clude (sdK s cl t) (sdl_marks (sd_slist st4)) else sdl_marks (sd_slist st4))"
    by blast
  have "e < t \<and> live s e" if "e \<in> es \<union> fs" for e
    using that es(1) fs(1) graph_liveD [OF gl] by fastforce
  moreover have "touched (es \<union> fs) st st'" using touched_trans [OF es(2) fs(2)] .
  moreover have "agree n (sdr_marks (sd_slist st4)) (if fst NR t then m_par (gE s t) NR else NR)"
    "agree n (sdl_marks (sd_slist st4)) (if fst NL t then m_par (gE s t) NL else NL)"
    using NR NL by (simp_all add: r4 l4 agree_par)
  then have "agree n (sdr_marks (sd_slist st')) (f_step (gE s) (sdK s cl) (\<lambda>_. w) t NR)"
    "agree n (sdl_marks (sd_slist st')) (m_step (gE s) (sdK s cl) t NL)"
    by (simp_all add: r5 l5 f_step_def m_step_def Let_def agree_clude aL)
  ultimately show ?thesis using ok5 by blast
qed

lemma symdiff_body_live:
  assumes gl: "graph_live s (gE s) (sdK s cl)" and ng: "no_gone s" and sl: "sl_live s (sd_slist st)"
    and lv: "live s t" and nz: "sd_slist st t \<noteq> 0"
    and NR: "agree t (sdr_marks (sd_slist st)) NR" and NL: "agree t (sdl_marks (sd_slist st)) NL"
    and ok: "sd_ok expand t st"
  shows "\<exists>st'. symdiff_body s leftlist right dups cl expand t st = Some st' \<and> sd_step s cl expand t NR NL st st'"
proof -
  define bits where "bits = sd_slist st t"
  define n where "n = t - 1"
  have t: "t = Suc n" and n: "n < t" using lv by (auto simp: n_def live_def)
  define aL aR b0 where a_def: "aL = m_active NL t" "aR = m_active NR t" "b0 = bit bits 0"
  define w where "w = sd_want expand b0 aL aR"
  have act: "bit (ACTIVE bits) 4 = aL" "bit (ACTIVE bits) 0 = aR"
    using agree_active [OF NL order_refl] agree_active [OF NR order_refl]
    by (auto simp: a_def bit_ACTIVE bits_def sdl.marks_active sdr.marks_active)
  have par: "bit bits 1 = fst NR t" "bit bits 5 = fst NL t"
    using NR NL by (auto simp: agree_def bits_def sdr_marks_def sdl_marks_def byte_marks_def)
  define st1 where "st1 = (if S_DIFFERENT bits then sd_mark (-1) st else st)"
  define v :: u8 where "v = of_bool (expand \<and> b0 \<noteq> (aL \<noteq> aR))"
  define st2 where "st2 = st1\<lparr>sd_slist := (sd_slist st1)(t := v), sd_marked := sd_marked st1 - of_bool (\<not> expand \<and> b0),
         sd_count := sd_count st1 + (if expand \<and> aL \<noteq> aR then (if b0 then -1 else 1) else 0),
         sd_cludes := sd_cludes st1 @ (if \<not> expand \<and> aR \<noteq> w then [sd_entry t w] else [])\<rparr>"
  obtain a' where dec: "sd_decide expand t bits (ACTIVE bits) st1 = (a', st2)"
    and a': "\<And>n. bit a' n \<longleftrightarrow> n = 0 \<and> w \<or> n = 4 \<and> aL"
    using sd_decide_eq [of expand t bits st1] unfolding act w_def st2_def v_def a_def by blast
  define st3 where "st3 = sd_own_dup t bits st2"
  have st3: "sd_slist st3 = (sd_slist st)(t := v)" "sd_count st3 = sd_count st2" "sd_cludes st3 = sd_cludes st2"
    "sd_lower st3 = sd_lower st" "sd_marked st3 = sd_marked st - wt expand bits"
    by (auto simp: st3_def sd_own_dup_def st2_def st1_def sd_mark_def foundDup_def Let_def wt_def bit_macros a_def)
  have "wsum expand (sd_slist st) t = wsum expand (sd_slist st) n + wt expand bits"
    by (simp add: t wsum_Suc bits_def)
  then have ok3: "sd_ok expand n st3"
    using ok n by (simp add: sd_ok_def st3 wsum_newer)
  have ag3: "agree n (sdr_marks (sd_slist st3)) NR" "agree n (sdl_marks (sd_slist st3)) NL"
    using agree_mono [OF NR] agree_mono [OF NL] n by (simp_all add: st3 agree_sdr_upd agree_sdl_upd del: fun_upd_apply)
  define st5 where "st5 = (if a' = 0 then sd_parents s t bits st3
      else fold (sd_clude right dups t a') (sd_list s cl t) (sd_parents s t bits st3))"
  have body: "symdiff_body s leftlist right dups cl expand t st = Some st5"
    using lv nz no_goneD [OF ng lv]
    by (simp add: symdiff_body_def live_def bits_def [symmetric] st1_def [symmetric] dec st3_def [symmetric]
        st5_def Let_def)
  obtain es where ok5: "sd_ok expand n st5" and tch: "touched es st3 st5" and old: "\<forall>e\<in>es. e < t \<and> live s e"
    and ag: "agree n (sdr_marks (sd_slist st5)) (f_step (gE s) (sdK s cl) (\<lambda>_. w) t NR)"
      "agree n (sdl_marks (sd_slist st5)) (m_step (gE s) (sdK s cl) t NL)"
    using sd_propagate [OF gl lv t a' ok3 ag3 par a_def(1), where right = right and dups = dups]
    unfolding st5_def by blast
  have same: "sd_slist st5 e = ((sd_slist st)(t := v)) e" if "e \<notin> es" for e
    using tch that by (simp add: touched_def st3 del: fun_upd_apply)
  have lv5: "sl_live s (sd_slist st5)"
    unfolding sl_live_def using same old sl lv by (auto simp: sl_live_def) (metis fun_upd_apply)
  have "t \<notin> es" "\<And>e. t < e \<Longrightarrow> e \<notin> es" using old by (metis less_irrefl, metis less_asym)
  then have "sd_slist st5 t = v" "\<forall>e>t. sd_slist st5 e = sd_slist st e" using same by auto
  moreover have "\<forall>e<t. bit (sd_slist st5 e) 0 = bit (sd_slist st e) 0"
    using tch by (auto simp: touched_def st3)
  moreover have "\<forall>e<t. sd_slist st5 e \<noteq> sd_slist st e \<longrightarrow> sd_lower st5 \<le> e"
    using same tch by (fastforce simp: touched_def)
  moreover have "sd_count st5 = sd_count st + (if expand \<and> aL \<noteq> aR then (if b0 then -1 else 1) else 0)"
    "sd_cludes st5 = sd_cludes st @ (if \<not> expand \<and> aR \<noteq> w then [sd_entry t w] else [])"
    using tch by (auto simp: touched_def st3 st2_def st1_def sd_mark_def)
  moreover have "sd_lower st5 \<le> sd_lower st" "1 \<le> sd_lower st \<longrightarrow> 1 \<le> sd_lower st5"
    using tch old by (auto simp: touched_def st3 live_def)
  ultimately have "sd_step s cl expand t NR NL st st5"
    using ok5 lv5 ag
    unfolding sd_step_def Let_def n_def [symmetric] bits_def [symmetric] a_def [symmetric] w_def [symmetric] v_def
    by blast
  with body show ?thesis by blast
qed

section \<open>The whole pass\<close>

text \<open>
  A pass over the serials up to \<open>hi\<close>: \<open>NL t\<close> and \<open>NR t\<close> are the marks of the two sides when the
  pass reaches \<open>t\<close>, \<open>W\<close> is what the right side ends up with, \<open>sl0\<close> is the map at the start.
\<close>

definition pass_ok ::
  "sccs \<Rightarrow> (ser \<Rightarrow> nat) option \<Rightarrow> bool \<Rightarrow> ser \<Rightarrow> (ser \<Rightarrow> marks) \<Rightarrow> (ser \<Rightarrow> marks) \<Rightarrow> (ser \<Rightarrow> bool) \<Rightarrow> slist \<Rightarrow> bool" where
  "pass_ok s cl expand hi NL NR W sl0 \<longleftrightarrow>
     graph_live s (gE s) (sdK s cl) \<and> no_gone s \<and> hi \<le> TABLE s \<and>
     (\<forall>t. marks_live s (NL t) \<and> marks_live s (NR t)) \<and>
     (\<forall>t<hi. NL t = m_step (gE s) (sdK s cl) (Suc t) (NL (Suc t)) \<and> NR t = f_step (gE s) (sdK s cl) W (Suc t) (NR (Suc t))) \<and>
     (\<forall>t. 1 \<le> t \<and> t \<le> hi \<longrightarrow> W t = sd_want expand (bit (sl0 t) 0) (m_active (NL t) t) (m_active (NR t) t))"

definition pass_diff :: "(ser \<Rightarrow> marks) \<Rightarrow> (ser \<Rightarrow> marks) \<Rightarrow> ser \<Rightarrow> bool" where
  "pass_diff NL NR e \<longleftrightarrow> m_active (NL e) e \<noteq> m_active (NR e) e"

definition pass_count :: "bool \<Rightarrow> (ser \<Rightarrow> marks) \<Rightarrow> (ser \<Rightarrow> marks) \<Rightarrow> slist \<Rightarrow> ser \<Rightarrow> int" where
  "pass_count expand NL NR sl0 e = (if expand \<and> pass_diff NL NR e then (if bit (sl0 e) 0 then -1 else 1) else 0)"

definition pass_cludes :: "bool \<Rightarrow> (ser \<Rightarrow> marks) \<Rightarrow> (ser \<Rightarrow> bool) \<Rightarrow> ser list \<Rightarrow> u32 list" where
  "pass_cludes expand NR W es = concat (map (\<lambda>e. if \<not> expand \<and> m_active (NR e) e \<noteq> W e then [sd_entry e (W e)] else []) es)"

definition pass_inv ::
  "sccs \<Rightarrow> bool \<Rightarrow> ser \<Rightarrow> (ser \<Rightarrow> marks) \<Rightarrow> (ser \<Rightarrow> marks) \<Rightarrow> (ser \<Rightarrow> bool) \<Rightarrow> slist \<Rightarrow> ser \<Rightarrow> sd_state \<Rightarrow> bool" where
  "pass_inv s expand hi NL NR W sl0 t st \<longleftrightarrow>
     agree t (sdr_marks (sd_slist st)) (NR t) \<and> agree t (sdl_marks (sd_slist st)) (NL t) \<and>
     sd_ok expand t st \<and> sl_live s (sd_slist st) \<and>
     (\<forall>e\<le>t. bit (sd_slist st e) 0 = bit (sl0 e) 0) \<and>
     (\<forall>e. t < e \<and> e \<le> hi \<longrightarrow> sd_slist st e = of_bool (expand \<and> bit (sl0 e) 0 \<noteq> pass_diff NL NR e)) \<and>
     (\<forall>e>hi. sd_slist st e = sl0 e) \<and>
     sd_count st = (\<Sum>e\<in>{t<..hi}. pass_count expand NL NR sl0 e) \<and>
     sd_cludes st = pass_cludes expand NR W (rev [Suc t..<Suc hi]) \<and>
     1 \<le> sd_lower st \<and> (\<forall>e\<le>t. sd_slist st e \<noteq> sd_slist st e AND S_DIFF \<longrightarrow> sd_lower st \<le> e)"

lemma f_step_cong: "W t = W' t \<Longrightarrow> f_step E K W t M = f_step E K W' t M"
  by (simp add: f_step_def)

lemma symdiff_body_step:
  assumes p: "pass_ok s cl expand hi NL NR W sl0" and t: "1 \<le> t" "t \<le> hi"
    and inv: "pass_inv s expand hi NL NR W sl0 t st"
  shows "\<exists>st'. symdiff_body s leftlist right dups cl expand t st = Some st' \<and> sd_step s cl expand t (NR t) (NL t) st st'"
proof (cases "live s t \<and> sd_slist st t \<noteq> 0")
  case True
  then show ?thesis
    using p inv by (intro symdiff_body_live) (auto simp: pass_ok_def pass_inv_def)
next
  case False
  have "t \<le> TABLE s" using p t by (auto simp: pass_ok_def)
  then show ?thesis
    using p inv t False
      symdiff_body_dead [where s = s and cl = cl and st = st and t = t and NR = "NR t" and NL = "NL t" and expand = expand]
    by (auto simp: pass_ok_def pass_inv_def)
qed

lemma pass_inv_step:
  assumes p: "pass_ok s cl expand hi NL NR W sl0" and t: "Suc n \<le> hi"
    and inv: "pass_inv s expand hi NL NR W sl0 (Suc n) st"
    and stp: "sd_step s cl expand (Suc n) (NR (Suc n)) (NL (Suc n)) st st'"
  shows "pass_inv s expand hi NL NR W sl0 n st'"
proof -
  define aL aR where a: "aL = m_active (NL (Suc n)) (Suc n)" "aR = m_active (NR (Suc n)) (Suc n)"
  have b0: "bit (sd_slist st (Suc n)) 0 = bit (sl0 (Suc n)) 0" using inv by (simp add: pass_inv_def)
  have w: "sd_want expand (bit (sl0 (Suc n)) 0) aL aR = W (Suc n)"
    using p t by (simp add: pass_ok_def a)
  note st = stp [unfolded sd_step_def Let_def b0 a [symmetric] w, simplified]
  have N: "NL n = m_step (gE s) (sdK s cl) (Suc n) (NL (Suc n))" "NR n = f_step (gE s) (sdK s cl) (\<lambda>_. W (Suc n)) (Suc n) (NR (Suc n))"
    using p t by (auto simp: pass_ok_def intro: f_step_cong)
  have "{n<..hi} = insert (Suc n) {Suc n<..hi}" using t by auto
  then have cnt: "sd_count st' = (\<Sum>e\<in>{n<..hi}. pass_count expand NL NR sl0 e)"
    using st inv by (simp add: pass_inv_def pass_count_def pass_diff_def a)
  have "rev [Suc n..<Suc hi] = rev [Suc (Suc n)..<Suc hi] @ [Suc n]"
    using t by (simp add: upt_rec [of "Suc n"] del: upt_Suc)
  then have cl: "sd_cludes st' = pass_cludes expand NR W (rev [Suc n..<Suc hi])"
    using st inv by (simp add: pass_inv_def pass_cludes_def a del: upt_Suc)
  have low: "sd_lower st' \<le> e" if "e \<le> n" "sd_slist st' e \<noteq> sd_slist st' e AND S_DIFF" for e
  proof (cases "sd_slist st' e = sd_slist st e")
    case True
    then have "sd_lower st \<le> e" using that inv by (simp add: pass_inv_def)
    then show ?thesis using st by simp
  next
    case False
    then show ?thesis using st that by simp
  qed
  show ?thesis
    unfolding pass_inv_def
  proof (intro conjI allI impI)
    fix e assume e: "n < e \<and> e \<le> hi"
    show "sd_slist st' e = of_bool (expand \<and> bit (sl0 e) 0 \<noteq> pass_diff NL NR e)"
      using e st inv by (cases "e = Suc n") (simp_all add: pass_inv_def pass_diff_def a)
  qed (use st inv N cnt cl low t in \<open>simp_all add: pass_inv_def\<close>)
qed

lemma symdiff_loop_correct:
  assumes p: "pass_ok s cl expand hi NL NR W sl0"
  shows "t \<le> hi \<Longrightarrow> pass_inv s expand hi NL NR W sl0 t st \<Longrightarrow>
    \<exists>d st'. symdiff_loop s leftlist right dups cl expand t st = Some (d, st') \<and> d \<le> t \<and>
      pass_inv s expand hi NL NR W sl0 d st' \<and> sd_marked st' = 0"
proof (induction t arbitrary: st)
  case 0
  then show ?case by (simp add: pass_inv_def sd_ok_def)
next
  case (Suc n)
  show ?case
  proof (cases "sd_marked st = 0")
    case True
    with Suc.prems show ?thesis by auto
  next
    case False
    from symdiff_body_step [OF p _ Suc.prems, where leftlist = leftlist and right = right and dups = dups] obtain st1
      where b: "symdiff_body s leftlist right dups cl expand (Suc n) st = Some st1"
        and stp: "sd_step s cl expand (Suc n) (NR (Suc n)) (NL (Suc n)) st st1" by auto
    from Suc.IH [OF _ pass_inv_step [OF p Suc.prems stp]] Suc.prems(1) obtain d st'
      where "symdiff_loop s leftlist right dups cl expand n st1 = Some (d, st') \<and> d \<le> n \<and>
        pass_inv s expand hi NL NR W sl0 d st' \<and> sd_marked st' = 0" by auto
    with b False show ?thesis by (auto simp: TREE_def)
  qed
qed
section \<open>Before and after the pass\<close>

definition diff_map :: "slist \<Rightarrow> bool" where
  "diff_map sl \<longleftrightarrow> (\<forall>e. sl e = of_bool (bit (sl e) 0))"

lemma diff_map_bits: "diff_map sl \<Longrightarrow> sl e AND S_DIFF = sl e" "diff_map sl \<Longrightarrow> 1 \<le> k \<Longrightarrow> \<not> bit (sl e) k"
proof -
  assume d: "diff_map sl"
  then have e: "sl e = of_bool (bit (sl e) 0)" by (simp add: diff_map_def)
  show b: "1 \<le> k \<Longrightarrow> \<not> bit (sl e) k" for k by (subst e) (auto simp: bit_simps)
  show "sl e AND S_DIFF = sl e"
    using b by (auto simp: word_bits_eq bit_and_iff bit_macros) (metis Suc_le_eq gr0I)
qed

lemma diff_map_marks:
  assumes "diff_map sl"
  shows "sdl_marks sl = ((\<lambda>_. False), \<lambda>_. None)" "sdr_marks sl = ((\<lambda>_. False), \<lambda>_. None)"
  using diff_map_bits(2) [OF assms]
  by (simp_all add: sdl_marks_def sdr_marks_def byte_marks_def clude_bits_def)

definition map_count :: "slist \<Rightarrow> ser \<Rightarrow> int" where
  "map_count sl t = (\<Sum>e = 1..t. of_bool (bit (sl e) 0))"

lemma wsum_diff_map: "diff_map sl \<Longrightarrow> wsum expand sl t = (if expand then 0 else map_count sl t)"
  using diff_map_bits(2) [of sl] by (simp add: wsum_def map_count_def wt_def S_DIFFERENT_iff)

definition right_tips :: "ser \<Rightarrow> ser set" where
  "right_tips right = (if right = 0 then {} else {right})"

lemma sd_start_ge: "\<forall>d\<in>set leftlist. d \<le> sd_start leftlist right" "right \<le> sd_start leftlist right"
  unfolding sd_start_def
  by (auto intro: fold_max_ge(2) le_max_iff_disj [THEN iffD2, OF disjI2])

lemma sd_start_le: "\<forall>d\<in>set leftlist. d \<le> b \<Longrightarrow> right \<le> b \<Longrightarrow> sd_start leftlist right \<le> b"
  unfolding sd_start_def by (rule fold_max_le) auto

lemma sd_seed_marks:
  assumes dm: "diff_map (sd_slist st)" and L: "\<forall>d\<in>set leftlist. 1 \<le> d \<and> d \<le> hi" and R: "right \<le> hi" and ok: "sd_ok expand hi st"
  shows "sd_ok expand hi (sd_seed leftlist right st) \<and> touched (set leftlist \<union> right_tips right) st (sd_seed leftlist right st) \<and>
    sdl_marks (sd_slist (sd_seed leftlist right st)) = ((\<lambda>e. e \<in> set leftlist), \<lambda>_. None) \<and>
    sdr_marks (sd_slist (sd_seed leftlist right st)) = ((\<lambda>e. e \<in> right_tips right), \<lambda>_. None)"
proof -
  have pl: "SL_PAR = SL_PAR AND (SL_PAR OR SR_PAR)" and pr: "SR_PAR = SR_PAR AND (SL_PAR OR SR_PAR)"
    by (simp_all add: SL_PAR_def SR_PAR_def)
  define st1 where "st1 = fold (\<lambda>d. update d SL_PAR) leftlist st"
  from update_par_fold [OF pl L ok] have
    1: "sd_ok expand hi st1" "touched (set leftlist) st st1" "sdr_marks (sd_slist st1) = ((\<lambda>_. False), \<lambda>_. None)"
       "sdl_marks (sd_slist st1) = ((\<lambda>e. e \<in> set leftlist), \<lambda>_. None)"
    by (auto simp: st1_def bit_macros diff_map_marks [OF dm] m_par_def)
  show ?thesis
  proof (cases "right = 0")
    case True
    with 1 show ?thesis by (simp add: sd_seed_def st1_def [symmetric] right_tips_def)
  next
    case False
    then have "\<forall>e\<in>set [right]. 1 \<le> e \<and> e \<le> hi" using R by simp
    from update_par_fold [OF pr this 1(1)] 1 False touched_trans [OF 1(2), of "{right}" "update right SR_PAR st1"] show ?thesis
      by (auto simp: sd_seed_def st1_def [symmetric] right_tips_def bit_macros m_par_def)
  qed
qed

lemma fold_clean: "fold (\<lambda>d sl. sl(d := sl d AND S_DIFF)) ds sl e = (if e \<in> set ds then sl e AND S_DIFF else sl e)"
  by (induction ds arbitrary: sl) (auto simp: and.assoc)

lemma sd_clean_eq:
  assumes "pass_inv s expand hi NL NR W sl0 d st"
  shows "sd_clean d st e = (if e \<le> d then sd_slist st e AND S_DIFF else sd_slist st e)"
proof -
  have l: "1 \<le> sd_lower st" "e \<le> d \<Longrightarrow> sd_slist st e \<noteq> sd_slist st e AND S_DIFF \<Longrightarrow> sd_lower st \<le> e"
    and lv: "sl_live s (sd_slist st)"
    using assms by (auto simp: pass_inv_def)
  have "sd_slist st 0 = 0" using lv by (auto simp: sl_live_def live_def)
  then show ?thesis
    using l by (auto simp: sd_clean_def fold_clean simp del: upt_Suc)
qed

text \<open>Below the serial where the pass stops, nothing differs any more.\<close>

lemma pass_tail:
  assumes p: "pass_ok s cl expand hi NL NR W sl0" and d: "d \<le> hi"
    and ag: "agree d (NL d) (NR d)" and b: "\<not> expand \<Longrightarrow> \<forall>e\<le>d. \<not> bit (sl0 e) 0"
  shows "e \<le> d \<Longrightarrow> agree d (NL e) (NR e) \<and>
    (1 \<le> e \<longrightarrow> m_active (NL e) e = m_active (NR e) e \<and> W e = m_active (NR e) e)"
proof (induction "d - e" arbitrary: e)
  case 0
  then have e: "e = d" by simp
  have "1 \<le> d \<Longrightarrow> W d = sd_want expand (bit (sl0 d) 0) (m_active (NL d) d) (m_active (NR d) d)"
    using p d by (simp add: pass_ok_def)
  then show ?case using ag agree_active [OF ag order_refl] b e by (auto simp: sd_want_def)
next
  case (Suc k)
  then have ih: "agree d (NL (Suc e)) (NR (Suc e))" "W (Suc e) = m_active (NR (Suc e)) (Suc e)" and e: "e < d" by auto
  have "NL e = m_step (gE s) (sdK s cl) (Suc e) (NL (Suc e))" "NR e = f_step (gE s) (sdK s cl) W (Suc e) (NR (Suc e))"
    using p d e by (auto simp: pass_ok_def)
  then have a: "agree d (NL e) (NR e)"
    using agree_step [OF ih(1), of "Suc e" "gE s" "sdK s cl"] e ih(2) m_step_f_step [of "NR (Suc e)" "Suc e" W] by simp
  have "1 \<le> e \<Longrightarrow> W e = sd_want expand (bit (sl0 e) 0) (m_active (NL e) e) (m_active (NR e) e)"
    using p d e by (simp add: pass_ok_def)
  then show ?case using a agree_active [OF a, of e] b e by (auto simp: sd_want_def)
qed

lemma pass_seed:
  assumes p: "pass_ok s cl expand hi NL NR W sl0" and dm: "diff_map sl0" and sl: "sl_live s sl0"
    and L: "\<forall>d\<in>set leftlist. live s d" and R: "right = 0 \<or> live s right" and hi: "hi = sd_start leftlist right"
    and T: "1 \<le> TABLE s"
    and NL: "NL hi = ((\<lambda>e. e \<in> set leftlist), \<lambda>_. None)" and NR: "NR hi = ((\<lambda>e. e \<in> right_tips right), \<lambda>_. None)"
    and m: "mk = (if expand then 0 else map_count sl0 hi)"
  shows "pass_inv s expand hi NL NR W sl0 hi (sd_seed leftlist right
     \<lparr>sd_slist = sl0, sd_marked = mk, sd_lower = TABLE s, sd_count = 0, sd_cludes = [], sd_dups = dl\<rparr>)"
proof -
  define st0 where "st0 = \<lparr>sd_slist = sl0, sd_marked = mk, sd_lower = TABLE s, sd_count = 0, sd_cludes = [], sd_dups = dl\<rparr>"
  define st where "st = sd_seed leftlist right st0"
  have ok: "sd_ok expand hi st0" by (simp add: st0_def sd_ok_def wsum_diff_map [OF dm] m)
  have L1: "\<forall>d\<in>set leftlist. 1 \<le> d \<and> d \<le> hi" using L sd_start_ge(1) hi by (auto simp: live_def)
  have dm0: "diff_map (sd_slist st0)" by (simp add: st0_def dm)
  have "right \<le> hi" using sd_start_ge(2) hi by simp
  from sd_seed_marks [OF dm0 L1 this ok] have
    s: "sd_ok expand hi st" "sdl_marks (sd_slist st) = NL hi" "sdr_marks (sd_slist st) = NR hi"
    and tch: "touched (set leftlist \<union> right_tips right) st0 st"
    by (auto simp: st_def NL NR)
  have es: "1 \<le> e \<and> live s e" if "e \<in> set leftlist \<union> right_tips right" for e
    using that L R by (auto simp: right_tips_def live_def split: if_splits)
  have le: "e \<le> hi" if "e \<in> set leftlist \<union> right_tips right" for e
    using that L1 \<open>right \<le> hi\<close> by (auto simp: right_tips_def split: if_splits)
  have un: "sd_slist st e = sl0 e" if "e \<notin> set leftlist \<union> right_tips right" for e
    using tch that by (simp add: touched_def st0_def)
  have lv: "sl_live s (sd_slist st)"
    unfolding sl_live_def using es un sl unfolding sl_live_def by metis
  have low: "sd_lower st \<le> e" if "sd_slist st e \<noteq> sd_slist st e AND S_DIFF" for e
  proof -
    have "e \<in> set leftlist \<union> right_tips right" using un [of e] that diff_map_bits(1) [OF dm, of e] by metis
    then show ?thesis using tch by (simp add: touched_def)
  qed
  have "1 \<le> sd_lower st" "sd_count st = 0" "sd_cludes st = []" "\<forall>e. bit (sd_slist st e) 0 = bit (sl0 e) 0"
    using tch es T by (auto simp: touched_def st0_def)
  moreover have "\<forall>e>hi. sd_slist st e = sl0 e" using un le by (metis leD)
  ultimately show ?thesis
    using s lv low unfolding st0_def [symmetric] st_def [symmetric]
    by (auto simp: pass_inv_def pass_cludes_def agree_def)
qed

lemma pass_end:
  assumes p: "pass_ok s cl expand hi NL NR W sl0" and d: "d \<le> hi"
    and inv: "pass_inv s expand hi NL NR W sl0 d st" and m: "sd_marked st = 0"
  shows "sd_clean d st = (\<lambda>e. if 1 \<le> e \<and> e \<le> hi then of_bool (expand \<and> bit (sl0 e) 0 \<noteq> pass_diff NL NR e) else if e = 0 then 0 else sl0 e)"
    "sd_count st = (\<Sum>e = 1..hi. pass_count expand NL NR sl0 e)"
    "sd_cludes st = pass_cludes expand NR W (rev [1..<Suc hi])"
proof -
  have i: "agree d (sdr_marks (sd_slist st)) (NR d)" "agree d (sdl_marks (sd_slist st)) (NL d)" "sd_ok expand d st"
    "sl_live s (sd_slist st)" "\<And>e. e \<le> d \<Longrightarrow> bit (sd_slist st e) 0 = bit (sl0 e) 0"
    and res: "\<And>e. d < e \<Longrightarrow> e \<le> hi \<Longrightarrow> sd_slist st e = of_bool (expand \<and> bit (sl0 e) 0 \<noteq> pass_diff NL NR e)"
    "\<And>e. e > hi \<Longrightarrow> sd_slist st e = sl0 e"
    and cnt: "sd_count st = (\<Sum>e\<in>{d<..hi}. pass_count expand NL NR sl0 e)"
    and cld: "sd_cludes st = pass_cludes expand NR W (rev [Suc d..<Suc hi])"
    using inv by (auto simp: pass_inv_def)
  have z: "sd_slist st 0 = 0" using i(4) by (auto simp: sl_live_def live_def)
  have w0: "wsum expand (sd_slist st) d = 0" using i(3) m by (simp add: sd_ok_def)
  have ag: "agree d (NL d) (NR d)"
    using wt_0_agree [OF w0 z] i(1,2) by (simp add: agree_def)
  have b: "\<forall>e\<le>d. \<not> bit (sl0 e) 0" if "\<not> expand"
  proof (intro allI impI)
    fix e assume "e \<le> d"
    then have "wt expand (sd_slist st e) = 0 \<or> e = 0" using w0 by (auto simp: wsum_eq_0)
    with that i(5) [OF \<open>e \<le> d\<close>] z show "\<not> bit (sl0 e) 0" by (auto simp: wt_def of_bool_def split: if_splits)
  qed
  note tail = pass_tail [OF p d ag b]
  have nd: "\<not> pass_diff NL NR e" "W e = m_active (NR e) e" if "1 \<le> e" "e \<le> d" for e
    using tail [OF _ that(2)] that(1) by (auto simp: pass_diff_def)
  have and1: "sd_slist st e AND S_DIFF = of_bool (bit (sl0 e) 0)" if "e \<le> d" for e
    using i(5) [OF that] by (auto simp: word_bits_eq bit_and_iff bit_macros bit_simps)
  show "sd_clean d st = (\<lambda>e. if 1 \<le> e \<and> e \<le> hi then of_bool (expand \<and> bit (sl0 e) 0 \<noteq> pass_diff NL NR e) else if e = 0 then 0 else sl0 e)"
  proof
    fix e
    show "sd_clean d st e = (if 1 \<le> e \<and> e \<le> hi then of_bool (expand \<and> bit (sl0 e) 0 \<noteq> pass_diff NL NR e) else if e = 0 then 0 else sl0 e)"
    proof (cases "e \<le> d")
      case True
      then have c: "sd_clean d st e = of_bool (bit (sl0 e) 0)" by (simp add: sd_clean_eq [OF inv] and1)
      show ?thesis
      proof (cases "e = 0")
        case z0: True
        then show ?thesis using c i(5) [OF True] z by simp
      next
        case False
        then show ?thesis using c nd(1) [of e] b True d by (cases expand) auto
      qed
    next
      case False
      then show ?thesis using sd_clean_eq [OF inv, of e] res [of e] by (cases "e \<le> hi") auto
    qed
  qed
  have "{1..hi} = {1..d} \<union> {d<..hi}" using d by auto
  moreover have "(\<Sum>e = 1..d. pass_count expand NL NR sl0 e) = 0"
    using nd(1) by (intro sum.neutral) (auto simp: pass_count_def)
  ultimately show "sd_count st = (\<Sum>e = 1..hi. pass_count expand NL NR sl0 e)"
    using sum.union_disjoint [of "{1..d}" "{d<..hi}" "pass_count expand NL NR sl0"] by (simp add: cnt ivl_disj_int)
  have "[1..<Suc hi] = [1..<Suc d] @ [Suc d..<Suc hi]"
    using upt_add_eq_append [of 1 "Suc d" "hi - d"] d by simp
  moreover have "pass_cludes expand NR W (rev [1..<Suc d]) = []"
    using nd(2) by (auto simp: pass_cludes_def simp del: upt_Suc)
  ultimately show "sd_cludes st = pass_cludes expand NR W (rev [1..<Suc hi])"
    by (simp add: cld pass_cludes_def del: upt_Suc)
qed

text \<open>
  The pass on well-formed input: no assertion fails, the map is updated on exactly the serials
  up to the newest tip, and the recorded list holds the serials that the right side has to be
  corrected on.
\<close>

lemma symdiff_pass:
  assumes p: "pass_ok s cl expand hi NL NR W sl0" and dm: "diff_map sl0" and sl: "sl_live s sl0"
    and L: "\<forall>d\<in>set leftlist. live s d" and R: "right = 0 \<or> live s right" and hi: "hi = sd_start leftlist right"
    and T: "1 \<le> TABLE s" and ex: "expand = (cnt < 0)" "\<not> expand \<Longrightarrow> right \<noteq> 0"
    and NL: "NL hi = ((\<lambda>e. e \<in> set leftlist), \<lambda>_. None)" and NR: "NR hi = ((\<lambda>e. e \<in> right_tips right), \<lambda>_. None)"
    and m: "\<not> expand \<Longrightarrow> cnt = map_count sl0 hi"
  shows "\<exists>dl. symdiff s leftlist right dups sl0 cl cnt =
    Some (\<Sum>e = 1..hi. pass_count expand NL NR sl0 e,
      (\<lambda>e. if 1 \<le> e \<and> e \<le> hi then of_bool (expand \<and> bit (sl0 e) 0 \<noteq> pass_diff NL NR e) else if e = 0 then 0 else sl0 e),
      pass_cludes expand NR W (rev [1..<Suc hi]), dl)"
proof -
  define st where "st = sd_seed leftlist right \<lparr>sd_slist = sl0, sd_marked = (if expand then 0 else cnt), sd_lower = TABLE s,
    sd_count = 0, sd_cludes = [], sd_dups = (case dups of Some x \<Rightarrow> x | None \<Rightarrow> [])\<rparr>"
  have "pass_inv s expand hi NL NR W sl0 hi st"
    unfolding st_def using m by (intro pass_seed [OF p dm sl L R hi T NL NR]) auto
  from symdiff_loop_correct [OF p order_refl this, where leftlist = leftlist and right = right and dups = "dups \<noteq> None"]
  obtain d st' where lp: "symdiff_loop s leftlist right (dups \<noteq> None) cl expand hi st = Some (d, st')"
    and d: "d \<le> hi" and inv: "pass_inv s expand hi NL NR W sl0 d st'" and z: "sd_marked st' = 0" by blast
  have "symdiff s leftlist right dups sl0 cl cnt = Some (sd_count st', sd_clean d st', sd_cludes st', sd_dups st')"
    using lp z ex unfolding symdiff_def Let_def ex(1) [symmetric] st_def [symmetric] hi [symmetric] by auto
  with pass_end [OF p d inv z] show ?thesis by auto
qed

section \<open>Versions from the marks of the pass\<close>

lemma in_view_upto:
  assumes "older E K" and "\<forall>d\<in>S. d \<le> start" and "start \<le> hi" and "t \<le> start"
  shows "m_active (m_upto E K start t ((\<lambda>e. e \<in> S), \<lambda>_. None)) t = in_view E K hi S (\<lambda>_. None) t"
proof -
  have "\<forall>d\<in>S. d \<le> hi" using assms(2,3) by auto
  from m_upto_active [OF assms(1) this, of t "\<lambda>_. None"] assms(3,4)
  have "m_active (m_upto E K hi t ((\<lambda>e. e \<in> S), \<lambda>_. None)) t = in_view E K hi S (\<lambda>_. None) t" by simp
  moreover have "m_upto E K hi t ((\<lambda>e. e \<in> S), \<lambda>_. None) = m_upto E K start t ((\<lambda>e. e \<in> S), \<lambda>_. None)"
    using assms by (intro m_upto_start) auto
  ultimately show ?thesis by simp
qed

lemma in_view_above:
  assumes "older E K" and "\<forall>d\<in>S. d \<le> start" and "start < t"
  shows "\<not> in_view E K hi S (\<lambda>_. None) t"
proof (cases "t \<le> hi")
  case True
  have "\<forall>d\<in>S. d \<le> t" using assms(2,3) by auto
  from in_view_upto [OF assms(1) this True order_refl] assms(2,3) show ?thesis
    by (auto simp: m_active_def)
next
  case False
  then have "\<not> lineage E S t" using lineage_le [OF _ assms(1), of S t start] assms(2,3) by auto
  with False show ?thesis by (subst in_view_votes) simp
qed

text \<open>The newest tip does not matter for the versions below it.\<close>

lemma m_upto_cong: "\<forall>u. t < u \<and> u \<le> hi \<longrightarrow> E u = E' u \<and> K u = K' u \<Longrightarrow> m_upto E K hi t M = m_upto E' K' hi t M"
proof (induction "hi - t" arbitrary: t)
  case 0
  then show ?case by simp
next
  case (Suc n)
  then have "t < hi" by simp
  moreover have "m_step E K (Suc t) N = m_step E' K' (Suc t) N" for N
    using Suc.prems calculation by (simp add: m_step_def)
  ultimately show ?case using Suc by (simp add: m_upto_step)
qed

lemma in_view_cong:
  assumes "older E K" "older E' K'" and "\<forall>d\<in>S. d \<le> start" and "start \<le> hi"
    and "\<forall>u. u \<le> start \<longrightarrow> E u = E' u \<and> K u = K' u"
  shows "in_view E K hi S (\<lambda>_. None) t = in_view E' K' hi S (\<lambda>_. None) t"
proof (cases "t \<le> start")
  case True
  then show ?thesis
    using in_view_upto [OF assms(1,3,4) True] in_view_upto [OF assms(2,3,4) True]
      m_upto_cong [of t start E E' K K'] assms(5) by simp
next
  case False
  then show ?thesis using in_view_above [OF assms(1,3)] in_view_above [OF assms(2,3)] by simp
qed

definition cview :: "sccs \<Rightarrow> (ser \<Rightarrow> nat) option \<Rightarrow> ser set \<Rightarrow> ser \<Rightarrow> bool" where
  "cview s cl S t = in_view (gE s) (sdK s cl) (TABLE s) S (\<lambda>_. None) t"

lemma cview_view: "cview s None S t = view s S (\<lambda>_. None) t"
  by (simp add: cview_def view_def)

section \<open>Expanding\<close>

lemma symdiff_expand_pass:
  assumes gl: "graph_live s (gE s) (sdK s cl)" and ng: "no_gone s" and dm: "diff_map sl0" and sl: "sl_live s sl0"
    and L: "\<forall>d\<in>set leftlist. live s d" and R: "right = 0 \<or> live s right" and T: "1 \<le> TABLE s"
  defines "df \<equiv> \<lambda>e. cview s cl (set leftlist) e \<noteq> cview s cl (right_tips right) e"
  shows "\<exists>dl. symdiff s leftlist right dups sl0 cl (-1) =
    Some (\<Sum>e = 1..TABLE s. (if df e then if bit (sl0 e) 0 then -1 else 1 else 0),
      (\<lambda>e. of_bool (bit (sl0 e) 0 \<noteq> df e)), [], dl)"
proof -
  let ?hi = "sd_start leftlist right"
  define NL where "NL = (\<lambda>t. m_upto (gE s) (sdK s cl) ?hi t ((\<lambda>e. e \<in> set leftlist), \<lambda>_. None))"
  define NR where "NR = (\<lambda>t. m_upto (gE s) (sdK s cl) ?hi t ((\<lambda>e. e \<in> right_tips right), \<lambda>_. None))"
  define W where "W = (\<lambda>t. m_active (NR t) t)"
  have old: "older (gE s) (sdK s cl)" by (rule older_live [OF gl])
  have hi: "?hi \<le> TABLE s" using L R by (intro sd_start_le) (auto simp: live_def)
  have SL: "\<forall>d\<in>set leftlist. d \<le> ?hi" and SR: "\<forall>d\<in>right_tips right. d \<le> ?hi"
    using sd_start_ge by (auto simp: right_tips_def)
  have "marks_live s ((\<lambda>e. e \<in> set leftlist), \<lambda>_. None)" "marks_live s ((\<lambda>e. e \<in> right_tips right), \<lambda>_. None)"
    using L R by (auto simp: marks_live_def right_tips_def split: if_splits)
  then have ml: "marks_live s (NL t)" "marks_live s (NR t)" for t
    unfolding NL_def NR_def by (simp_all add: marks_live_upto [OF gl])
  have p: "pass_ok s cl True ?hi NL NR W sl0"
    unfolding pass_ok_def using gl ng hi ml
    by (auto simp: NL_def NR_def m_upto_step W_def sd_want_def intro!: m_step_f_step)
  have vw: "m_active (NL e) e = cview s cl (set leftlist) e" "m_active (NR e) e = cview s cl (right_tips right) e"
    if "e \<le> ?hi" for e
    unfolding NL_def NR_def cview_def
    using in_view_upto [OF old SL hi that] in_view_upto [OF old SR hi that] by simp_all
  have pd: "pass_diff NL NR e = df e" if "e \<le> ?hi" for e
    using vw [OF that] by (simp add: pass_diff_def df_def)
  have up: "\<not> df e" if "?hi < e" for e
    using in_view_above [OF old SL that] in_view_above [OF old SR that] by (simp add: df_def cview_def)
  have z: "sl0 0 = 0" using sl by (auto simp: sl_live_def live_def)
  have "\<not> live s 0" by (simp add: live_def)
  then have "\<not> m_active (NL 0) 0" "\<not> m_active (NR 0) 0"
    using ml [of 0] by (auto simp: marks_live_def m_active_def split: option.splits)
  then have d0: "\<not> df 0" using pd [of 0] by (simp add: pass_diff_def)
  from symdiff_pass [OF p dm sl L R refl T _ _ _ _, of "-1" dups]
  obtain dl where r: "symdiff s leftlist right dups sl0 cl (-1) =
    Some (\<Sum>e = 1..?hi. pass_count True NL NR sl0 e,
      (\<lambda>e. if 1 \<le> e \<and> e \<le> ?hi then of_bool (True \<and> bit (sl0 e) 0 \<noteq> pass_diff NL NR e) else if e = 0 then 0 else sl0 e),
      pass_cludes True NR W (rev [1..<Suc ?hi]), dl)"
    by (auto simp: NL_def NR_def)
  have mp: "(if 1 \<le> e \<and> e \<le> ?hi then of_bool (True \<and> bit (sl0 e) 0 \<noteq> pass_diff NL NR e) else if e = 0 then 0 else sl0 e) =
      of_bool (bit (sl0 e) 0 \<noteq> df e)" for e
    using pd [of e] up [of e] d0 z dm by (cases "e = 0"; cases "e \<le> ?hi") (auto simp: diff_map_def)
  have "(\<Sum>e = 1..?hi. pass_count True NL NR sl0 e) = (\<Sum>e = 1..?hi. (if df e then if bit (sl0 e) 0 then -1 else 1 else 0))"
    using pd by (intro sum.cong) (auto simp: pass_count_def)
  also have "\<dots> = (\<Sum>e = 1..TABLE s. (if df e then if bit (sl0 e) 0 then -1 else 1 else 0))"
    using hi up by (intro sum.mono_neutral_left) auto
  finally have "(\<Sum>e = 1..?hi. pass_count True NL NR sl0 e) = \<dots>" .
  moreover have "pass_cludes True NR W es = []" for es by (simp add: pass_cludes_def)
  ultimately show ?thesis using r unfolding mp by auto
qed

end
