(* ===== verification/BK_Graph.thy ===== *)
theory BK_Graph
  imports BK_Symdiff
begin

text \<open>
  The interface of \<open>libgraph.c\<close> on top of \<open>symdiff\<close>: \<open>symdiff_expand\<close>, \<open>symdiff_compress\<close> (through
  \<open>comp\<close>, which stores the computed list on the delta), the check for duplicates, and the
  conversion of a file between the two styles of storing merges.  The second half is the walk
  over the kid pointers.
\<close>

section \<open>Storing a computed list\<close>

definition CLUDES_INDEX_SET :: "sccs \<Rightarrow> ser \<Rightarrow> nat \<Rightarrow> sccs" where
  "CLUDES_INDEX_SET s d off = s\<lparr>slist1 := (slist1 s)(d := (slist1 s d)\<lparr>d_cludes := off\<rparr>)\<rparr>"

definition sd_includes :: "u32 list \<Rightarrow> ser list" where
  "sd_includes x = map unat (filter (\<lambda>d. d AND HIBIT = 0) x)"

definition sd_excludes :: "u32 list \<Rightarrow> ser list" where
  "sd_excludes x = map (\<lambda>d. unat (d AND NOT HIBIT)) (filter (\<lambda>d. d AND HIBIT \<noteq> 0) x)"

definition comp :: "sccs \<Rightarrow> ser list \<Rightarrow> ser \<Rightarrow> u32 list \<Rightarrow> slist \<Rightarrow> int \<Rightarrow> (sccs \<times> slist) option" where
  "comp s leftlist right dups slist cnt =
     (if cnt < 0 then None
      else
        (let orig = CLUDES_INDEX s right;
             s = CLUDES_SET s right None
         in case symdiff s leftlist right None slist None cnt of
              None \<Rightarrow> None
            | Some (_, sl, cludes, _) \<Rightarrow>
                (let x = cludes @ dups;
                     incl = sd_includes x;
                     excl = sd_excludes x;
                     p = saveNums (clude_list incl excl)
                 in Some (if incl = [] \<and> excl = [] then s
                          else if p = HEAP s orig then CLUDES_INDEX_SET s right orig
                          else CLUDES_SET s right (Some p), sl))))"

definition symdiff_expand :: "sccs \<Rightarrow> ser list \<Rightarrow> ser \<Rightarrow> slist \<Rightarrow> (int \<times> slist) option" where
  "symdiff_expand s leftlist right slist =
     map_option (\<lambda>(n, sl, _, _). (n, sl)) (symdiff s leftlist right None slist None (-1))"

definition symdiff_compress :: "sccs \<Rightarrow> ser list \<Rightarrow> ser \<Rightarrow> slist \<Rightarrow> int \<Rightarrow> (sccs \<times> slist) option" where
  "symdiff_compress s leftlist right slist cnt = comp s leftlist right [] slist cnt"

text \<open>The macro \<open>L\<close> makes an array of one element, or a null pointer from 0.\<close>

definition L :: "ser \<Rightarrow> ser list" where
  "L d = (if d \<noteq> 0 then [d] else [])"

definition graph_hasDups :: "sccs \<Rightarrow> ser \<Rightarrow> slist \<Rightarrow> (bool \<times> slist) option" where
  "graph_hasDups s d slist =
     map_option (\<lambda>(_, sl, _, dups). (dups \<noteq> [], sl)) (symdiff s (L (PARENT s d)) d (Some []) slist None (-1))"

fun graph_check_loop :: "sccs \<Rightarrow> ser list \<Rightarrow> slist \<Rightarrow> bool \<Rightarrow> bool option" where
  "graph_check_loop s [] slist ret = Some ret"
| "graph_check_loop s (d # ds) slist ret =
     (if TAG s d \<or> FLAGS s d AND D_GONE \<noteq> 0 \<or> MERGE s d = 0 \<and> CLUDES_INDEX s d = 0
      then graph_check_loop s ds slist ret
      else (case graph_hasDups s d slist of
              None \<Rightarrow> None
            | Some (dup, slist) \<Rightarrow> graph_check_loop s ds slist (ret \<or> dup)))"

definition graph_check :: "sccs \<Rightarrow> bool option" where
  "graph_check s = graph_check_loop s [1..<Suc (TABLE s)] (\<lambda>_. 0) False"

text \<open>
  \<open>graph_convert\<close>, without the pending edit of the p.file: for every delta with a merge or a
  list, the difference to the parent is expanded in the old style with the old lists and
  compressed in the new style.
\<close>

definition flip_merge :: "sccs \<Rightarrow> sccs" where
  "flip_merge s = s\<lparr>encoding_in := encoding_in s XOR E_BKMERGE\<rparr>"

definition convert_delta :: "ser \<Rightarrow> sccs \<times> slist \<times> (ser \<Rightarrow> nat) \<Rightarrow> (sccs \<times> slist \<times> (ser \<Rightarrow> nat)) option" where
  "convert_delta d = (\<lambda>(s, slist, cludes).
     if TAG s d \<or> FLAGS s d AND D_GONE \<noteq> 0 \<or> MERGE s d = 0 \<and> CLUDES_INDEX s d = 0
     then Some (s, slist, cludes)
     else
       (let cludes = cludes(d := CLUDES_INDEX s d)
        in case symdiff s (L (PARENT s d)) d (Some []) slist (Some cludes) (-1) of
             None \<Rightarrow> None
           | Some (cnt, slist, _, dups) \<Rightarrow>
               (case comp (flip_merge s) (L (PARENT s d)) d dups slist cnt of
                  None \<Rightarrow> None
                | Some (s, slist) \<Rightarrow> Some (flip_merge s, slist, cludes))))"

fun convert_loop :: "ser list \<Rightarrow> sccs \<times> slist \<times> (ser \<Rightarrow> nat) \<Rightarrow> (sccs \<times> slist \<times> (ser \<Rightarrow> nat)) option" where
  "convert_loop [] st = Some st"
| "convert_loop (d # ds) st = (case convert_delta d st of None \<Rightarrow> None | Some st \<Rightarrow> convert_loop ds st)"

definition graph_convert :: "sccs \<Rightarrow> sccs option" where
  "graph_convert s =
     map_option (\<lambda>(s, _, _). flip_merge s) (convert_loop [1..<Suc (TABLE s)] (s, \<lambda>_. 0, \<lambda>_. 0))"

section \<open>Expanding\<close>

lemma ex_file_live: "live ex_file d \<longleftrightarrow> 1 \<le> d \<and> d \<le> 5"
proof -
  have "\<forall>d\<in>set [1..<6]. live ex_file d" by code_simp
  moreover have "TABLE ex_file = 5" by (simp add: TABLE_def ex_file_def)
  ultimately show ?thesis by (auto simp: live_def)
qed

lemma ex_file_heap: "heap_wf ex_file" "no_gone ex_file"
  by code_simp+

lemma ex_diff_map: "diff_map (\<lambda>e. of_bool (P e))"
  by (auto simp: diff_map_def)

text \<open>
  C6.  \<open>symdiff_expand\<close> adds the difference of two versions to a map: the entry of every delta is
  flipped exactly when one of the two versions has the delta and the other does not, all the
  other bits of the map are clear again, no assertion fails although the pass stops early,
  and the returned count is the change of the number of ones.
\<close>

theorem symdiff_expand_diff:
  assumes wf: "wf_graph s" and ng: "no_gone s" and dm: "diff_map sl" and lv: "sl_live s sl"
    and lt: "\<forall>d\<in>set leftlist. live s d" and rt: "right = 0 \<or> live s right" and T: "1 \<le> TABLE s"
  shows "\<exists>n sl'. symdiff_expand s leftlist right sl = Some (n, sl') \<and>
    (\<forall>e. sl' e = of_bool (bit (sl e) 0 \<noteq>
       (view s (set leftlist) (\<lambda>_. None) e \<noteq> view s (right_tips right) (\<lambda>_. None) e))) \<and>
    n = map_count sl' (TABLE s) - map_count sl (TABLE s)"
proof -
  have gl: "graph_live s (gE s) (sdK s None)" using graph_live_wf [OF wf] by simp
  let ?df = "\<lambda>e. view s (set leftlist) (\<lambda>_. None) e \<noteq> view s (right_tips right) (\<lambda>_. None) e"
  let ?sl = "\<lambda>e. of_bool (bit (sl e) 0 \<noteq> ?df e)"
  from symdiff_expand_pass [OF gl ng dm lv lt rt T, of None]
  have "symdiff_expand s leftlist right sl =
      Some (\<Sum>e = 1..TABLE s. (if ?df e then if bit (sl e) 0 then -1 else 1 else 0), ?sl)"
    by (auto simp: symdiff_expand_def cview_view)
  moreover have "(\<Sum>e = 1..TABLE s. (if ?df e then if bit (sl e) 0 then -1 else 1 else 0)) =
      map_count ?sl (TABLE s) - map_count sl (TABLE s)"
    unfolding map_count_def sum_subtractf [symmetric] by (intro sum.cong) auto
  ultimately show ?thesis by blast
qed

theorem symdiff_expand_diff_witness:
  "\<exists>n sl'. symdiff_expand ex_file [3] 5 (\<lambda>_. 0) = Some (n, sl') \<and>
    (\<forall>e. sl' e = of_bool (view ex_file {3} (\<lambda>_. None) e \<noteq> view ex_file {5} (\<lambda>_. None) e)) \<and>
    n = map_count sl' 5"
proof -
  have "TABLE ex_file = 5" by (simp add: TABLE_def ex_file_def)
  moreover have "map_count (\<lambda>_. 0) 5 = 0" by (simp add: map_count_def)
  moreover have "diff_map (\<lambda>_. 0)" by (simp add: diff_map_def)
  ultimately show ?thesis
    using symdiff_expand_diff [OF ex_file_wf ex_file_heap(2), of "\<lambda>_. 0" "[3]" 5]
    by (auto simp: sl_live_def ex_file_live right_tips_def)
qed

section \<open>Compressing\<close>

text \<open>The entries that the pass records, decoded.\<close>

lemma HIBIT_bit [bit_macros]: "bit HIBIT n \<longleftrightarrow> n = 31"
proof -
  have "HIBIT = push_bit 31 1" by (simp add: HIBIT_def push_bit_eq_mult)
  then show ?thesis by (rule one_hot_bit) simp
qed

lemma sd_entry_decode:
  assumes "t < 2 ^ 31"
  shows "sd_entry t w AND HIBIT = 0 \<longleftrightarrow> w" "w \<Longrightarrow> unat (sd_entry t w) = t"
    "\<not> w \<Longrightarrow> unat (sd_entry t w AND NOT HIBIT) = t"
proof -
  have "(of_nat t :: u32) = take_bit 31 (of_nat t)"
    using assms by (simp add: take_bit_of_nat take_bit_nat_eq_self)
  then have b: "\<not> bit (of_nat t :: u32) 31" by (metis bit_take_bit_iff less_irrefl)
  have h: "x AND HIBIT = 0 \<longleftrightarrow> \<not> bit x 31" for x :: u32
    using one_hot_and [of HIBIT 31 x] by (simp add: HIBIT_def push_bit_eq_mult)
  show "sd_entry t w AND HIBIT = 0 \<longleftrightarrow> w"
    unfolding h by (simp add: sd_entry_def b bit_or_iff bit_macros)
  show "w \<Longrightarrow> unat (sd_entry t w) = t"
    using assms by (simp add: sd_entry_def unat_of_nat take_bit_nat_eq_self)
  have "(of_nat t OR HIBIT) AND NOT HIBIT = (of_nat t :: u32)"
    using b by (auto simp: word_bits_eq bit_and_iff bit_or_iff bit_not_iff bit_macros)
  then show "\<not> w \<Longrightarrow> unat (sd_entry t w AND NOT HIBIT) = t"
    using assms by (simp add: sd_entry_def unat_of_nat take_bit_nat_eq_self)
qed

lemma clude_in_clude_list:
  assumes "set incl \<inter> set excl = {}"
  shows "clude_in (clude_list incl excl) t =
    (if t \<in> set incl then Some True else if t \<in> set excl then Some False else None)"
proof -
  have m: "map_of (map (\<lambda>t. (t, c)) xs) t = (if t \<in> set xs then Some c else None)" for c :: int and xs
    by (induction xs) auto
  show ?thesis using assms by (auto simp: clude_in_def clude_list_def map_add_def m map_of_append)
qed

text \<open>
  Lists whose entries agree with the wanted set, and that have every serial where the walk
  disagrees with it: the includes and excludes of the pass, and any duplicates kept with them.
\<close>

definition entries_ok :: "sccs \<Rightarrow> ser \<Rightarrow> (ser \<Rightarrow> bool) \<Rightarrow> u32 list \<Rightarrow> bool" where
  "entries_ok s right W xs \<longleftrightarrow> (\<forall>x\<in>set xs. \<exists>t. x = sd_entry t (W t) \<and> t < right \<and> live s t)"

lemma entries_decode:
  assumes "entries_ok s right W xs" and "right < 2 ^ 31"
  shows "t \<in> set (sd_includes xs) \<longleftrightarrow> sd_entry t (W t) \<in> set xs \<and> W t \<and> t < right \<and> live s t"
    and "t \<in> set (sd_excludes xs) \<longleftrightarrow> sd_entry t (W t) \<in> set xs \<and> \<not> W t \<and> t < right \<and> live s t"
proof -
  have dec: "u < right \<Longrightarrow> (sd_entry u w AND HIBIT = 0 \<longleftrightarrow> w) \<and> (w \<longrightarrow> unat (sd_entry u w) = u) \<and>
      (\<not> w \<longrightarrow> unat (sd_entry u w AND NOT HIBIT) = u)" for u w
    using sd_entry_decode [of u w] assms(2) by auto
  show "t \<in> set (sd_includes xs) \<longleftrightarrow> sd_entry t (W t) \<in> set xs \<and> W t \<and> t < right \<and> live s t"
  proof
    assume "t \<in> set (sd_includes xs)"
    then obtain x where x: "x \<in> set xs" "x AND HIBIT = 0" "t = unat x" by (auto simp: sd_includes_def)
    with assms(1) obtain u where u: "x = sd_entry u (W u)" "u < right" "live s u" by (auto simp: entries_ok_def)
    with x dec [of u "W u"] show "sd_entry t (W t) \<in> set xs \<and> W t \<and> t < right \<and> live s t" by auto
  next
    assume a: "sd_entry t (W t) \<in> set xs \<and> W t \<and> t < right \<and> live s t"
    with dec [of t "W t"] show "t \<in> set (sd_includes xs)" by (force simp: sd_includes_def)
  qed
  show "t \<in> set (sd_excludes xs) \<longleftrightarrow> sd_entry t (W t) \<in> set xs \<and> \<not> W t \<and> t < right \<and> live s t"
  proof
    assume "t \<in> set (sd_excludes xs)"
    then obtain x where x: "x \<in> set xs" "x AND HIBIT \<noteq> 0" "t = unat (x AND NOT HIBIT)" by (auto simp: sd_excludes_def)
    with assms(1) obtain u where u: "x = sd_entry u (W u)" "u < right" "live s u" by (auto simp: entries_ok_def)
    with x dec [of u "W u"] show "sd_entry t (W t) \<in> set xs \<and> \<not> W t \<and> t < right \<and> live s t" by auto
  next
    assume a: "sd_entry t (W t) \<in> set xs \<and> \<not> W t \<and> t < right \<and> live s t"
    with dec [of t "W t"] show "t \<in> set (sd_excludes xs)" by (force simp: sd_excludes_def)
  qed
qed

text \<open>A list on the tip itself acts as a list of the user.\<close>

lemma in_view_tip_list:
  assumes C: "\<And>e sign. (e, sign) \<in> set C \<Longrightarrow> e < right" and K: "K right = []"
  shows "t \<le> right \<Longrightarrow> in_view E (K(right := C)) right {right} (\<lambda>_. None) t = in_view E K right {right} (clude_in C) t"
proof (induction "right - t" arbitrary: t rule: less_induct)
  case less
  have tip: "lineage E {right} right" by (rule lineage_tip) simp
  have c: "clude_in C right = None" using C clude_in_SomeD by (metis less_irrefl option.exhaust)
  have top: "in_view E (K(right := C)) right {right} (\<lambda>_. None) right"
    by (subst in_view_votes) (simp add: tip)
  show ?case
  proof (cases "t = right")
    case True
    then show ?thesis using c tip by (subst (1 2) in_view_votes) simp
  next
    case False
    with less.prems have t: "t < right" by simp
    have sp: "rev [Suc t..<Suc right] = right # rev [Suc t..<right]" using t by simp
    let ?W = "in_view E (K(right := C)) right {right} (\<lambda>_. None)" and ?V = "in_view E K right {right} (clude_in C)"
    have mp: "map (\<lambda>u. if ?W u then clude_in ((K(right := C)) u) t else None) (rev [Suc t..<right]) =
        map (\<lambda>u. if ?V u then clude_in (K u) t else None) (rev [Suc t..<right])"
      using less(1) t by auto
    have "clude_in [] t = None" by (simp add: clude_in_def)
    then show ?thesis
      unfolding in_view_votes [of E "K(right := C)" right "{right}" "\<lambda>_. None" t]
        in_view_votes [of E K right "{right}" "clude_in C" t] votes_def sp list.map mp
      using top K by (cases "clude_in C t") (simp_all del: upt_Suc)
  qed
qed

text \<open>Two states of a file with the same graph; only include/exclude lists may differ.\<close>

definition same_graph :: "sccs \<Rightarrow> sccs \<Rightarrow> bool" where
  "same_graph s s' \<longleftrightarrow> (\<forall>e. PARENT s' e = PARENT s e \<and> MERGE s' e = MERGE s e \<and> FLAGS s' e = FLAGS s e) \<and>
     tip s' = tip s \<and> encoding_in s' = encoding_in s"

lemma same_graph_refl: "same_graph s s"
  by (simp add: same_graph_def)

lemma same_graph_trans: "same_graph s s1 \<Longrightarrow> same_graph s1 s2 \<Longrightarrow> same_graph s s2"
  by (simp add: same_graph_def)

lemma same_graph_acc:
  assumes "same_graph s s'"
  shows "TABLE s' = TABLE s" "TAG s' = TAG s" "live s' = live s" "BKMERGE s' = BKMERGE s" "gE s' = gE s"
    "no_gone s' = no_gone s" "sl_live s' = sl_live s" "marks_live s' = marks_live s"
    "PARENT s' = PARENT s" "MERGE s' = MERGE s" "FLAGS s' = FLAGS s"
proof -
  show t: "TABLE s' = TABLE s" and g: "TAG s' = TAG s" and b: "BKMERGE s' = BKMERGE s"
    and p: "PARENT s' = PARENT s" and m: "MERGE s' = MERGE s" and f: "FLAGS s' = FLAGS s"
    using assms by (auto simp: same_graph_def TABLE_def TAG_def BKMERGE_def fun_eq_iff)
  then show l: "live s' = live s" by (simp add: live_def fun_eq_iff)
  show "gE s' = gE s" using p m b l by (simp add: gE_def edges_def fun_eq_iff)
  show "no_gone s' = no_gone s" "sl_live s' = sl_live s" "marks_live s' = marks_live s"
    using t l f by (simp_all add: no_gone_def sl_live_def marks_live_def fun_eq_iff)
qed

lemma same_graph_CLUDES_SET: "same_graph s (CLUDES_SET s d v)"
  by (simp add: same_graph_def graph_acc)

lemma set_concat_if: "set (concat (map (\<lambda>e. if P e then [f e] else []) es)) = f ` {e \<in> set es. P e}"
  by (induction es) auto

lemma symdiff_compress_pass:
  assumes gl: "graph_live s (gE s) (gK s)" and ng: "no_gone s" and dm: "diff_map sl" and sv: "sl_live s sl"
    and lt: "\<forall>d\<in>set leftlist. live s d \<and> d < right" and rt: "live s right" and up: "\<forall>e>right. sl e = 0"
  defines "W \<equiv> \<lambda>t. bit (sl t) 0 \<noteq> view s (set leftlist) (\<lambda>_. None) t"
  shows "\<exists>xs dl. symdiff s leftlist right None sl None (map_count sl right) = Some (0, \<lambda>_. 0, xs, dl) \<and>
    set xs = (\<lambda>t. sd_entry t (W t)) ` {t. 1 \<le> t \<and> t \<le> right \<and>
      m_active (f_upto (gE s) (gK s) W right t ((\<lambda>e. e \<in> {right}), \<lambda>_. None)) t \<noteq> W t}"
proof -
  have hi: "sd_start leftlist right = right"
    using sd_start_le [of leftlist right right] sd_start_ge(2) [of right leftlist] lt by (simp add: less_imp_le le_antisym)
  define NL where "NL = (\<lambda>t. m_upto (gE s) (gK s) right t ((\<lambda>e. e \<in> set leftlist), \<lambda>_. None))"
  define NR where "NR = (\<lambda>t. f_upto (gE s) (gK s) W right t ((\<lambda>e. e \<in> {right}), \<lambda>_. None))"
  have r: "1 \<le> right" "right \<le> TABLE s" using rt by (auto simp: live_def)
  have lt': "\<forall>d\<in>set leftlist. live s d" and le: "\<forall>d\<in>set leftlist. d \<le> right" using lt by auto
  have "marks_live s ((\<lambda>e. e \<in> set leftlist), \<lambda>_. None)" "marks_live s ((\<lambda>e. e \<in> {right}), \<lambda>_. None)"
    using lt rt by (auto simp: marks_live_def)
  then have ml: "marks_live s (NL t)" "marks_live s (NR t)" for t
    unfolding NL_def NR_def by (simp_all add: marks_live_upto [OF gl] marks_live_f_upto [OF gl] del: singleton_iff)
  have W: "W t = sd_want False (bit (sl t) 0) (m_active (NL t) t) (m_active (NR t) t)" if "t \<le> right" for t
    using in_view_upto [OF older_live [OF gl] le r(2) that] by (simp add: W_def sd_want_def NL_def view_def)
  have p: "pass_ok s None False right NL NR W sl"
    unfolding pass_ok_def using gl ng r ml W by (auto simp: NL_def NR_def m_upto_step f_upto_step)
  have nn: "\<not> map_count sl right < 0" by (simp add: map_count_def sum_nonneg not_less)
  from symdiff_pass [OF p dm sv lt' _ hi [symmetric], of "map_count sl right" None] rt r nn
  obtain dl where "symdiff s leftlist right None sl None (map_count sl right) =
    Some (\<Sum>e = 1..right. pass_count False NL NR sl e,
      (\<lambda>e. if 1 \<le> e \<and> e \<le> right then of_bool (False \<and> bit (sl e) 0 \<noteq> pass_diff NL NR e) else if e = 0 then 0 else sl e),
      pass_cludes False NR W (rev [1..<Suc right]), dl)"
    by (auto simp: NL_def NR_def right_tips_def)
  moreover have "(\<Sum>e = 1..right. pass_count False NL NR sl e) = 0" by (simp add: pass_count_def)
  moreover have "(\<lambda>e. if 1 \<le> e \<and> e \<le> right then of_bool (False \<and> bit (sl e) 0 \<noteq> pass_diff NL NR e) else if e = 0 then 0 else sl e) = (\<lambda>_. 0)"
    using up by (auto simp: fun_eq_iff)
  moreover have "set (pass_cludes False NR W (rev [1..<Suc right])) =
      (\<lambda>t. sd_entry t (W t)) ` {t. 1 \<le> t \<and> t \<le> right \<and> m_active (NR t) t \<noteq> W t}"
    unfolding pass_cludes_def set_concat_if by auto
  ultimately have "symdiff s leftlist right None sl None (map_count sl right) =
      Some (0, \<lambda>_. 0, pass_cludes False NR W (rev [1..<Suc right]), dl) \<and>
      set (pass_cludes False NR W (rev [1..<Suc right])) =
      (\<lambda>t. sd_entry t (W t)) ` {t. 1 \<le> t \<and> t \<le> right \<and> m_active (NR t) t \<noteq> W t}"
    by (simp only:)
  then show ?thesis unfolding NR_def by blast
qed

text \<open>A delta whose list changed: the other lists, the heap and the graph stay.\<close>

definition relisted :: "ser \<Rightarrow> (ser \<times> int) list \<Rightarrow> sccs \<Rightarrow> sccs \<Rightarrow> bool" where
  "relisted d C s s' \<longleftrightarrow> same_graph s s' \<and> heap_wf s' \<and> (\<exists>zs. heap s' = heap s @ zs) \<and>
     (\<forall>e. e \<noteq> d \<longrightarrow> CLUDES_INDEX s' e = CLUDES_INDEX s e) \<and>
     (\<forall>e. 1 \<le> e \<and> e \<le> TABLE s \<and> e \<noteq> d \<longrightarrow> cludes_of s' e = cludes_of s e) \<and> cludes_of s' d = C"

lemma relisted_gK: "relisted d C s s' \<Longrightarrow> live s d \<Longrightarrow> gK s' = (gK s)(d := C)"
  by (auto simp: relisted_def fun_eq_iff gK_def same_graph_acc) (auto simp: live_def)

lemma relisted_SET:
  assumes "heap_wf s" "\<forall>t\<in>set incl \<union> set excl. 0 < t \<and> t < 2 ^ 31"
  shows "relisted d (clude_list incl excl) s (CLUDES_SET s d (Some (saveNums (clude_list incl excl))))"
  using assms cludes_of_SET [OF assms, of d]
  by (auto simp: relisted_def same_graph_CLUDES_SET heap_wf_CLUDES_SET heap_CLUDES_SET CLUDES_INDEX_SET
      cludes_of_def CLUDES_SET_other)

lemma relisted_None: "heap_wf s \<Longrightarrow> relisted d [] s (CLUDES_SET s d None)"
  by (auto simp: relisted_def same_graph_CLUDES_SET heap_wf_CLUDES_SET heap_CLUDES_SET_None CLUDES_INDEX_SET
      cludes_of_def CLUDES_SET_other CLUDES_SET_same)

lemma relisted_twice:
  assumes "relisted d C s s1" "relisted d C' s1 s2"
  shows "relisted d C' s s2"
  using assms by (auto simp: relisted_def same_graph_acc intro: same_graph_trans)

lemma relisted_INDEX:
  assumes "heap_wf s" "1 \<le> d" "d \<le> TABLE s" "off < length (heap s)" "eachNum_loop (Some (HEAP s off)) = C"
  shows "relisted d C s (CLUDES_INDEX_SET s d off)"
proof -
  have "same_graph s (CLUDES_INDEX_SET s d off)"
    by (simp add: same_graph_def CLUDES_INDEX_SET_def PARENT_def MERGE_def FLAGS_def)
  moreover have ix: "CLUDES_INDEX (CLUDES_INDEX_SET s d off) e = (if e = d then off else CLUDES_INDEX s e)" for e
    by (simp add: CLUDES_INDEX_SET_def CLUDES_INDEX_def)
  moreover have hp: "heap (CLUDES_INDEX_SET s d off) = heap s" by (simp add: CLUDES_INDEX_SET_def)
  moreover have "HEAP (CLUDES_INDEX_SET s d off) o' = HEAP s o'" for o' by (simp add: HEAP_def hp)
  moreover have "TABLE (CLUDES_INDEX_SET s d off) = TABLE s" by (simp add: CLUDES_INDEX_SET_def TABLE_def)
  ultimately show ?thesis
    using assms heap_wfD(4) [OF assms(1)]
    by (auto simp: relisted_def heap_wf_def heap_start_def cludes_of_def CLUDES_def simp del: upt_Suc)
qed

lemma comp_store:
  assumes hp: "heap_wf s" and d: "live s d" and bd: "\<forall>t\<in>set incl \<union> set excl. 0 < t \<and> t < 2 ^ 31"
    and that: "off = CLUDES_INDEX s d"
  defines "s1 \<equiv> CLUDES_SET s d None" and "p \<equiv> saveNums (clude_list incl excl)"
  shows "relisted d (clude_list incl excl) s
    (if incl = [] \<and> excl = [] then s1
     else if p = HEAP s1 off then CLUDES_INDEX_SET s1 d (CLUDES_INDEX s d) else CLUDES_SET s1 d (Some p))"
proof -
  have r1: "relisted d [] s s1" unfolding s1_def by (rule relisted_None [OF hp])
  then have hp1: "heap_wf s1" and tb: "TABLE s1 = TABLE s" and hs: "heap s1 = heap s"
    by (auto simp: relisted_def same_graph_acc s1_def heap_CLUDES_SET_None [OF hp])
  have e: "eachNum_loop (Some p) = clude_list incl excl"
    unfolding p_def by (rule eachNum_loop_saveNums [OF serial_signs_clude_list [OF bd]])
  consider "incl = [] \<and> excl = []" | "\<not> (incl = [] \<and> excl = [])" "p = HEAP s1 off"
    | "\<not> (incl = [] \<and> excl = [])" "p \<noteq> HEAP s1 off" by blast
  then show ?thesis
  proof cases
    case 1
    then show ?thesis using r1 by (simp add: clude_list_def sort_serials_def)
  next
    case 2
    have "relisted d (clude_list incl excl) s1 (CLUDES_INDEX_SET s1 d off)"
      using d e 2(2) heap_wfD(4) [OF hp, of d] by (intro relisted_INDEX [OF hp1]) (auto simp: live_def tb hs that)
    from relisted_twice [OF r1 this] 2 show ?thesis by (auto simp: that)
  next
    case 3
    from relisted_twice [OF r1 relisted_SET [OF hp1 bd]] 3 show ?thesis by (auto simp: p_def)
  qed
qed

lemma comp_relisted:
  assumes wf: "wf_graph s" and hp: "heap_wf s" and ng: "no_gone s" and dm: "diff_map sl" and sv: "sl_live s sl"
    and lt: "\<forall>d\<in>set leftlist. live s d \<and> d < right" and rt: "live s right" and up: "\<forall>e>right. sl e = 0"
    and one: "bit (sl right) 0"
  defines "W \<equiv> \<lambda>t. bit (sl t) 0 \<noteq> view s (set leftlist) (\<lambda>_. None) t"
  assumes du: "entries_ok s right W dups"
  shows "\<exists>s' C. comp s leftlist right dups sl (map_count sl right) = Some (s', \<lambda>_. 0) \<and> relisted right C s s' \<and>
    (\<forall>(e, sign)\<in>set C. e < right \<and> live s e) \<and>
    (\<forall>t b. clude_in C t = Some b \<longrightarrow> b = W t) \<and>
    (\<forall>t\<le>right. live s t \<longrightarrow>
      m_active (f_upto (gE s) ((gK s)(right := [])) W right t ((\<lambda>e. e \<in> {right}), \<lambda>_. None)) t \<noteq> W t \<longrightarrow>
      clude_in C t = Some (W t))"
proof -
  define s1 where "s1 = CLUDES_SET s right None"
  have r1: "relisted right [] s s1" unfolding s1_def by (rule relisted_None [OF hp])
  then have sg: "same_graph s s1" and hp1: "heap_wf s1" by (auto simp: relisted_def)
  note acc = same_graph_acc [OF sg]
  have K1: "gK s1 = (gK s)(right := [])" by (rule relisted_gK [OF r1 rt])
  have gl: "graph_live s (gE s) (gK s)" by (rule graph_live_wf [OF wf])
  then have gl1: "graph_live s1 (gE s1) (gK s1)" unfolding graph_live_def K1 acc by auto
  have V: "view s1 (set leftlist) (\<lambda>_. None) t = view s (set leftlist) (\<lambda>_. None) t" for t
    unfolding view_def acc K1
    by (rule in_view_cong [where start = "right - 1"])
      (use lt rt older_live [OF gl] older_live [OF gl1] in \<open>auto simp: acc K1 live_def\<close>)
  define F where "F = (\<lambda>t. f_upto (gE s) ((gK s)(right := [])) W right t ((\<lambda>e. e \<in> {right}), \<lambda>_. None))"
  have ng1: "no_gone s1" and sv1: "sl_live s1 sl" and rt1: "live s1 right"
    and lt1: "\<forall>d\<in>set leftlist. live s1 d \<and> d < right"
    using ng sv lt rt by (simp_all add: acc)
  have "\<exists>xs dl. symdiff s1 leftlist right None sl None (map_count sl right) = Some (0, \<lambda>_. 0, xs, dl) \<and>
      set xs = (\<lambda>t. sd_entry t (W t)) ` {t. 1 \<le> t \<and> t \<le> right \<and> m_active (F t) t \<noteq> W t}"
    using symdiff_compress_pass [OF gl1 ng1 dm sv1 lt1 rt1 up, unfolded V acc K1]
    unfolding F_def W_def by blast
  then obtain xs dl where xs: "symdiff s1 leftlist right None sl None (map_count sl right) = Some (0, \<lambda>_. 0, xs, dl)"
    and xset: "set xs = (\<lambda>t. sd_entry t (W t)) ` {t. 1 \<le> t \<and> t \<le> right \<and> m_active (F t) t \<noteq> W t}" by blast
  have "\<forall>d\<in>set leftlist. d \<le> right - 1" using lt by fastforce
  then have Wr: "W right"
    using one in_view_above [OF older_live [OF gl], of "set leftlist" "right - 1" right] rt
    by (simp add: W_def view_def live_def)
  have dead: "live s t" if "m_active (F t) t \<noteq> W t" "t \<le> right" for t
  proof (rule ccontr)
    assume nl: "\<not> live s t"
    have "marks_live s ((\<lambda>e. e \<in> {right}), \<lambda>_. None)" using rt by (simp add: marks_live_def)
    then have "marks_live s (F t)"
      using gl1 unfolding F_def acc K1 by (intro marks_live_f_upto) (auto simp: graph_live_def acc)
    then have "\<not> m_active (F t) t" using nl by (auto simp: marks_live_def m_active_def split: option.splits)
    moreover have "sl t = 0" using sv nl by (auto simp: sl_live_def)
    then have "\<not> W t" using nl view_not_live [OF wf, of "set leftlist" "\<lambda>_. None" t] lt rt that(2)
      by (auto simp: W_def live_def)
    ultimately show False using that by simp
  qed
  have top: "m_active (F right) right" by (simp add: F_def m_active_def)
  have ok: "entries_ok s right W (xs @ dups)"
    using du dead top Wr xset unfolding entries_ok_def by (auto simp: nat_less_le)
  have r31: "right < 2 ^ 31" using wf rt by (auto simp: wf_graph_def live_def)
  let ?I = "sd_includes (xs @ dups)" and ?X = "sd_excludes (xs @ dups)"
  note dec = entries_decode [OF ok r31]
  have IX: "t < right \<and> live s t" if "t \<in> set ?I \<union> set ?X" for t using dec [of t] that by blast
  then have bd: "\<forall>t\<in>set ?I \<union> set ?X. 0 < t \<and> t < 2 ^ 31"
    using less_trans [OF _ r31] liveD by (metis less_eq_Suc_le One_nat_def)
  have dj: "set ?I \<inter> set ?X = {}" using dec by blast
  have "\<forall>(e, sign)\<in>set (clude_list ?I ?X). e < right \<and> live s e" using IX by (auto simp: clude_list_def)
  moreover have "\<forall>t b. clude_in (clude_list ?I ?X) t = Some b \<longrightarrow> b = W t"
    unfolding clude_in_clude_list [OF dj] using dec by (metis option.distinct(1) option.inject)
  moreover have "clude_in (clude_list ?I ?X) t = Some (W t)"
    if "t \<le> right" "live s t" "m_active (F t) t \<noteq> W t" for t
  proof -
    have "t \<noteq> right" using that(3) top Wr by auto
    then have "sd_entry t (W t) \<in> set (xs @ dups)" "t < right" using that xset by (auto simp: live_def)
    with that(2) dec [of t] show ?thesis unfolding clude_in_clude_list [OF dj] by (cases "W t") simp_all
  qed
  moreover have "comp s leftlist right dups sl (map_count sl right) = Some (if ?I = [] \<and> ?X = [] then s1
     else if saveNums (clude_list ?I ?X) = HEAP s1 (CLUDES_INDEX s right) then CLUDES_INDEX_SET s1 right (CLUDES_INDEX s right)
     else CLUDES_SET s1 right (Some (saveNums (clude_list ?I ?X))), \<lambda>_. 0)"
    using xs unfolding comp_def s1_def by (simp add: Let_def map_count_def sum_nonneg not_less)
  ultimately show ?thesis using comp_store [OF hp rt bd refl, folded s1_def] unfolding F_def by blast
qed

lemma relisted_wf:
  assumes wf: "wf_graph s" and d: "live s d" and r: "relisted d C s s'" and C: "\<forall>(e, sign)\<in>set C. e < d \<and> live s e"
  shows "wf_graph s'"
proof -
  have sg: "same_graph s s'" using r by (simp add: relisted_def)
  note acc = same_graph_acc [OF sg]
  have "wf_delta s' e" if e: "live s e" for e
  proof -
    have "cludes_of s' e = (if e = d then C else cludes_of s e)"
      using r e by (auto simp: relisted_def live_def)
    then show ?thesis using wf_graph_delta [OF wf e] C by (auto simp: wf_delta_def acc list_all_iff)
  qed
  then show ?thesis using wf by (simp add: wf_graph_def acc del: upt_Suc)
qed

lemma relisted_view_other:
  assumes wf: "wf_graph s" and d: "live s d" and r: "relisted d C s s'" and C: "\<forall>(e, sign)\<in>set C. e < d \<and> live s e"
    and S: "\<forall>e\<in>S. live s e \<and> e < d"
  shows "view s' S (\<lambda>_. None) t = view s S (\<lambda>_. None) t"
proof -
  have sg: "same_graph s s'" using r by (simp add: relisted_def)
  note acc = same_graph_acc [OF sg]
  have K: "gK s' = (gK s)(d := C)" by (rule relisted_gK [OF r d])
  show ?thesis
    unfolding view_def acc K
    by (rule in_view_cong [where start = "d - 1"])
      (use S d older_graph [OF wf] older_graph [OF relisted_wf [OF wf d r C]] in \<open>auto simp: acc K live_def\<close>)
qed

lemma relisted_view:
  assumes wf: "wf_graph s" and d: "live s d" and r: "relisted d C s s'" and C: "\<forall>(e, sign)\<in>set C. e < d \<and> live s e"
    and pre: "\<forall>t b. clude_in C t = Some b \<longrightarrow> b = W t"
    and rec: "\<forall>t\<le>d. live s t \<longrightarrow>
      m_active (f_upto (gE s) ((gK s)(d := [])) W d t ((\<lambda>e. e \<in> {d}), \<lambda>_. None)) t \<noteq> W t \<longrightarrow>
      clude_in C t = Some (W t)"
    and W: "\<forall>t. W t \<longrightarrow> live s t \<and> t \<le> d"
  shows "view s' {d} (\<lambda>_. None) t = W t"
proof -
  have wf': "wf_graph s'" by (rule relisted_wf [OF wf d r C])
  have sg: "same_graph s s'" using r by (simp add: relisted_def)
  note acc = same_graph_acc [OF sg]
  have K: "gK s' = (gK s)(d := C)" by (rule relisted_gK [OF r d])
  consider "t \<le> d" "live s t" | "t \<le> d" "\<not> live s t" | "d < t" by linarith
  then show ?thesis
  proof cases
    case 1
    have old: "older (gE s) ((gK s)(d := []))" using older_graph [OF wf] by (auto simp: older_def)
    have "view s' {d} (\<lambda>_. None) t = in_view (gE s) ((gK s)(d := C)) d {d} (\<lambda>_. None) t"
      using in_view_upto [OF older_graph [OF wf'], of "{d}" d "TABLE s" t] in_view_upto [OF older_graph [OF wf'], of "{d}" d d t] d 1
      by (simp add: view_def acc K live_def)
    also have "\<dots> = in_view (gE s) ((gK s)(d := [])) d {d} (clude_in C) t"
      using in_view_tip_list [of C d "(gK s)(d := [])" t "gE s"] C 1 by auto
    also have "\<dots> = W t"
    proof (rule in_view_forced [OF old, where liv = "live s"])
      show "b = W u" if "clude_in C u = Some b" for u b using pre that by blast
      show "clude_in C u = Some (W u)"
        if "u \<le> d" "live s u" "m_active (f_upto (gE s) ((gK s)(d := [])) W d u ((\<lambda>e. e \<in> {d}), \<lambda>_. None)) u \<noteq> W u"
        for u using rec that by blast
      show "((gK s)(d := [])) u = []" if "\<not> live s u" for u using that by (simp add: gK_def)
    qed (simp_all add: 1)
    finally show ?thesis .
  next
    case 2
    then show ?thesis using W view_not_live [OF wf', of "{d}" "\<lambda>_. None" t] d by (auto simp: acc live_def)
  next
    case 3
    then show ?thesis using W in_view_above [OF older_graph [OF wf'], of "{d}" d t] by (force simp: view_def)
  qed
qed

lemma comp_view:
  assumes wf: "wf_graph s" and hp: "heap_wf s" and ng: "no_gone s" and dm: "diff_map sl" and sv: "sl_live s sl"
    and lt: "\<forall>d\<in>set leftlist. live s d \<and> d < right" and rt: "live s right" and up: "\<forall>e>right. sl e = 0"
    and one: "bit (sl right) 0"
    and du: "entries_ok s right (\<lambda>t. bit (sl t) 0 \<noteq> view s (set leftlist) (\<lambda>_. None) t) dups"
  shows "\<exists>s' C. comp s leftlist right dups sl (map_count sl right) = Some (s', \<lambda>_. 0) \<and> relisted right C s s' \<and>
    (\<forall>(e, sign)\<in>set C. e < right \<and> live s e) \<and>
    (\<forall>t. view s' {right} (\<lambda>_. None) t = (bit (sl t) 0 \<noteq> view s (set leftlist) (\<lambda>_. None) t))"
proof -
  let ?W = "\<lambda>t. bit (sl t) 0 \<noteq> view s (set leftlist) (\<lambda>_. None) t"
  have le: "\<forall>d\<in>set leftlist. d \<le> right" using lt by auto
  have W: "\<forall>t. ?W t \<longrightarrow> live s t \<and> t \<le> right"
  proof (intro allI impI)
    fix t assume w: "?W t"
    have a: "t \<le> right" if "view s (set leftlist) (\<lambda>_. None) t"
      using that in_view_above [OF older_graph [OF wf] le, of t "TABLE s"] by (force simp: view_def)
    have b: "live s t \<and> t \<le> right" if "bit (sl t) 0"
      using that sv up by (cases "sl t = 0"; cases "t \<le> right") (auto simp: sl_live_def)
    have c: "live s t" if v: "view s (set leftlist) (\<lambda>_. None) t"
      using view_not_live [OF wf, of "set leftlist" "\<lambda>_. None" t] lt a [OF v] v liveD [OF rt] by force
    show "live s t \<and> t \<le> right" using w a b c by blast
  qed
  from comp_relisted [OF wf hp ng dm sv lt rt up one du] obtain s' C where
    c: "comp s leftlist right dups sl (map_count sl right) = Some (s', \<lambda>_. 0)" and r: "relisted right C s s'"
    and C: "\<forall>(e, sign)\<in>set C. e < right \<and> live s e" and p: "\<forall>t b. clude_in C t = Some b \<longrightarrow> b = ?W t"
    and q: "\<forall>t\<le>right. live s t \<longrightarrow>
      m_active (f_upto (gE s) ((gK s)(right := [])) ?W right t ((\<lambda>e. e \<in> {right}), \<lambda>_. None)) t \<noteq> ?W t \<longrightarrow>
      clude_in C t = Some (?W t)" by blast
  from relisted_view [OF wf rt r C p q W] c r C show ?thesis by blast
qed

text \<open>
  C7.  \<open>symdiff_compress\<close> stores a version: given a map of differences to the versions of \<open>leftlist\<close>,
  all older than the delta \<open>right\<close>, it gives \<open>right\<close> an include and exclude list with which its
  version is exactly the one the map describes.  No assertion fails, the map is left all zero,
  the versions of older deltas stay, and the file stays well-formed.
\<close>

theorem symdiff_compress_stores:
  assumes "wf_graph s" "heap_wf s" "no_gone s" "diff_map sl" "sl_live s sl"
    and "\<forall>d\<in>set leftlist. live s d \<and> d < right" and "live s right" and "\<forall>e>right. sl e = 0" and "bit (sl right) 0"
  shows "\<exists>s'. symdiff_compress s leftlist right sl (map_count sl right) = Some (s', \<lambda>_. 0) \<and>
    (\<forall>t. view s' {right} (\<lambda>_. None) t = (bit (sl t) 0 \<noteq> view s (set leftlist) (\<lambda>_. None) t)) \<and>
    (\<forall>d t. live s d \<and> d < right \<longrightarrow> view s' {d} (\<lambda>_. None) t = view s {d} (\<lambda>_. None) t) \<and>
    wf_graph s' \<and> heap_wf s'"
proof -
  have "entries_ok s right (\<lambda>t. bit (sl t) 0 \<noteq> view s (set leftlist) (\<lambda>_. None) t) []" by (simp add: entries_ok_def)
  from comp_view [OF assms this] obtain s' C where
    c: "comp s leftlist right [] sl (map_count sl right) = Some (s', \<lambda>_. 0)" and r: "relisted right C s s'"
    and C: "\<forall>(e, sign)\<in>set C. e < right \<and> live s e"
    and v: "\<forall>t. view s' {right} (\<lambda>_. None) t = (bit (sl t) 0 \<noteq> view s (set leftlist) (\<lambda>_. None) t)" by blast
  have "view s' {d} (\<lambda>_. None) t = view s {d} (\<lambda>_. None) t" if "live s d" "d < right" for d t
    using relisted_view_other [OF assms(1,7) r C, of "{d}" t] that by simp
  moreover have "heap_wf s'" using r by (simp add: relisted_def)
  ultimately show ?thesis
    using c v relisted_wf [OF assms(1,7) r C] unfolding symdiff_compress_def by blast
qed

theorem symdiff_compress_stores_witness:
  "\<exists>s'. symdiff_compress ex_file [3] 5 (\<lambda>e. of_bool (e \<in> {4, 5})) 2 = Some (s', \<lambda>_. 0) \<and>
    (\<forall>t. view s' {5} (\<lambda>_. None) t = ((t \<in> {4, 5}) \<noteq> view ex_file {3} (\<lambda>_. None) t)) \<and> wf_graph s' \<and> heap_wf s'"
proof -
  have "map_count (\<lambda>e. of_bool (e \<in> {4, 5})) 5 = 2" by code_simp
  then show ?thesis
    using symdiff_compress_stores [OF ex_file_wf ex_file_heap, of "\<lambda>e. of_bool (e \<in> {4, 5})" "[3]" 5] ex_diff_map
    by (auto simp: sl_live_def ex_file_live)
qed

end
