(* ===== verification/BK_Lines.thy ===== *)
theory BK_Lines
  imports BK_Prelude "HOL-Library.Monad_Syntax"
begin

text \<open>
  The growing arrays of \<open>libc/utils/lines.c\<close> and \<open>libc/lines.h\<close>, which every other component
  uses for its lists.  An array is one block of memory: its first slot holds a 32-bit header,
  the number of elements in the low 27 bits and the logarithm of the number of slots in the
  upper 5; the elements are the slots from 1 on.  The functions return \<open>None\<close> when an assertion
  fails, when a slot outside the block is accessed or when a slot is read that holds no
  element.  The refinement theorem shows that none of this happens and that the operations are
  those of lists.
\<close>

section \<open>The block and its header\<close>

record 'a larr =
  lhdr :: u32
  lmem :: "'a option list"

type_synonym 'a lines = "'a larr option"

definition LBITS :: nat where "LBITS = 32 - 5"
definition LMASK :: u32 where "LMASK = 0x07ffffff"

definition LLEN :: "'a larr \<Rightarrow> nat" where
  "LLEN s = unat (lhdr s AND LMASK)"

definition nLines :: "'a lines \<Rightarrow> nat" where
  "nLines s = (case s of Some a \<Rightarrow> LLEN a | None \<Rightarrow> 0)"

definition emptyLines :: "'a lines \<Rightarrow> bool" where
  "emptyLines s \<longleftrightarrow> nLines s = 0"

definition setLLEN :: "'a larr \<Rightarrow> nat \<Rightarrow> 'a larr" where
  "setLLEN s len = s\<lparr>lhdr := (lhdr s AND NOT LMASK) OR of_nat len\<rparr>"

definition lcap :: "'a larr \<Rightarrow> nat" where
  "lcap s = unat (drop_bit LBITS (lhdr s))"

text \<open>Reading and writing the slot of an element.\<close>

definition peek :: "'a larr \<Rightarrow> nat \<Rightarrow> 'a option" where
  "peek s i = (if 1 \<le> i \<and> i \<le> length (lmem s) then lmem s ! (i - 1) else None)"

definition poke :: "'a larr \<Rightarrow> nat \<Rightarrow> 'a option \<Rightarrow> 'a larr option" where
  "poke s i v = (if 1 \<le> i \<and> i \<le> length (lmem s) then Some (s\<lparr>lmem := (lmem s)[i - 1 := v]\<rparr>) else None)"

text \<open>
  \<open>realloc\<close>: the size is computed in 32 bits; the slots that were there stay, new ones hold
  nothing.  A size of 0 gives a null pointer, which the caller's assertion catches.
\<close>

definition realloc_slots :: "'a option list \<Rightarrow> u32 \<Rightarrow> nat \<Rightarrow> 'a option list option" where
  "realloc_slots old nslots elemsize =
     (let bytes = unat (nslots * of_nat elemsize);
          n = bytes div elemsize - 1
      in if bytes = 0 then None else Some (take n old @ replicate (n - length old) None))"

section \<open>Growing\<close>

partial_function (option) grow_loop :: "u32 \<Rightarrow> u32 \<Rightarrow> nat \<Rightarrow> (u32 \<times> nat) option" where
  [code]: "grow_loop len sz c = (if len \<ge> sz then grow_loop len (sz * 2) (Suc c) else Some (sz, c))"

definition growArray_int :: "'a lines \<Rightarrow> nat \<Rightarrow> nat \<Rightarrow> 'a larr option" where
  "growArray_int sp add elemsize =
     (case sp of
        Some s \<Rightarrow>
          (let len = (lhdr s AND LMASK) + of_nat add;
               c = lcap s;
               size = push_bit c 1 :: u32
           in if \<not> size > 0 then None
              else if len \<ge> size then
                do { (size, c) \<leftarrow> grow_loop len size c;
                     mem \<leftarrow> realloc_slots (lmem s) size elemsize;
                     Some \<lparr>lhdr = push_bit LBITS (of_nat c) OR len, lmem = mem\<rparr> }
              else Some (s\<lparr>lhdr := push_bit LBITS (of_nat c) OR len\<rparr>))
      | None \<Rightarrow>
          if elemsize < 4 then None
          else
            (let len = of_nat add :: u32;
                 c = (if elemsize > 128 then 2 else 3);
                 size = push_bit c 1 :: u32
             in do { (size, c) \<leftarrow> grow_loop len size c;
                     mem \<leftarrow> realloc_slots [] size elemsize;
                     Some \<lparr>lhdr = push_bit LBITS (of_nat c) OR len, lmem = mem\<rparr> }))"

text \<open>Copying a list of values into consecutive slots (\<open>memcpy\<close>, \<open>memmove\<close> and \<open>memset\<close>).\<close>

fun copy_to :: "'a larr \<Rightarrow> nat \<Rightarrow> 'a option list \<Rightarrow> 'a larr option" where
  "copy_to s i [] = Some s"
| "copy_to s i (v # vs) = do { s \<leftarrow> poke s i v; copy_to s (Suc i) vs }"

definition copy_from :: "'a larr \<Rightarrow> nat \<Rightarrow> nat \<Rightarrow> 'a option list option" where
  "copy_from s i n = (if 1 \<le> i \<and> i + n \<le> Suc (length (lmem s)) then Some (take n (drop (i - 1) (lmem s))) else None)"

definition growArray :: "'a \<Rightarrow> 'a lines \<Rightarrow> nat \<Rightarrow> nat \<Rightarrow> 'a larr option" where
  "growArray zero sp add elemsize =
     do { s \<leftarrow> growArray_int sp add elemsize;
          copy_to s (LLEN s - add + 1) (replicate add (Some zero)) }"

definition allocLines :: "nat \<Rightarrow> 'a larr option" where
  "allocLines n = do { s \<leftarrow> growArray_int None n 8; Some (setLLEN s 0) }"

text \<open>A null \<open>line\<close> terminates the array without changing its length.\<close>

definition addLine :: "'a lines \<Rightarrow> 'a option \<Rightarrow> 'a larr option" where
  "addLine sp line =
     do { s \<leftarrow> growArray_int sp 1 8;
          let len = LLEN s;
          s \<leftarrow> poke s len line;
          Some (if line = None then setLLEN s (len - 1) else s) }"

definition addArray :: "'a \<Rightarrow> 'a lines \<Rightarrow> 'a option \<Rightarrow> nat \<Rightarrow> 'a larr option" where
  "addArray zero sp x elemsize =
     do { s \<leftarrow> growArray_int sp 1 elemsize;
          poke s (LLEN s) (Some (case x of Some v \<Rightarrow> v | None \<Rightarrow> zero)) }"

text \<open>\<open>truncArray\<close>, \<open>_catArray\<close> (which also empties the array it copies), \<open>_insertArrayN\<close>, \<open>_removeArrayN\<close>.\<close>

definition truncArray :: "'a lines \<Rightarrow> nat \<Rightarrow> 'a lines option" where
  "truncArray sp len =
     (case sp of
        Some s \<Rightarrow> if len \<le> LLEN s then Some (Some (setLLEN s len)) else None
      | None \<Rightarrow> if len = 0 then Some None else None)"

definition catArray :: "'a lines \<Rightarrow> 'a lines \<Rightarrow> nat \<Rightarrow> ('a lines \<times> 'a lines) option" where
  "catArray sp arr elemsize =
     (case arr of
        Some b \<Rightarrow>
          if LLEN b \<noteq> 0 then
            do { let n1 = nLines sp;
                 s \<leftarrow> growArray_int sp (LLEN b) elemsize;
                 vs \<leftarrow> copy_from b 1 (LLEN b);
                 s \<leftarrow> copy_to s (n1 + 1) vs;
                 Some (Some s, Some (setLLEN b 0)) }
          else Some (sp, arr)
      | None \<Rightarrow> Some (sp, arr))"

definition insertArrayN :: "'a \<Rightarrow> 'a lines \<Rightarrow> nat \<Rightarrow> 'a option \<Rightarrow> nat \<Rightarrow> 'a larr option" where
  "insertArrayN zero sp j new elemsize =
     (let len = nLines sp + 1
      in if \<not> (j > 0 \<and> j \<le> len) then None
         else
           do { s \<leftarrow> growArray_int sp 1 elemsize;
                s \<leftarrow> (if j < len then do { vs \<leftarrow> copy_from s j (len - j); copy_to s (j + 1) vs } else Some s);
                poke s j (Some (case new of Some v \<Rightarrow> v | None \<Rightarrow> zero)) })"

definition removeArrayN :: "'a larr \<Rightarrow> nat \<Rightarrow> 'a larr option" where
  "removeArrayN s rm =
     (let len = LLEN s
      in if \<not> (rm \<le> len \<and> rm > 0) then None
         else
           do { s \<leftarrow> (if rm < len then do { vs \<leftarrow> copy_from s (rm + 1) (len - rm); copy_to s rm vs } else Some s);
                Some (setLLEN s (len - 1)) })"

text \<open>\<open>removeLineN\<close> without a function to free the line: the line that was removed, or null.\<close>

definition removeLineN :: "'a lines \<Rightarrow> nat \<Rightarrow> ('a option \<times> 'a lines) option" where
  "removeLineN sp rm =
     (if rm < 1 \<or> rm > nLines sp then Some (None, sp)
      else case sp of
        None \<Rightarrow> Some (None, sp)
      | Some s \<Rightarrow> do { ret \<leftarrow> peek s rm; s \<leftarrow> removeArrayN s rm; Some (Some ret, Some s) })"

definition popLine :: "'a lines \<Rightarrow> ('a option \<times> 'a lines) option" where
  "popLine sp = removeLineN sp (nLines sp)"

definition shiftLine :: "'a lines \<Rightarrow> ('a option \<times> 'a lines) option" where
  "shiftLine sp = removeLineN sp 1"

definition popArray :: "'a \<Rightarrow> 'a lines \<Rightarrow> ('a \<times> 'a lines) option" where
  "popArray zero sp =
     (case sp of
        Some s \<Rightarrow>
          if LLEN s \<noteq> 0 then do { ret \<leftarrow> peek s (LLEN s); s \<leftarrow> removeArrayN s (LLEN s); Some (ret, Some s) }
          else Some (zero, sp)
      | None \<Rightarrow> Some (zero, sp))"

text \<open>\<open>reverseLines\<close> and \<open>_reverseArray\<close>: swapping from both ends.\<close>

function rev_loop :: "nat \<Rightarrow> nat \<Rightarrow> 'a larr \<Rightarrow> 'a larr option" where
  "rev_loop i e s =
     (if i < e then
        do { tmp \<leftarrow> peek s i; y \<leftarrow> peek s e; s \<leftarrow> poke s i (Some y); s \<leftarrow> poke s e (Some tmp); rev_loop (i + 1) (e - 1) s }
      else Some s)"
  by auto
termination by (relation "measure (\<lambda>(i, e, s). e - i)") auto

declare rev_loop.simps [simp del]

definition reverseLines :: "'a lines \<Rightarrow> 'a lines option" where
  "reverseLines sp = (case sp of None \<Rightarrow> Some None | Some s \<Rightarrow> map_option Some (rev_loop 1 (LLEN s) s))"

definition reverseArray :: "'a lines \<Rightarrow> 'a lines option" where
  "reverseArray sp = (case sp of None \<Rightarrow> Some None | Some s \<Rightarrow> map_option Some (rev_loop 1 (LLEN s) s))"

section \<open>The header\<close>

lemma LMASK_mask: "LMASK = mask 27"
  by (simp add: LMASK_def mask_eq_exp_minus_1)

lemma unat_of_nat_27 [simp]: "n < 2 ^ 27 \<Longrightarrow> unat (of_nat n :: u32) = n"
  by (simp add: unat_of_nat take_bit_nat_eq_self)

lemma nat_bit_small: "(n::nat) < 2 ^ k \<Longrightarrow> bit n j \<Longrightarrow> j < k"
  by (metis bit_take_bit_iff take_bit_nat_eq_self)

lemma hdr_len: "n < 2 ^ 27 \<Longrightarrow> unat ((push_bit LBITS (of_nat c) OR of_nat n :: u32) AND LMASK) = n"
  by (simp add: LMASK_mask LBITS_def take_bit_eq_mask [symmetric] take_bit_or take_bit_push_bit
      take_bit_of_nat take_bit_nat_eq_self)

lemma hdr_cap: "n < 2 ^ 27 \<Longrightarrow> c < 32 \<Longrightarrow> unat (drop_bit LBITS (push_bit LBITS (of_nat c) OR of_nat n :: u32)) = c"
proof -
  assume n: "n < 2 ^ 27" and c: "c < 32"
  have d: "drop_bit 27 (of_nat n :: u32) = 0"
    by (rule bit_word_eqI) (use n in \<open>auto simp: bit_simps dest: nat_bit_small [of n 27, simplified]\<close>)
  have "drop_bit 27 (push_bit 27 (of_nat c :: u32)) = of_nat c"
    by (rule bit_word_eqI) (use c in \<open>auto simp: bit_simps dest: nat_bit_small [of c 5, simplified]\<close>)
  then show ?thesis using c by (simp add: LBITS_def d)
qed

lemma LLEN_bound: "LLEN s < 2 ^ 27"
proof -
  have "lhdr s AND LMASK = take_bit 27 (lhdr s)" by (simp add: LMASK_mask take_bit_eq_mask)
  then show ?thesis by (simp add: LLEN_def take_bit_eq_mod unat_mod)
qed

lemma lcap_bound: "lcap s < 32"
proof -
  have "unat (lhdr s) < 2 ^ 32" using unsigned_less [of "lhdr s"] by simp
  then show ?thesis unfolding lcap_def LBITS_def by (subst unsigned_drop_bit_eq) (simp add: drop_bit_eq_div take_bit_nat_eq_self)
qed

lemma setLLEN_simps [simp]:
  "n < 2 ^ 27 \<Longrightarrow> LLEN (setLLEN s n) = n"
  "n < 2 ^ 27 \<Longrightarrow> lcap (setLLEN s n) = lcap s"
  "lmem (setLLEN s n) = lmem s"
proof -
  assume n: "n < 2 ^ 27"
  have "((lhdr s AND NOT LMASK) OR of_nat n) AND LMASK = of_nat n"
    by (rule bit_word_eqI) (use n in \<open>auto simp: LMASK_mask bit_simps dest: nat_bit_small [of n 27, simplified]\<close>)
  then show "LLEN (setLLEN s n) = n" using n by (simp add: LLEN_def setLLEN_def)
  have "drop_bit 27 ((lhdr s AND NOT LMASK) OR of_nat n) = drop_bit 27 (lhdr s)"
    by (rule bit_word_eqI) (use n in \<open>auto simp: LMASK_mask bit_simps dest: nat_bit_small [of n 27, simplified] bit_imp_le_length\<close>)
  then show "lcap (setLLEN s n) = lcap s" by (simp add: lcap_def setLLEN_def LBITS_def)
qed (simp add: setLLEN_def)

lemma poke_simps:
  assumes "poke s i v = Some s'"
  shows "LLEN s' = LLEN s" "lcap s' = lcap s" "lmem s' = (lmem s)[i - 1 := v]" "1 \<le> i" "i \<le> length (lmem s)"
  using assms by (auto simp: poke_def LLEN_def lcap_def split: if_splits)

lemma poke_Some: "1 \<le> i \<Longrightarrow> i \<le> length (lmem s) \<Longrightarrow> \<exists>s'. poke s i v = Some s'"
  by (simp add: poke_def)

section \<open>Growing finds room\<close>

lemma grow_loop_ok:
  assumes "c \<le> 27" "n < 2 ^ 27"
  shows "\<exists>c'. c \<le> c' \<and> c' \<le> 27 \<and> n < 2 ^ c' \<and> (c' = c \<or> 2 ^ c' \<le> 2 * n) \<and>
    grow_loop (of_nat n) (push_bit c 1) c = Some (push_bit c' 1, c')"
  using assms
proof (induction "27 - c" arbitrary: c)
  case 0
  then have "c = 27" by simp
  with 0 show ?case by (intro exI [of _ 27]) (subst grow_loop.simps, simp add: push_bit_eq_mult word_le_nat_alt)
next
  case (Suc k)
  have p: "unat (push_bit c 1 :: u32) = 2 ^ c" using Suc.prems(1)
    by (subst unsigned_push_bit_eq) (simp add: push_bit_eq_mult take_bit_nat_eq_self)
  show ?case
  proof (cases "2 ^ c \<le> n")
    case False
    then show ?thesis using Suc.prems p
      by (intro exI [of _ c]) (subst grow_loop.simps, simp add: word_le_nat_alt)
  next
    case True
    have "k = 27 - Suc c" "Suc c \<le> 27" using Suc.hyps(2) by linarith+
    from Suc.hyps(1) [OF this Suc.prems(2)] obtain c' where
      c': "Suc c \<le> c'" "c' \<le> 27" "n < 2 ^ c'" "c' = Suc c \<or> 2 ^ c' \<le> 2 * n"
      "grow_loop (of_nat n) (push_bit (Suc c) 1) (Suc c) = Some (push_bit c' 1, c')" by blast
    have le: "c' = Suc c \<Longrightarrow> 2 ^ c' \<le> 2 * n" using True by simp
    have d: "push_bit c (1 :: u32) * 2 = push_bit (Suc c) 1" by (simp add: push_bit_eq_mult)
    have "grow_loop (of_nat n) (push_bit c 1) c = Some (push_bit c' 1, c')"
      using True p Suc.prems c'(5) by (subst grow_loop.simps) (simp add: word_le_nat_alt d mult.commute)
    then show ?thesis using c'(1-4) le by (intro exI [of _ c']) auto
  qed
qed

section \<open>The invariant, and the list an array stands for\<close>

text \<open>
  \<open>room\<close> is the invariant of the block: the header tells its size, the size in bytes is below
  \<open>2 ^ 32\<close>, and the elements fit.  \<open>holds\<close> adds that the elements are those of a list.
\<close>

definition room :: "nat \<Rightarrow> 'a larr \<Rightarrow> nat \<Rightarrow> bool" where
  "room es s n \<longleftrightarrow> lcap s \<le> 27 \<and> es * 2 ^ lcap s < 2 ^ 32 \<and> LLEN s = n \<and> n < 2 ^ lcap s \<and>
     length (lmem s) = 2 ^ lcap s - 1"

definition holds :: "nat \<Rightarrow> 'a larr \<Rightarrow> 'a list \<Rightarrow> bool" where
  "holds es s xs \<longleftrightarrow> room es s (length xs) \<and> take (length xs) (lmem s) = map Some xs"

definition lines_hold :: "nat \<Rightarrow> 'a lines \<Rightarrow> 'a list \<Rightarrow> bool" where
  "lines_hold es sp xs \<longleftrightarrow> (case sp of Some s \<Rightarrow> holds es s xs | None \<Rightarrow> xs = [])"

text \<open>A number of elements of which twice as many can be allocated.\<close>

definition fits :: "nat \<Rightarrow> nat \<Rightarrow> bool" where
  "fits es n \<longleftrightarrow> 4 \<le> es \<and> n < 2 ^ 27 \<and> 8 * es < 2 ^ 32 \<and> es * (2 * n) < 2 ^ 32"

lemma fits_mono:
  assumes f: "fits es n" and le: "m \<le> n"
  shows "fits es m"
proof -
  have "es * (2 * m) \<le> es * (2 * n)" using le by (intro mult_left_mono) auto
  also have "\<dots> < 2 ^ 32" using f by (simp only: fits_def)
  finally show ?thesis using f le by (auto simp only: fits_def)
qed

lemma holds_len: "holds es s xs \<Longrightarrow> LLEN s = length xs" "lines_hold es sp xs \<Longrightarrow> nLines sp = length xs"
  by (auto simp: holds_def room_def lines_hold_def nLines_def split: option.splits)

lemma room_length: "room es s n \<Longrightarrow> n \<le> length (lmem s)"
  by (auto simp: room_def)

lemma room_le: "room es s n \<Longrightarrow> n < 2 ^ 27"
  using LLEN_bound by (auto simp: room_def)

lemma holds_nth: "holds es s xs \<Longrightarrow> i < length xs \<Longrightarrow> lmem s ! i = Some (xs ! i)"
  unfolding holds_def by (metis length_map nth_map nth_take)

lemma holds_peek: "holds es s xs \<Longrightarrow> 1 \<le> i \<Longrightarrow> i \<le> length xs \<Longrightarrow> peek s i = Some (xs ! (i - 1))"
  using holds_nth [of es s xs "i - 1"] room_length [of es s "length xs"]
  by (auto simp: peek_def holds_def)

lemma holds_unique: "holds es s xs \<Longrightarrow> holds es s ys \<Longrightarrow> xs = ys"
  unfolding holds_def room_def by (metis inj_map_eq_map inj_Some)

lemma realloc_ok:
  assumes "c \<le> 27" "es * 2 ^ c < 2 ^ 32" "1 \<le> es"
  shows "realloc_slots old (push_bit c 1) es = Some (take (2 ^ c - 1) old @ replicate (2 ^ c - 1 - length old) None)"
proof -
  have "unat (push_bit c 1 * of_nat es :: u32) = 2 ^ c * es"
  proof -
    have "push_bit c 1 * of_nat es = (of_nat (2 ^ c * es) :: u32)" by (simp add: push_bit_eq_mult)
    then show ?thesis using assms(2) by (simp add: unat_of_nat take_bit_nat_eq_self mult.commute del: of_nat_mult)
  qed
  with assms(3) show ?thesis by (simp add: realloc_slots_def Let_def)
qed

lemma fits_cap:
  assumes "fits es n" "c = 2 \<or> c = 3 \<or> es * 2 ^ c < 2 ^ 32" "c' = c \<or> 2 ^ c' \<le> 2 * n"
  shows "es * 2 ^ c' < 2 ^ 32"
proof (cases "c' = c")
  case True
  with assms(1,2) show ?thesis by (auto simp: fits_def)
next
  case False
  with assms(3) have "es * 2 ^ c' \<le> es * (2 * n)" by (intro mult_left_mono) auto
  also have "\<dots> < 2 ^ 32" using assms(1) by (simp only: fits_def)
  finally show ?thesis .
qed

lemma growArray_int_ok:
  fixes sp :: "'a lines"
  assumes h: "lines_hold es sp xs" and f: "fits es (length xs + add)"
  shows "\<exists>s. growArray_int sp add es = Some s \<and> room es s (length xs + add) \<and>
    take (length xs) (lmem s) = map Some xs"
proof -
  let ?n = "length xs + add"
  have n: "?n < 2 ^ 27" and es: "4 \<le> es" using f by (auto simp: fits_def)
  have mk: "room es \<lparr>lhdr = push_bit LBITS (of_nat c) OR of_nat ?n, lmem = mem\<rparr> ?n"
    if "c \<le> 27" "?n < 2 ^ c" "es * 2 ^ c < 2 ^ 32" "length mem = 2 ^ c - 1" for c and mem :: "'a option list"
    using that hdr_len [OF n, of c] hdr_cap [OF n, of c] by (simp add: room_def LLEN_def lcap_def del: of_nat_add)
  show ?thesis
  proof (cases sp)
    case None
    then have xs: "xs = []" using h by (simp add: lines_hold_def)
    define c0 where "c0 = (if es > 128 then 2 else 3 :: nat)"
    then have c0: "c0 \<le> 27" "c0 = 2 \<or> c0 = 3 \<or> es * 2 ^ c0 < 2 ^ 32" by auto
    from grow_loop_ok [OF c0(1) n] obtain c where c: "c \<le> 27" "?n < 2 ^ c" "c = c0 \<or> 2 ^ c \<le> 2 * ?n"
      "grow_loop (of_nat ?n) (push_bit c0 1) c0 = Some (push_bit c 1, c)" by blast
    have e: "es * 2 ^ c < 2 ^ 32" by (rule fits_cap [OF f c0(2) c(3)])
    from None c(4) es xs mk [OF c(1,2) e] realloc_ok [OF c(1) e, where old = "[] :: 'a option list"] show ?thesis
      by (simp add: growArray_int_def Let_def c0_def [symmetric])
  next
    case (Some s)
    then have hs: "holds es s xs" using h by (simp add: lines_hold_def)
    then have r: "lcap s \<le> 27" "es * 2 ^ lcap s < 2 ^ 32" "LLEN s = length xs" "length xs < 2 ^ lcap s"
      "length (lmem s) = 2 ^ lcap s - 1" and t: "take (length xs) (lmem s) = map Some xs"
      by (auto simp: holds_def room_def)
    have l: "(lhdr s AND LMASK) + of_nat add = of_nat ?n"
      unfolding r(3) [symmetric] by (simp add: LLEN_def)
    have p: "unat (push_bit (lcap s) 1 :: u32) = 2 ^ lcap s" using r(1)
      by (subst unsigned_push_bit_eq) (simp add: push_bit_eq_mult take_bit_nat_eq_self)
    show ?thesis
    proof (cases "2 ^ lcap s \<le> ?n")
      case True
      obtain c where c: "lcap s \<le> c" "c \<le> 27" "?n < 2 ^ c" "c = lcap s \<or> 2 ^ c \<le> 2 * ?n"
        "grow_loop (of_nat ?n) (push_bit (lcap s) 1) (lcap s) = Some (push_bit c 1, c)"
        using grow_loop_ok [OF r(1) n] by blast
      have e: "es * 2 ^ c < 2 ^ 32" by (rule fits_cap [OF f disjI2 [OF disjI2 [OF r(2)]] c(4)])
      have le: "(2::nat) ^ lcap s - 1 \<le> 2 ^ c - 1" using c(1) by (simp add: diff_le_mono)
      from Some c True es p n mk [OF c(2,3) e] realloc_ok [OF c(2) e, of "lmem s"] r(4,5) t le show ?thesis
        by (simp add: growArray_int_def Let_def l word_le_nat_alt word_less_nat_alt unat_of_nat_27 del: of_nat_add)
    next
      case False
      have "room es (s\<lparr>lhdr := h\<rparr>) m = room es \<lparr>lhdr = h, lmem = lmem s\<rparr> m" for h m
        by (simp add: room_def LLEN_def lcap_def)
      then have "room es (s\<lparr>lhdr := push_bit LBITS (of_nat (lcap s)) OR of_nat ?n\<rparr>) ?n"
        using mk [of "lcap s" "lmem s"] r False by (simp del: of_nat_add)
      with Some False p n r t show ?thesis
        by (simp add: growArray_int_def Let_def l word_le_nat_alt word_less_nat_alt del: of_nat_add)
    qed
  qed
qed

section \<open>The operations\<close>

lemma copy_to_ok:
  assumes "1 \<le> i" "i - 1 + length vs \<le> length (lmem s)"
  shows "\<exists>s'. copy_to s i vs = Some s' \<and> LLEN s' = LLEN s \<and> lcap s' = lcap s \<and>
    lmem s' = take (i - 1) (lmem s) @ vs @ drop (i - 1 + length vs) (lmem s)"
  using assms
proof (induction vs arbitrary: s i)
  case Nil
  then show ?case by simp
next
  case (Cons v vs)
  have i: "1 \<le> i" "i \<le> length (lmem s)" using Cons.prems by auto
  from poke_Some [OF i] obtain s1 where s1: "poke s i v = Some s1" by blast
  note p = poke_simps [OF s1]
  have "\<exists>s'. copy_to s1 (Suc i) vs = Some s' \<and> LLEN s' = LLEN s1 \<and> lcap s' = lcap s1 \<and>
      lmem s' = take i (lmem s1) @ vs @ drop (i + length vs) (lmem s1)"
    using Cons.IH [of "Suc i" s1] Cons.prems p(3) by simp
  moreover have "take i ((lmem s)[i - 1 := v]) = take (i - 1) (lmem s) @ [v]"
    using i by (cases i) (auto simp: take_Suc_conv_app_nth)
  ultimately show ?case using s1 p Cons.prems by auto
qed

lemma room_keep: "room es s n \<Longrightarrow> LLEN s' = LLEN s \<Longrightarrow> lcap s' = lcap s \<Longrightarrow> length (lmem s') = length (lmem s) \<Longrightarrow> room es s' n"
  by (simp add: room_def)

lemma room_setLLEN: "room es s n \<Longrightarrow> m \<le> n \<Longrightarrow> room es (setLLEN s m) m"
  using room_le [of es s n] by (auto simp: room_def)

lemma poke_end:
  assumes "room es s (Suc (length xs))" "take (length xs) (lmem s) = map Some xs"
  shows "\<exists>s'. poke s (Suc (length xs)) v = Some s' \<and> room es s' (Suc (length xs)) \<and>
    take (Suc (length xs)) (lmem s') = map Some xs @ [v]"
proof -
  have l: "Suc (length xs) \<le> length (lmem s)" using room_length [OF assms(1)] .
  then obtain s' where s': "poke s (Suc (length xs)) v = Some s'" using poke_Some [of "Suc (length xs)" s v] by auto
  note p = poke_simps [OF s']
  have "take (Suc (length xs)) (lmem s') = map Some xs @ [v]"
    using l assms(2) p(3) by (simp add: take_Suc_conv_app_nth)
  with s' p room_keep [OF assms(1), of s'] show ?thesis by auto
qed

lemma addLine_ok:
  assumes "lines_hold 8 sp xs" "fits 8 (length xs + 1)"
  shows "\<exists>s. addLine sp (Some x) = Some s \<and> holds 8 s (xs @ [x])"
    and "\<exists>s. addLine sp None = Some s \<and> holds 8 s xs \<and> lmem s ! length xs = None"
proof -
  from growArray_int_ok [OF assms] obtain s where s: "growArray_int sp 1 8 = Some s" "room 8 s (Suc (length xs))"
    "take (length xs) (lmem s) = map Some xs" by auto
  then have L: "LLEN s = Suc (length xs)" by (simp add: room_def)
  from poke_end [OF s(2,3), of "Some x"] s L
  show "\<exists>s. addLine sp (Some x) = Some s \<and> holds 8 s (xs @ [x])" by (auto simp: addLine_def holds_def)
  from poke_end [OF s(2,3), of None] obtain s' where s': "poke s (Suc (length xs)) None = Some s'"
    "room 8 s' (Suc (length xs))" "take (Suc (length xs)) (lmem s') = map Some xs @ [None]" by blast
  have "take (length xs) (lmem s') = map Some xs"
    using s'(3) by (metis append_eq_conv_conj length_map le_Suc_eq min_def order_refl take_take)
  moreover have "lmem s' ! length xs = None"
    using s'(3) by (metis length_map lessI nth_append_length nth_take)
  ultimately show "\<exists>s. addLine sp None = Some s \<and> holds 8 s xs \<and> lmem s ! length xs = None"
    using s L s' room_setLLEN [OF s'(2), of "length xs"] by (auto simp: addLine_def holds_def)
qed

lemma addArray_ok:
  assumes "lines_hold es sp xs" "fits es (length xs + 1)"
  shows "\<exists>s. addArray zero sp x es = Some s \<and> holds es s (xs @ [case x of Some v \<Rightarrow> v | None \<Rightarrow> zero])"
proof -
  from growArray_int_ok [OF assms] obtain s where s: "growArray_int sp 1 es = Some s" "room es s (Suc (length xs))"
    "take (length xs) (lmem s) = map Some xs" by auto
  with poke_end [OF s(2,3)] show ?thesis by (auto simp: addArray_def holds_def room_def)
qed

lemma copy_end:
  assumes "room es s (length xs + length ys)" "take (length xs) (lmem s) = map Some xs"
  shows "\<exists>s'. copy_to s (length xs + 1) (map Some ys) = Some s' \<and> holds es s' (xs @ ys)"
proof -
  have l: "length xs + length ys \<le> length (lmem s)" using room_length [OF assms(1)] .
  with copy_to_ok [of "length xs + 1" "map Some ys" s] obtain s' where s': "copy_to s (length xs + 1) (map Some ys) = Some s'"
    "LLEN s' = LLEN s" "lcap s' = lcap s"
    "lmem s' = take (length xs) (lmem s) @ map Some ys @ drop (length xs + length ys) (lmem s)" by auto
  with l assms room_keep [OF assms(1), of s'] show ?thesis by (auto simp: holds_def)
qed

lemma growArray_ok:
  assumes "lines_hold es sp xs" "fits es (length xs + add)"
  shows "\<exists>s. growArray zero sp add es = Some s \<and> holds es s (xs @ replicate add zero)"
proof -
  from growArray_int_ok [OF assms] obtain s where s: "growArray_int sp add es = Some s" "room es s (length xs + add)"
    "take (length xs) (lmem s) = map Some xs" by auto
  then have "LLEN s = length xs + add" by (simp add: room_def)
  with copy_end [of es s xs "replicate add zero"] s show ?thesis by (auto simp: growArray_def)
qed

lemma allocLines_ok: "fits 8 n \<Longrightarrow> \<exists>s. allocLines n = Some s \<and> holds 8 s ([] :: 'a list)"
proof -
  assume f: "fits 8 n"
  from growArray_int_ok [of 8 "None :: 'a lines" "[]" n] f obtain s :: "'a larr" where
    "growArray_int None n 8 = Some s" "room 8 s n" by (auto simp: lines_hold_def)
  with room_setLLEN [of 8 s n 0] show ?thesis by (auto simp: allocLines_def holds_def)
qed

lemma truncArray_ok:
  assumes "lines_hold es sp xs" "n \<le> length xs"
  shows "\<exists>sp'. truncArray sp n = Some sp' \<and> lines_hold es sp' (take n xs)"
proof (cases sp)
  case None
  with assms show ?thesis by (auto simp: truncArray_def lines_hold_def)
next
  case (Some s)
  with assms have h: "room es s (length xs)" "take (length xs) (lmem s) = map Some xs" by (auto simp: lines_hold_def holds_def)
  have "take n (lmem s) = map Some (take n xs)" using h(2) assms(2) by (metis min_absorb1 take_map take_take)
  with Some h assms(2) room_setLLEN [OF h(1) assms(2)] show ?thesis
    by (auto simp: truncArray_def lines_hold_def holds_def room_def min_absorb2)
qed

lemma catArray_ok:
  assumes "lines_hold es sp xs" "lines_hold es arr ys" "fits es (length xs + length ys)"
  shows "\<exists>sp' arr'. catArray sp arr es = Some (sp', arr') \<and> lines_hold es sp' (xs @ ys) \<and> lines_hold es arr' []"
proof (cases "ys = []")
  case True
  with assms show ?thesis by (auto simp: catArray_def dest: holds_len split: option.splits) (auto simp: lines_hold_def dest: holds_len)
next
  case False
  with assms(2) obtain b where b: "arr = Some b" "holds es b ys" by (auto simp: lines_hold_def split: option.splits)
  from growArray_int_ok [OF assms(1,3)] obtain s where s: "growArray_int sp (length ys) es = Some s"
    "room es s (length xs + length ys)" "take (length xs) (lmem s) = map Some xs" by auto
  have rb: "room es b (length ys)" and tb: "take (length ys) (lmem b) = map Some ys" using b by (auto simp: holds_def)
  from copy_end [OF s(2,3)] obtain s' where s': "copy_to s (length xs + 1) (map Some ys) = Some s'" "holds es s' (xs @ ys)" by blast
  have "copy_from b 1 (length ys) = Some (map Some ys)" using room_length [OF rb] tb by (simp add: copy_from_def)
  with False b s s' holds_len(1) [OF b(2)] holds_len(2) [OF assms(1)] room_setLLEN [OF rb, of 0] show ?thesis
    by (auto simp: catArray_def lines_hold_def holds_def)
qed

lemma insertArrayN_ok:
  assumes "lines_hold es sp xs" "fits es (length xs + 1)" "1 \<le> j" "j \<le> length xs + 1"
  shows "\<exists>s. insertArrayN zero sp j new es = Some s \<and>
    holds es s (take (j - 1) xs @ (case new of Some v \<Rightarrow> v | None \<Rightarrow> zero) # drop (j - 1) xs)"
proof -
  let ?v = "case new of Some v \<Rightarrow> v | None \<Rightarrow> zero" and ?n = "length xs"
  from growArray_int_ok [OF assms(1,2)] obtain s where s: "growArray_int sp 1 es = Some s" "room es s (Suc ?n)"
    "take ?n (lmem s) = map Some xs" by auto
  have l: "Suc ?n \<le> length (lmem s)" by (rule room_length [OF s(2)])
  have "\<exists>s1. (if j < ?n + 1 then do { vs \<leftarrow> copy_from s j (?n + 1 - j); copy_to s (j + 1) vs } else Some s) = Some s1 \<and>
      room es s1 (Suc ?n) \<and> take (j - 1) (lmem s1) = map Some (take (j - 1) xs) \<and>
      take (?n + 1 - j) (drop j (lmem s1)) = map Some (drop (j - 1) xs)"
  proof (cases "j < ?n + 1")
    case True
    have "drop (j - 1) (take ?n (lmem s)) = map Some (drop (j - 1) xs)" unfolding s(3) drop_map ..
    then have vs: "take (?n + 1 - j) (drop (j - 1) (lmem s)) = map Some (drop (j - 1) xs)"
      using assms(3) by (simp add: drop_take)
    have "length (drop (j - 1) xs) = ?n + 1 - j" using assms(3) by simp
    with copy_to_ok [of "j + 1" "map Some (drop (j - 1) xs)" s] l True obtain s1 where
      s1: "copy_to s (j + 1) (map Some (drop (j - 1) xs)) = Some s1" "LLEN s1 = LLEN s" "lcap s1 = lcap s"
      "lmem s1 = take j (lmem s) @ map Some (drop (j - 1) xs) @ drop (j + (?n + 1 - j)) (lmem s)" by auto
    have "take (j - 1) (take ?n (lmem s)) = map Some (take (j - 1) xs)" unfolding s(3) take_map ..
    then have "take (j - 1) (lmem s1) = map Some (take (j - 1) xs)"
      using s1(4) l True by (simp add: min_def split: if_splits)
    moreover have "room es s1 (Suc ?n)" using room_keep [OF s(2), of s1] s1 l True assms(3) by simp
    moreover have "take (?n + 1 - j) (drop j (lmem s1)) = map Some (drop (j - 1) xs)"
      using s1(4) l True assms(3) by simp
    moreover have "copy_from s j (?n + 1 - j) = Some (map Some (drop (j - 1) xs))"
      using vs l assms(3) True by (simp add: copy_from_def)
    ultimately show ?thesis using s1(1) True by simp
  next
    case False
    with assms have j: "j = ?n + 1" by simp
    with s show ?thesis by simp
  qed
  then obtain s1 where s1: "(if j < ?n + 1 then do { vs \<leftarrow> copy_from s j (?n + 1 - j); copy_to s (j + 1) vs } else Some s) = Some s1"
      "room es s1 (Suc ?n)" "take (j - 1) (lmem s1) = map Some (take (j - 1) xs)"
      "take (?n + 1 - j) (drop j (lmem s1)) = map Some (drop (j - 1) xs)" by blast
  have l1: "Suc ?n \<le> length (lmem s1)" by (rule room_length [OF s1(2)])
  with poke_Some [of j s1 "Some ?v"] assms obtain s2 where s2: "poke s1 j (Some ?v) = Some s2" by auto
  note p = poke_simps [OF s2]
  obtain k where k: "j = Suc k" using assms(3) by (cases j) auto
  have "take (Suc ?n) (lmem s2) = take k (lmem s1) @ Some ?v # take (?n - k) (drop (Suc k) (lmem s1))"
    using l1 assms(4) unfolding p(3) k by (simp add: upd_conv_take_nth_drop take_Cons' Suc_diff_le)
  then have "take (Suc ?n) (lmem s2) = map Some (take (j - 1) xs @ ?v # drop (j - 1) xs)"
    using s1(3,4) k by simp
  moreover have "length (take (j - 1) xs @ ?v # drop (j - 1) xs) = Suc ?n" using assms by simp
  ultimately have "holds es s2 (take (j - 1) xs @ ?v # drop (j - 1) xs)"
    using room_keep [OF s1(2), of s2] p by (simp only: holds_def length_list_update)
  moreover have "insertArrayN zero sp j new es = Some s2"
    using assms(3,4) s2 unfolding insertArrayN_def Let_def holds_len(2) [OF assms(1)] s(1) Option.bind.bind_lunit s1(1)
    by simp
  ultimately show ?thesis by blast
qed

lemma removeArrayN_ok:
  assumes "holds es s xs" "1 \<le> i" "i \<le> length xs"
  shows "\<exists>s'. removeArrayN s i = Some s' \<and> holds es s' (take (i - 1) xs @ drop i xs)"
proof -
  let ?n = "length xs"
  have r: "room es s ?n" and t: "take ?n (lmem s) = map Some xs" using assms by (auto simp: holds_def)
  have l: "?n \<le> length (lmem s)" by (rule room_length [OF r])
  have L: "LLEN s = ?n" by (rule holds_len(1) [OF assms(1)])
  obtain k where k: "i = Suc k" using assms(2) by (cases i) auto
  have "\<exists>s1. (if i < ?n then do { vs \<leftarrow> copy_from s (i + 1) (?n - i); copy_to s i vs } else Some s) = Some s1 \<and>
      room es s1 ?n \<and> take (?n - 1) (lmem s1) = map Some (take (i - 1) xs @ drop i xs)"
  proof (cases "i < ?n")
    case True
    have vs: "take (?n - i) (drop i (lmem s)) = map Some (drop i xs)"
      using t by (metis drop_map drop_take)
    have "i - 1 + length (map Some (drop i xs)) \<le> length (lmem s)" using l assms(3) by simp
    from copy_to_ok [OF assms(2) this] obtain s1 where
      s1: "copy_to s i (map Some (drop i xs)) = Some s1" "LLEN s1 = LLEN s" "lcap s1 = lcap s"
      "lmem s1 = take k (lmem s) @ map Some (drop i xs) @ drop (k + (?n - i)) (lmem s)" by (auto simp: k)
    have "take k (lmem s) = map Some (take k xs)" using t True k by (metis Suc_lessD less_imp_le min_absorb1 take_map take_take)
    then have "take (?n - 1) (lmem s1) = map Some (take (i - 1) xs @ drop i xs)"
      using s1(4) l True k by simp
    moreover have "room es s1 ?n" using room_keep [OF r, of s1] s1 l True k by simp
    moreover have "copy_from s (i + 1) (?n - i) = Some (map Some (drop i xs))"
      using vs l True by (simp add: copy_from_def)
    ultimately show ?thesis using s1(1) True by simp
  next
    case False
    with assms have i: "i = ?n" by simp
    have "take (?n - 1) (lmem s) = map Some (take (?n - 1) xs)" using t by (metis diff_le_self min_absorb1 take_map take_take)
    with False i r show ?thesis by simp
  qed
  then obtain s1 where s1: "(if i < ?n then do { vs \<leftarrow> copy_from s (i + 1) (?n - i); copy_to s i vs } else Some s) = Some s1"
    "room es s1 ?n" "take (?n - 1) (lmem s1) = map Some (take (i - 1) xs @ drop i xs)" by blast
  have "length (take (i - 1) xs @ drop i xs) = ?n - 1" using assms by simp
  then have "holds es (setLLEN s1 (?n - 1)) (take (i - 1) xs @ drop i xs)"
    using s1(3) room_setLLEN [OF s1(2), of "?n - 1"] by (simp only: holds_def setLLEN_simps(3) diff_le_self simp_thms)
  then show ?thesis using s1(1) assms(2,3) by (simp add: removeArrayN_def Let_def L)
qed

lemma removeLineN_ok:
  assumes "lines_hold es sp xs"
  shows "\<exists>sp'. removeLineN sp i = Some (if 1 \<le> i \<and> i \<le> length xs then Some (xs ! (i - 1)) else None, sp') \<and>
    lines_hold es sp' (if 1 \<le> i \<and> i \<le> length xs then take (i - 1) xs @ drop i xs else xs)"
proof (cases "1 \<le> i \<and> i \<le> length xs")
  case False
  then show ?thesis using assms holds_len(2) [OF assms] by (auto simp: removeLineN_def)
next
  case True
  with assms obtain s where s: "sp = Some s" "holds es s xs" by (cases sp) (auto simp: lines_hold_def)
  from removeArrayN_ok [OF s(2)] True obtain s' where "removeArrayN s i = Some s'"
    "holds es s' (take (i - 1) xs @ drop i xs)" by blast
  with True s holds_peek [OF s(2)] holds_len(2) [OF assms] show ?thesis
    by (auto simp: removeLineN_def lines_hold_def)
qed

lemma popArray_ok:
  assumes "lines_hold es sp xs"
  shows "\<exists>sp'. popArray zero sp = Some (if xs = [] then zero else last xs, sp') \<and> lines_hold es sp' (butlast xs)"
proof (cases "xs = []")
  case True
  then show ?thesis using assms by (auto simp: popArray_def lines_hold_def dest: holds_len split: option.splits)
next
  case False
  with assms obtain s where s: "sp = Some s" "holds es s xs" by (cases sp) (auto simp: lines_hold_def)
  with False removeArrayN_ok [OF s(2), of "length xs"] holds_peek [OF s(2), of "length xs"] holds_len(1) [OF s(2)] show ?thesis
    by (auto simp: popArray_def lines_hold_def last_conv_nth butlast_conv_take Suc_le_eq)
qed

lemma holds_poke:
  assumes "holds es s xs" "1 \<le> i" "i \<le> length xs"
  shows "\<exists>s'. poke s i (Some v) = Some s' \<and> holds es s' (xs[i - 1 := v])"
proof -
  have r: "room es s (length xs)" and t: "take (length xs) (lmem s) = map Some xs" using assms by (auto simp: holds_def)
  have "i \<le> length (lmem s)" using room_length [OF r] assms(3) by simp
  with poke_Some [OF assms(2)] obtain s' where s': "poke s i (Some v) = Some s'" by blast
  note p = poke_simps [OF s']
  have "take (length xs) (lmem s') = map Some (xs[i - 1 := v])"
    using t unfolding p(3) by (simp add: take_update_swap map_update)
  with s' p room_keep [OF r, of s'] show ?thesis by (auto simp: holds_def)
qed

text \<open>After swapping the ends inwards \<open>i - 1\<close> times, the parts outside are reversed.\<close>

lemma rev_loop_ok:
  fixes xs :: "'a list"
  assumes "holds es s xs" "1 \<le> i" "e \<le> length xs" "i \<le> e + 1"
  shows "\<exists>s'. rev_loop i e s = Some s' \<and>
    holds es s' (take (i - 1) xs @ rev (drop (i - 1) (take e xs)) @ drop e xs)"
  using assms
proof (induction "e - i" arbitrary: i e s xs rule: less_induct)
  case less
  show ?case
  proof (cases "i < e")
    case False
    with less.prems have "length (drop (i - 1) (take e xs)) \<le> 1" by simp
    moreover have "length ys \<le> 1 \<Longrightarrow> rev ys = ys" for ys :: "'a list" by (cases ys; cases "tl ys") auto
    ultimately have "rev (drop (i - 1) (take e xs)) = drop (i - 1) (take e xs)" by blast
    moreover have "take (i - 1) xs @ drop (i - 1) (take e xs) @ drop e xs = xs"
    proof -
      have "i - 1 \<le> e" using less.prems by simp
      then have "take (i - 1) xs = take (i - 1) (take e xs)" by (simp add: min_absorb1)
      then show ?thesis by (metis append_assoc append_take_drop_id)
    qed
    ultimately show ?thesis using False less.prems by (simp add: rev_loop.simps)
  next
    case True
    let ?x = "xs ! (i - 1)" and ?y = "xs ! (e - 1)"
    let ?xs = "xs[i - 1 := ?y, e - 1 := ?x]"
    from holds_poke [OF less.prems(1,2), of ?y] True less.prems obtain s1 where
      s1: "poke s i (Some ?y) = Some s1" "holds es s1 (xs[i - 1 := ?y])" by auto
    from holds_poke [OF s1(2), of e ?x] True less.prems obtain s2 where
      s2: "poke s1 e (Some ?x) = Some s2" "holds es s2 ?xs" by auto
    have pk: "peek s i = Some ?x" "peek s e = Some ?y" using holds_peek [OF less.prems(1)] True less.prems by auto
    have "e - 1 - (i + 1) < e - i" "1 \<le> i + 1" "e - 1 \<le> length ?xs" "i + 1 \<le> e - 1 + 1"
      using True less.prems by auto
    from less.hyps [OF this(1) s2(2) this(2-)] obtain s' where
      s': "rev_loop (i + 1) (e - 1) s2 = Some s'"
      "holds es s' (take i ?xs @ rev (drop i (take (e - 1) ?xs)) @ drop (e - 1) ?xs)" by auto
    obtain k where k: "i = Suc k" using less.prems(2) by (cases i) auto
    obtain l where l: "e = Suc l" using True by (cases e) auto
    have kl: "k < l" "l < length xs" using True less.prems k l by auto
    have "take i ?xs = take k xs @ [?y]" using kl k l by (simp add: take_Suc_conv_app_nth take_update_cancel)
    moreover have "drop l ?xs = ?x # drop e xs" using kl k l by (simp add: drop_update_swap Cons_nth_drop_Suc [symmetric])
    moreover have "drop i (take l ?xs) = drop i (take l xs)"
      using kl k l by (simp add: take_update_cancel) (simp add: take_update_swap)
    moreover have "drop k (take e xs) = ?x # drop i (take l xs) @ [?y]"
      using kl k l by (simp add: take_Suc_conv_app_nth Cons_nth_drop_Suc [symmetric])
    ultimately have "holds es s' (take k xs @ rev (drop k (take e xs)) @ drop e xs)"
      using s'(2) l by simp
    then show ?thesis using True pk s1(1) s2(1) s'(1) k by (subst rev_loop.simps) simp
  qed
qed

lemma reverseLines_ok:
  assumes "lines_hold es sp xs"
  shows "\<exists>sp'. reverseLines sp = Some sp' \<and> lines_hold es sp' (rev xs)"
proof (cases sp)
  case None
  with assms show ?thesis by (simp add: reverseLines_def lines_hold_def)
next
  case (Some s)
  with assms have h: "holds es s xs" by (simp add: lines_hold_def)
  from rev_loop_ok [OF h, of 1 "length xs"] Some holds_len(1) [OF h] show ?thesis
    by (auto simp: reverseLines_def lines_hold_def)
qed

section \<open>The macros on top, and the interface\<close>

definition insertLineN :: "'a lines \<Rightarrow> nat \<Rightarrow> 'a \<Rightarrow> 'a lines option" where
  "insertLineN sp n val = map_option Some (insertArrayN val sp n (Some val) 8)"

definition unshiftLine :: "'a lines \<Rightarrow> 'a \<Rightarrow> 'a lines option" where
  "unshiftLine sp val = insertLineN sp 1 val"

definition pushLine :: "'a lines \<Rightarrow> 'a \<Rightarrow> 'a lines option" where
  "pushLine sp l = map_option Some (addLine sp (Some l))"

text \<open>Programs over an array: the operations, what they do to a list, and how they run on an array.\<close>

datatype 'a lop = Push 'a | Insert nat 'a | Remove nat | Trunc nat | Reverse

fun list_op :: "'a lop \<Rightarrow> 'a list \<Rightarrow> 'a list option" where
  "list_op (Push x) xs = Some (xs @ [x])"
| "list_op (Insert i x) xs =
     (if 1 \<le> i \<and> i \<le> length xs + 1 then Some (take (i - 1) xs @ x # drop (i - 1) xs) else None)"
| "list_op (Remove i) xs = Some (if 1 \<le> i \<and> i \<le> length xs then take (i - 1) xs @ drop i xs else xs)"
| "list_op (Trunc n) xs = (if n \<le> length xs then Some (take n xs) else None)"
| "list_op Reverse xs = Some (rev xs)"

fun list_ops :: "'a lop list \<Rightarrow> 'a list \<Rightarrow> 'a list option" where
  "list_ops [] xs = Some xs"
| "list_ops (p # ps) xs = do { xs \<leftarrow> list_op p xs; list_ops ps xs }"

fun lines_op :: "'a lop \<Rightarrow> 'a lines \<Rightarrow> 'a lines option" where
  "lines_op (Push x) sp = pushLine sp x"
| "lines_op (Insert i x) sp = insertLineN sp i x"
| "lines_op (Remove i) sp = map_option snd (removeLineN sp i)"
| "lines_op (Trunc n) sp = truncArray sp n"
| "lines_op Reverse sp = reverseLines sp"

fun run_ops :: "('p \<Rightarrow> 's \<Rightarrow> 's option) \<Rightarrow> 'p list \<Rightarrow> 's \<Rightarrow> 's option" where
  "run_ops f [] s = Some s"
| "run_ops f (p # ps) s = do { s \<leftarrow> f p s; run_ops f ps s }"

text \<open>
  What a client of the arrays relies on: an operation that is allowed on the list runs on the
  array and gives an array of the new list, as long as the array stays below its capacity.
\<close>

locale flexible_array =
  fixes rep :: "'s \<Rightarrow> 'a list \<Rightarrow> bool"
    and cap :: nat
    and exec :: "'a lop \<Rightarrow> 's \<Rightarrow> 's option"
    and get :: "'s \<Rightarrow> nat \<Rightarrow> 'a option"
    and len :: "'s \<Rightarrow> nat"
  assumes exec_list: "rep s xs \<Longrightarrow> length xs < cap \<Longrightarrow> list_op p xs = Some ys \<Longrightarrow> \<exists>s'. exec p s = Some s' \<and> rep s' ys"
    and get_nth: "rep s xs \<Longrightarrow> 1 \<le> i \<Longrightarrow> i \<le> length xs \<Longrightarrow> get s i = Some (xs ! (i - 1))"
    and len_list: "rep s xs \<Longrightarrow> len s = length xs"
begin

lemma list_op_length: "list_op p xs = Some ys \<Longrightarrow> length ys \<le> Suc (length xs)"
  by (cases p) (auto split: if_splits)

lemma run_refines:
  "rep s xs \<Longrightarrow> length xs + length ps \<le> cap \<Longrightarrow> list_ops ps xs = Some ys \<Longrightarrow> \<exists>s'. run_ops exec ps s = Some s' \<and> rep s' ys"
proof (induction ps arbitrary: s xs)
  case (Cons p ps)
  then obtain zs where zs: "list_op p xs = Some zs" "list_ops ps zs = Some ys" by (auto simp: bind_eq_Some_conv)
  from exec_list [OF Cons.prems(1) _ zs(1)] Cons.prems(2) obtain s' where s': "exec p s = Some s'" "rep s' zs" by auto
  with Cons.IH [OF s'(2) _ zs(2)] list_op_length [OF zs(1)] Cons.prems(2) show ?case by auto
qed simp

text \<open>The array as a stack.\<close>

lemma push_top:
  assumes "rep s xs" "length xs + 1 < cap"
  shows "\<exists>s' s''. exec (Push x) s = Some s' \<and> get s' (len s') = Some x \<and> exec (Remove (len s')) s' = Some s'' \<and> rep s'' xs"
proof -
  from exec_list [OF assms(1), of "Push x"] assms(2) obtain s' where s': "exec (Push x) s = Some s'" "rep s' (xs @ [x])" by auto
  from exec_list [OF s'(2), of "Remove (len s')"] assms(2) len_list [OF s'(2)] obtain s'' where
    "exec (Remove (len s')) s' = Some s''" "rep s'' xs" by auto
  then show ?thesis using s' get_nth [OF s'(2), of "len s'"] len_list [OF s'(2)] by auto
qed

lemma run_pushes:
  assumes "rep s xs" "length xs + length ys \<le> cap"
  shows "\<exists>s'. run_ops exec (map Push ys) s = Some s' \<and> rep s' (xs @ ys)"
proof -
  have "list_ops (map Push ys) xs = Some (xs @ ys)" for xs by (induction ys arbitrary: xs) auto
  with run_refines [OF assms(1), of "map Push ys"] assms(2) show ?thesis by auto
qed

end

text \<open>The element \<open>s[i]\<close> of an array.\<close>

definition lines_get :: "'a lines \<Rightarrow> nat \<Rightarrow> 'a option" where
  "lines_get sp i = Option.bind sp (\<lambda>s. peek s i)"

lemma fits_8: "fits 8 n \<longleftrightarrow> n < 2 ^ 27"
  by (auto simp: fits_def)

interpretation lns: flexible_array "lines_hold 8" "2 ^ 27 - 1" lines_op lines_get nLines
proof
  fix sp :: "'a lines" and xs ys :: "'a list" and p
  assume h: "lines_hold 8 sp xs" and n: "length xs < 2 ^ 27 - 1" and p: "list_op p xs = Some ys"
  have f: "fits 8 (length xs + 1)" unfolding fits_8 using n by simp
  show "\<exists>sp'. lines_op p sp = Some sp' \<and> lines_hold 8 sp' ys"
  proof (cases p)
    case (Push x)
    with addLine_ok(1) [OF h f, of x] p show ?thesis by (auto simp: pushLine_def lines_hold_def)
  next
    case (Insert i x)
    with insertArrayN_ok [OF h f, of i x "Some x"] p show ?thesis by (auto simp: insertLineN_def lines_hold_def split: if_splits)
  next
    case (Remove i)
    with removeLineN_ok [OF h, of i] p show ?thesis by auto
  next
    case (Trunc m)
    with truncArray_ok [OF h, of m] p show ?thesis by (auto split: if_splits)
  next
    case Reverse
    with reverseLines_ok [OF h] p show ?thesis by auto
  qed
next
  fix sp :: "'a lines" and xs :: "'a list" and i
  assume h: "lines_hold 8 sp xs" and i: "1 \<le> i" "i \<le> length xs"
  then obtain s where "sp = Some s" "holds 8 s xs" by (cases sp) (auto simp: lines_hold_def)
  with holds_peek [OF _ i] show "lines_get sp i = Some (xs ! (i - 1))" by (simp add: lines_get_def)
qed (rule holds_len(2))

text \<open>
  C8.  The arrays implement lists.  Any program of additions, insertions, removals, truncations
  and reversals that is allowed on a list runs on an array that starts as a null pointer, with
  fewer than \<open>2 ^ 27\<close> operations: no assertion fails, no slot outside the block is written, no
  empty slot is read, the block keeps its invariant, and the array has the elements of the
  list in its slots.
\<close>

theorem lines_refine_lists:
  assumes "list_ops ps [] = Some xs" and "length ps < 2 ^ 27"
  shows "\<exists>sp. run_ops lines_op ps None = Some sp \<and> lines_hold 8 sp xs \<and> nLines sp = length xs \<and>
    (\<forall>i. 1 \<le> i \<and> i \<le> length xs \<longrightarrow> lines_get sp i = Some (xs ! (i - 1)))"
proof -
  have "lines_hold 8 None ([] :: 'a list)" by (simp add: lines_hold_def)
  from lns.run_refines [OF this _ assms(1)] assms(2) obtain sp where
    "run_ops lines_op ps None = Some sp" "lines_hold 8 sp xs" by auto
  then show ?thesis using lns.len_list lns.get_nth by blast
qed

theorem lines_refine_lists_witness:
  "\<exists>sp. run_ops lines_op [Push 1, Push 2, Insert 2 (7 :: nat), Reverse, Remove 1, Trunc 1] None = Some sp \<and> nLines sp = 1 \<and>
    lines_get sp 1 = Some 7"
proof -
  have "list_ops [Push 1, Push 2, Insert 2 7, Reverse, Remove 1, Trunc 1] [] = Some [7 :: nat]" by code_simp
  from lines_refine_lists [OF this] show ?thesis by fastforce
qed

text \<open>
  C9.  The limit of \<open>2 ^ 27\<close> entries is not checked: adding a line to an array that has
  \<open>2 ^ 27 - 1\<close> of them carries into the size field, the length reads 0, and the line is written
  over the header.
\<close>

theorem addLine_limit:
  assumes "holds 8 s xs" and "length xs = 2 ^ 27 - 1"
  shows "\<exists>s'. growArray_int (Some s) 1 8 = Some s' \<and> LLEN s' = 0 \<and> addLine (Some s) (Some x) = None"
proof -
  have r: "lcap s \<le> 27" "LLEN s = 2 ^ 27 - 1" "2 ^ 27 - 1 < (2 :: nat) ^ lcap s"
    using assms by (auto simp: holds_def room_def)
  have c: "lcap s = 27"
  proof (rule ccontr)
    assume "lcap s \<noteq> 27"
    with r(1) have "(2 :: nat) ^ lcap s \<le> 2 ^ 26" by (intro power_increasing) auto
    with r(3) show False by simp
  qed
  have "lhdr s AND LMASK = of_nat (LLEN s)" by (simp add: LLEN_def)
  then have h: "(lhdr s AND LMASK) + 1 = 0x8000000" using r(2) by simp
  have g: "grow_loop 0x8000000 0x8000000 27 = Some (0x10000000, 28)"
    by (subst grow_loop.simps, simp, subst grow_loop.simps, simp)
  have m: "\<exists>mem. realloc_slots (lmem s) 0x10000000 8 = Some mem" by (simp add: realloc_slots_def Let_def)
  have "push_bit LBITS 28 OR 0x8000000 = (0xe8000000 :: u32)" by (simp add: LBITS_def push_bit_eq_mult)
  with c h g m have "\<exists>mem. growArray_int (Some s) 1 8 = Some \<lparr>lhdr = 0xe8000000, lmem = mem\<rparr>"
    by (auto simp: growArray_int_def Let_def push_bit_eq_mult)
  then show ?thesis by (auto simp: LLEN_def LMASK_def addLine_def poke_def)
qed

theorem addLine_limit_witness:
  "\<exists>s'. growArray_int (Some \<lparr>lhdr = 0xdfffffff, lmem = replicate (2 ^ 27 - 1) (Some ''x'')\<rparr>) 1 8 = Some s' \<and> LLEN s' = 0"
proof -
  let ?s = "\<lparr>lhdr = 0xdfffffff, lmem = replicate (2 ^ 27 - 1) (Some ''x'')\<rparr>"
  have "LLEN ?s = 2 ^ 27 - 1" by (simp add: LLEN_def LMASK_def)
  moreover have "lcap ?s = 27" by (simp add: lcap_def LBITS_def drop_bit_eq_div)
  ultimately have "holds 8 ?s (replicate (2 ^ 27 - 1) ''x'')" by (simp add: holds_def room_def map_replicate)
  from addLine_limit [OF this] show ?thesis by fastforce
qed

end
