(* ===== verification/BK_LineOps.thy ===== *)
theory BK_LineOps
  imports BK_Lines
begin

text \<open>
  The rest of \<open>libc/utils/lines.c\<close>: searching, sorting, removing duplicates and matches in place,
  joining and splitting, and the parallel walk over two sorted arrays.
\<close>

section \<open>Arrays of strings\<close>

text \<open>The elements that \<open>EACH\<close> visits.\<close>

definition EACH :: "'a lines \<Rightarrow> 'a list option" where
  "EACH sp = (case sp of None \<Rightarrow> Some [] | Some s \<Rightarrow> those (map (peek s) [1..<Suc (LLEN s)]))"

fun find_loop :: "'a larr \<Rightarrow> 'a \<Rightarrow> nat list \<Rightarrow> nat option" where
  "find_loop s needle [] = Some 0"
| "find_loop s needle (i # is) = do { x \<leftarrow> peek s i; if x = needle then Some i else find_loop s needle is }"

definition findLine :: "'a lines \<Rightarrow> 'a \<Rightarrow> nat option" where
  "findLine haystack needle =
     (case haystack of None \<Rightarrow> Some 0 | Some s \<Rightarrow> find_loop s needle [1..<Suc (LLEN s)])"

text \<open>The comparison functions; \<open>strcmp\<close> compares bytes as unsigned numbers.\<close>

fun strcmp :: "string \<Rightarrow> string \<Rightarrow> int" where
  "strcmp [] [] = 0"
| "strcmp [] (b # bs) = - of_char b"
| "strcmp (a # as) [] = of_char a"
| "strcmp (a # as) (b # bs) = (if a = b then strcmp as bs else of_char a - of_char b)"

definition tolower :: "char \<Rightarrow> char" where
  "tolower c = (if 65 \<le> (of_char c :: nat) \<and> (of_char c :: nat) \<le> 90 then char_of (of_char c + 32 :: nat) else c)"

definition string_sort :: "string \<Rightarrow> string \<Rightarrow> int" where
  "string_sort l r = strcmp l r"

definition stringcase_sort :: "string \<Rightarrow> string \<Rightarrow> int" where
  "stringcase_sort l r = strcmp (map tolower l) (map tolower r)"

definition string_sortrev :: "string \<Rightarrow> string \<Rightarrow> int" where
  "string_sortrev l r = strcmp r l"

text \<open>The \<open>qsort\<close> of the C library.\<close>

fun qinsert :: "('a \<Rightarrow> 'a \<Rightarrow> int) \<Rightarrow> 'a \<Rightarrow> 'a list \<Rightarrow> 'a list" where
  "qinsert compar x [] = [x]"
| "qinsert compar x (y # ys) = (if compar x y \<le> 0 then x # y # ys else y # qinsert compar x ys)"

definition qsort :: "('a \<Rightarrow> 'a \<Rightarrow> int) \<Rightarrow> 'a list \<Rightarrow> 'a list" where
  "qsort compar xs = foldr (qinsert compar) xs []"

definition sortArray :: "('a \<Rightarrow> 'a \<Rightarrow> int) \<Rightarrow> 'a lines \<Rightarrow> 'a lines option" where
  "sortArray compar sp =
     (case sp of
        None \<Rightarrow> Some None
      | Some s \<Rightarrow>
          do { vs \<leftarrow> copy_from s 1 (LLEN s);
               xs \<leftarrow> those vs;
               s \<leftarrow> copy_to s 1 (map Some (qsort compar xs));
               Some (Some s) })"

text \<open>\<open>uniqLines\<close>: the array that is left and the lines given to the function that frees them.\<close>

fun uniq_skip :: "'a larr \<Rightarrow> nat list \<Rightarrow> nat option option" where
  "uniq_skip s [] = Some None"
| "uniq_skip s (src # is) =
     (if src > 1 then
        do { a \<leftarrow> peek s (src - 1); b \<leftarrow> peek s src; if a = b then Some (Some src) else uniq_skip s is }
      else uniq_skip s is)"

fun uniq_copy :: "nat list \<Rightarrow> nat \<Rightarrow> 'a list \<Rightarrow> 'a larr \<Rightarrow> (nat \<times> 'a list \<times> 'a larr) option" where
  "uniq_copy [] dst freed s = Some (dst, freed, s)"
| "uniq_copy (src # is) dst freed s =
     do { x \<leftarrow> peek s src;
          y \<leftarrow> peek s dst;
          if x = y then uniq_copy is dst (freed @ [x]) s
          else do { s \<leftarrow> poke s (dst + 1) (Some x); uniq_copy is (dst + 1) freed s } }"

definition uniqLines :: "string lines \<Rightarrow> (string lines \<times> string list) option" where
  "uniqLines sp =
     do { sp \<leftarrow> sortArray string_sort sp;
          case sp of
            None \<Rightarrow> Some (None, [])
          | Some s \<Rightarrow>
              do { d \<leftarrow> uniq_skip s [1..<Suc (LLEN s)];
                   case d of
                     None \<Rightarrow> Some (Some s, [])
                   | Some src \<Rightarrow>
                       do { (dst, freed, s) \<leftarrow> uniq_copy [src..<Suc (LLEN s)] (src - 1) [] s;
                            sp \<leftarrow> truncArray (Some s) dst;
                            Some (sp, freed) } } }"

definition sameLines :: "'a lines \<Rightarrow> 'a lines \<Rightarrow> bool option" where
  "sameLines p p2 =
     (if p = None \<or> p2 = None then Some False
      else if nLines p \<noteq> nLines p2 then Some False
      else do { xs \<leftarrow> EACH p; ys \<leftarrow> EACH p2; Some (list_all2 (=) xs ys) })"

text \<open>\<open>removeLine\<close>: how many lines were removed, the array that is left and the freed lines.\<close>

fun remove_skip :: "'a larr \<Rightarrow> 'a \<Rightarrow> nat list \<Rightarrow> nat option option" where
  "remove_skip s x [] = Some None"
| "remove_skip s x (src # is) = do { a \<leftarrow> peek s src; if a = x then Some (Some src) else remove_skip s x is }"

fun remove_copy :: "'a \<Rightarrow> nat list \<Rightarrow> nat \<Rightarrow> nat \<Rightarrow> 'a list \<Rightarrow> 'a larr \<Rightarrow> (nat \<times> nat \<times> 'a list \<times> 'a larr) option" where
  "remove_copy x [] dst n freed s = Some (dst, n, freed, s)"
| "remove_copy x (src # is) dst n freed s =
     do { a \<leftarrow> peek s src;
          if a = x then remove_copy x is dst (n + 1) (freed @ [a]) s
          else do { s \<leftarrow> poke s (dst + 1) (Some a); remove_copy x is (dst + 1) n freed s } }"

definition removeLine :: "'a lines \<Rightarrow> 'a \<Rightarrow> (nat \<times> 'a lines \<times> 'a list) option" where
  "removeLine sp x =
     (case sp of
        None \<Rightarrow> Some (0, None, [])
      | Some s \<Rightarrow>
          do { m \<leftarrow> remove_skip s x [1..<Suc (LLEN s)];
               case m of
                 None \<Rightarrow> Some (0, sp, [])
               | Some src \<Rightarrow>
                   do { (dst, n, freed, s) \<leftarrow> remove_copy x [src..<Suc (LLEN s)] (src - 1) 0 [] s;
                        sp \<leftarrow> truncArray (Some s) dst;
                        Some (n, sp, freed) } })"

text \<open>
  \<open>joinLines\<close> computes the size of the buffer first, in an \<open>int\<close>, and then copies; a copy that does
  not fit with its NUL would be \<open>None\<close>.  The result for an empty array is a null pointer.
\<close>

fun join_len :: "nat \<Rightarrow> string list \<Rightarrow> nat \<Rightarrow> nat option" where
  "join_len slen [] len = Some len"
| "join_len slen (x # xs) len =
     do { len \<leftarrow> to_int (len + length x);
          len \<leftarrow> to_int (len + slen);
          join_len slen xs len }"

definition strcpy_at :: "nat \<Rightarrow> string \<Rightarrow> string \<Rightarrow> string option" where
  "strcpy_at len buf x = (if length buf + length x + 1 \<le> len then Some (buf @ x) else None)"

fun join_loop :: "nat \<Rightarrow> string option \<Rightarrow> string list \<Rightarrow> string \<Rightarrow> string option" where
  "join_loop len sep [] buf = Some buf"
| "join_loop len sep (x # xs) buf =
     do { buf \<leftarrow> strcpy_at len buf x;
          buf \<leftarrow> (case sep of Some t \<Rightarrow> strcpy_at len buf t | None \<Rightarrow> Some buf);
          join_loop len sep xs buf }"

definition joinLines :: "string option \<Rightarrow> string lines \<Rightarrow> string option option" where
  "joinLines sep sp =
     (if emptyLines sp then Some None
      else
        do { xs \<leftarrow> EACH sp;
             slen \<leftarrow> to_int (case sep of Some t \<Rightarrow> length t | None \<Rightarrow> 0);
             len \<leftarrow> join_len slen xs 0;
             len \<leftarrow> to_int (len + 1);
             buf \<leftarrow> join_loop len sep xs [];
             Some (Some (case sep of Some t \<Rightarrow> take (length buf - slen) buf | None \<Rightarrow> buf)) })"

function splitLine :: "string \<Rightarrow> string \<Rightarrow> string lines \<Rightarrow> string lines option" where
  "splitLine line delim tokens =
     (let line = drop (strspn line delim) line;
          len = strcspn line delim
      in if len = 0 then Some tokens
         else do { len \<leftarrow> to_int len;
                   s \<leftarrow> addLine tokens (Some (take len line));
                   splitLine (drop len line) delim (Some s) })"
  by auto
termination
proof (relation "measure (\<lambda>(line, delim, tokens). length line)", goal_cases)
  case (2 line delim tokens x xa xb xc)
  have "length x \<le> length line" using 2(1) by simp
  moreover have "xa \<le> length x" using 2(2) by (simp add: strcspn_def length_takeWhile_le)
  moreover have "xb = xa" using 2(4) by (simp add: to_int_eq_Some)
  ultimately show ?case using 2(3) by simp
qed simp

declare splitLine.simps [simp del]

text \<open>\<open>parallelLines\<close>; the callback threads its token and returns an \<open>int\<close>, and the sum is one.\<close>

function par_loop ::
  "'a lines \<Rightarrow> 'a lines \<Rightarrow> ('a \<Rightarrow> 'a \<Rightarrow> int) \<Rightarrow> ('t \<Rightarrow> 'a option \<Rightarrow> 'a option \<Rightarrow> 't \<times> int) \<Rightarrow> nat \<Rightarrow> nat \<Rightarrow> 't \<Rightarrow> int
     \<Rightarrow> ('t \<times> int) option" where
  "par_loop a b compar walk i j token acc =
     (if i \<le> nLines a \<or> j \<le> nLines b then
        do { x \<leftarrow> (if i \<le> nLines a then map_option Some (Option.bind a (\<lambda>a. peek a i)) else Some None);
             y \<leftarrow> (if j \<le> nLines b then map_option Some (Option.bind b (\<lambda>b. peek b j)) else Some None);
             let cmp = (case (x, y) of (None, _) \<Rightarrow> 1 | (_, None) \<Rightarrow> -1 | (Some u, Some v) \<Rightarrow> compar u v);
             let aa = (if cmp > 0 then None else x);
             let bb = (if cmp < 0 then None else y);
             let (token, r) = walk token aa bb;
             if r < 0 then Some (token, r)
             else par_loop a b compar walk (if aa = None then i else i + 1) (if bb = None then j else j + 1) token (wrap32 (acc + r)) }
      else Some (token, acc))"
  by auto
termination
  by (relation "measure (\<lambda>(a, b, compar, walk, i, j, token, acc). (Suc (nLines a) - i) + (Suc (nLines b) - j))")
    (auto split: if_splits option.splits)

declare par_loop.simps [simp del]

definition parallelLines ::
  "'a lines \<Rightarrow> 'a lines \<Rightarrow> ('a \<Rightarrow> 'a \<Rightarrow> int) \<Rightarrow> ('t \<Rightarrow> 'a option \<Rightarrow> 'a option \<Rightarrow> 't \<times> int) \<Rightarrow> 't \<Rightarrow> ('t \<times> int) option" where
  "parallelLines a b compar walk token = par_loop a b compar walk 1 1 token 0"

text \<open>\<open>allocArray\<close>: an array that has its length before it has its elements.\<close>

function alloc_cap :: "nat \<Rightarrow> nat \<Rightarrow> nat" where
  "alloc_cap len c = (if len \<ge> 2 ^ c then alloc_cap len (Suc c) else c)"
  by auto
termination
  by (relation "measure (\<lambda>(len, c). len - c)") (auto intro: diff_less_mono2 less_le_trans [OF less_exp])

declare alloc_cap.simps [simp del]

definition allocArray :: "nat \<Rightarrow> nat \<Rightarrow> 'a larr option" where
  "allocArray len esize =
     (if esize < 4 then None
      else
        (let c = alloc_cap len 4
         in Some \<lparr>lhdr = push_bit LBITS (of_nat c) OR of_nat len, lmem = replicate (2 ^ c - 1) None\<rparr>))"

section \<open>The operations on strings\<close>

lemma those_map_Some [simp]: "those (map Some xs) = Some xs"
  by (induction xs) auto

lemma EACH_ok: "lines_hold es sp xs \<Longrightarrow> EACH sp = Some xs"
proof (cases sp)
  case (Some s)
  assume "lines_hold es sp xs"
  with Some have h: "holds es s xs" by (simp add: lines_hold_def)
  have "map (peek s) [1..<Suc (length xs)] = map Some xs"
    using holds_peek [OF h] by (intro nth_equalityI) (auto simp del: upt_Suc)
  then show ?thesis using Some holds_len(1) [OF h] by (simp add: EACH_def del: upt_Suc)
qed (simp add: EACH_def lines_hold_def)

lemma find_loop_ok:
  "holds es s (pre @ xs) \<Longrightarrow> find_loop s x [Suc (length pre)..<Suc (length pre + length xs)] =
     Some (if x \<in> set xs then Suc (length pre + length (takeWhile (\<lambda>y. y \<noteq> x) xs)) else 0)"
proof (induction xs arbitrary: pre)
  case (Cons a xs)
  have "peek s (Suc (length pre)) = Some a" using holds_peek [OF Cons.prems, of "Suc (length pre)"] by (simp add: nth_append)
  then show ?case using Cons.IH [of "pre @ [a]"] Cons.prems by (auto simp: upt_conv_Cons simp del: upt_Suc)
qed simp

lemma findLine_ok:
  assumes "lines_hold es sp xs"
  shows "findLine sp x = Some (if x \<in> set xs then Suc (length (takeWhile (\<lambda>y. y \<noteq> x) xs)) else 0)"
  using assms find_loop_ok [of es _ "[]" xs x]
  by (cases sp) (auto simp: findLine_def lines_hold_def holds_len simp del: upt_Suc)

lemma sameLines_ok:
  assumes "lines_hold es p xs" "lines_hold es' p2 ys"
  shows "sameLines p p2 = Some (p \<noteq> None \<and> p2 \<noteq> None \<and> xs = ys)"
  using EACH_ok [OF assms(1)] EACH_ok [OF assms(2)] holds_len(2) [OF assms(1)] holds_len(2) [OF assms(2)]
  by (auto simp: sameLines_def list.rel_eq)

lemma of_char_int [simp]: "(0::int) \<le> of_char c" "(of_char c :: int) = 0 \<longleftrightarrow> c = NUL" "(of_char c :: int) \<le> 0 \<longleftrightarrow> c = NUL"
proof -
  have n: "(of_char c :: int) = int (of_char c)" by (rule of_nat_of_char [symmetric])
  have "(of_char NUL :: int) = 0" by (simp add: NUL_def)
  then show z: "(of_char c :: int) = 0 \<longleftrightarrow> c = NUL" using of_char_eq_iff [where 'a = int, of c NUL] by simp
  show "(0::int) \<le> of_char c" unfolding n by (rule of_nat_0_le_iff)
  with z show "(of_char c :: int) \<le> 0 \<longleftrightarrow> c = NUL" by linarith
qed

lemma strcmp_eq_0: "NUL \<notin> set a \<Longrightarrow> NUL \<notin> set b \<Longrightarrow> strcmp a b = 0 \<longleftrightarrow> a = b"
  by (induction a b rule: strcmp.induct) auto

lemma strcmp_swap: "strcmp b a = - strcmp a b"
  by (induction a b rule: strcmp.induct) auto

lemma strcmp_trans:
  "NUL \<notin> set a \<Longrightarrow> NUL \<notin> set b \<Longrightarrow> NUL \<notin> set c \<Longrightarrow> strcmp a b \<le> 0 \<Longrightarrow> strcmp b c \<le> 0 \<Longrightarrow> strcmp a c \<le> 0"
proof (induction a b arbitrary: c rule: strcmp.induct)
  case (4 a as b bs)
  then show ?case by (cases c) (auto split: if_splits)
next
  case (2 b bs)
  then show ?case by (cases c) auto
next
  case (3 a as)
  then show ?case by auto
qed auto

section \<open>Sorting\<close>

lemma mset_qsort [simp]: "mset (qsort c xs) = mset xs"
proof -
  have "mset (qinsert c x ys) = add_mset x (mset ys)" for x ys by (induction ys) auto
  then show ?thesis by (induction xs) (auto simp: qsort_def)
qed

lemma set_qsort [simp]: "set (qsort c xs) = set xs"
  by (metis mset_qsort set_mset_mset)

lemma length_qsort [simp]: "length (qsort c xs) = length xs"
  by (metis mset_qsort size_mset)

lemma sorted_qsort:
  assumes tot: "\<And>a b. c a b \<le> 0 \<or> c b a \<le> 0"
    and tr: "\<And>a b d. a \<in> A \<Longrightarrow> b \<in> A \<Longrightarrow> d \<in> A \<Longrightarrow> c a b \<le> 0 \<Longrightarrow> c b d \<le> 0 \<Longrightarrow> c a d \<le> 0"
    and A: "set xs \<subseteq> A"
  shows "sorted_wrt (\<lambda>a b. c a b \<le> 0) (qsort c xs)"
proof -
  have s: "set (qinsert c x ys) = insert x (set ys)" for x ys by (induction ys) auto
  have "sorted_wrt (\<lambda>a b. c a b \<le> 0) (qinsert c x ys)"
    if "sorted_wrt (\<lambda>a b. c a b \<le> 0) ys" "x \<in> A" "set ys \<subseteq> A" for x ys
    using that
  proof (induction ys)
    case (Cons y ys)
    have A: "y \<in> A" "set ys \<subseteq> A" and sy: "\<forall>z\<in>set ys. c y z \<le> 0" "sorted_wrt (\<lambda>a b. c a b \<le> 0) ys"
      using Cons.prems by auto
    show ?case
    proof (cases "c x y \<le> 0")
      case True
      then have "\<forall>z\<in>set ys. c x z \<le> 0" using tr [OF Cons.prems(2) A(1) _ True] sy(1) A(2) by blast
      then show ?thesis using True sy by simp
    next
      case False
      then have "c y x \<le> 0" using tot by blast
      then show ?thesis using False sy Cons.IH [OF sy(2) Cons.prems(2) A(2)] by (simp add: s)
    qed
  qed simp
  moreover have "set (foldr (qinsert c) xs []) = set xs" using set_qsort [of c xs] by (simp add: qsort_def)
  ultimately show ?thesis using A
  proof (induction xs)
    case (Cons x xs)
    then show ?case using set_qsort [of c xs] by (simp add: qsort_def)
  qed (simp add: qsort_def)
qed

lemma sorted_string_sort:
  assumes "\<forall>x\<in>set xs. NUL \<notin> set x"
  shows "sorted_wrt (\<lambda>a b. string_sort a b \<le> 0) (qsort string_sort xs)"
proof (rule sorted_qsort [where A = "{x. NUL \<notin> set x}"])
  show "string_sort a b \<le> 0 \<or> string_sort b a \<le> 0" for a b
    using strcmp_swap [of a b] by (simp add: string_sort_def) linarith
qed (use assms in \<open>auto simp: string_sort_def intro: strcmp_trans\<close>)

lemma sortArray_ok:
  assumes "lines_hold es sp xs"
  shows "\<exists>sp'. sortArray c sp = Some sp' \<and> lines_hold es sp' (qsort c xs)"
proof (cases sp)
  case None
  with assms show ?thesis by (auto simp: sortArray_def lines_hold_def qsort_def)
next
  case (Some s)
  with assms have h: "holds es s xs" by (simp add: lines_hold_def)
  then have r: "room es s (length xs)" and t: "take (length xs) (lmem s) = map Some xs" by (auto simp: holds_def)
  have l: "length xs \<le> length (lmem s)" by (rule room_length [OF r])
  from copy_to_ok [of 1 "map Some (qsort c xs)" s] l obtain s' where
    s': "copy_to s 1 (map Some (qsort c xs)) = Some s'" "LLEN s' = LLEN s" "lcap s' = lcap s"
    "lmem s' = map Some (qsort c xs) @ drop (length xs) (lmem s)" by auto
  then have "holds es s' (qsort c xs)" using room_keep [OF r, of s'] l by (simp add: holds_def)
  moreover have "copy_from s 1 (LLEN s) = Some (map Some xs)" using l t holds_len(1) [OF h] by (simp add: copy_from_def)
  ultimately show ?thesis using Some s'(1) by (simp add: sortArray_def lines_hold_def)
qed

section \<open>Compacting in place\<close>

text \<open>
  \<open>uniqLines\<close> and \<open>removeLine\<close> copy the lines they keep over those they drop: the array is what is
  kept so far, what is overwritten, and what is still to be read.
\<close>

lemma compact_peek: "holds es s (kept @ junk @ x # rest) \<Longrightarrow> peek s (Suc (length kept + length junk)) = Some x"
  using holds_peek [of es s "kept @ junk @ x # rest" "Suc (length kept + length junk)"] by (simp add: nth_append)

lemma compact_keep:
  assumes "holds es s (kept @ junk @ x # rest)"
  shows "\<exists>s'. poke s (length kept + 1) (Some x) = Some s' \<and> holds es s' ((kept @ [x]) @ tl (junk @ [x]) @ rest)"
proof -
  have "(kept @ junk @ x # rest)[length kept := x] = (kept @ [x]) @ tl (junk @ [x]) @ rest"
    by (cases junk) (auto simp: list_update_append)
  with holds_poke [OF assms, of "length kept + 1" x] show ?thesis by auto
qed

lemma upt_skip: "[Suc (length kept + length junk)..<Suc (length kept + length junk + length (x # rest))] =
    Suc (length kept + length junk) # [Suc (length kept + length (junk @ [x]))..<Suc (length kept + length (junk @ [x]) + length rest)]"
  by (simp add: upt_conv_Cons del: upt_Suc)

lemma upt_keep: "[Suc (length kept + length (junk @ [x]))..<Suc (length kept + length (junk @ [x]) + length rest)] =
    [Suc (length (kept @ [x]) + length (tl (junk @ [x])))..<Suc (length (kept @ [x]) + length (tl (junk @ [x])) + length rest)]"
  by (cases junk) (auto simp del: upt_Suc)

lemma uniq_copy_ok:
  assumes "holds es s (kept @ junk @ rest)" "kept \<noteq> []"
  shows "\<exists>s' junk' fr. uniq_copy [Suc (length kept + length junk)..<Suc (length kept + length junk + length rest)] (length kept) freed s =
      Some (length (butlast kept @ remdups_adj (last kept # rest)), freed @ fr, s') \<and>
    holds es s' ((butlast kept @ remdups_adj (last kept # rest)) @ junk') \<and>
    mset fr + mset (butlast kept @ remdups_adj (last kept # rest)) = mset kept + mset rest"
  using assms
proof (induction rest arbitrary: s kept junk freed)
  case Nil
  have "kept = butlast kept @ [last kept]" using Nil.prems(2) by simp
  then show ?case using Nil.prems(1) by (auto intro!: exI [of _ junk])
next
  case (Cons x rest)
  have px: "peek s (Suc (length kept + length junk)) = Some x" by (rule compact_peek [OF Cons.prems(1)])
  have py: "peek s (length kept) = Some (last kept)"
    using holds_peek [OF Cons.prems(1), of "length kept"] Cons.prems(2) by (simp add: nth_append last_conv_nth Suc_le_eq)
  show ?case
  proof (cases "x = last kept")
    case True
    have h: "holds es s (kept @ (junk @ [x]) @ rest)" using Cons.prems(1) by simp
    have d: "remdups_adj (last kept # x # rest) = remdups_adj (last kept # rest)" using True by simp
    from Cons.IH [OF h Cons.prems(2), of "freed @ [x]"] obtain s' junk' fr where
      ih: "uniq_copy [Suc (length kept + length (junk @ [x]))..<Suc (length kept + length (junk @ [x]) + length rest)] (length kept) (freed @ [x]) s =
        Some (length (butlast kept @ remdups_adj (last kept # rest)), (freed @ [x]) @ fr, s')"
      "holds es s' ((butlast kept @ remdups_adj (last kept # rest)) @ junk')"
      "mset fr + mset (butlast kept @ remdups_adj (last kept # rest)) = mset kept + mset rest" by blast
    have "uniq_copy [Suc (length kept + length junk)..<Suc (length kept + length junk + length (x # rest))] (length kept) freed s =
        Some (length (butlast kept @ remdups_adj (last kept # rest)), freed @ x # fr, s')"
      unfolding upt_skip uniq_copy.simps px py Option.bind.bind_lunit using True ih(1) by simp
    moreover have "mset (x # fr) + mset (butlast kept @ remdups_adj (last kept # rest)) = mset kept + mset (x # rest)"
      using ih(3) by simp
    ultimately show ?thesis using ih(2) unfolding d by blast
  next
    case False
    from compact_keep [OF Cons.prems(1)] obtain s' where s': "poke s (length kept + 1) (Some x) = Some s'"
      "holds es s' ((kept @ [x]) @ tl (junk @ [x]) @ rest)" by blast
    from Cons.IH [OF s'(2), of freed] obtain s'' junk' fr where ih:
      "uniq_copy [Suc (length kept + length (junk @ [x]))..<Suc (length kept + length (junk @ [x]) + length rest)] (length kept + 1) freed s' =
        Some (length (kept @ remdups_adj (x # rest)), freed @ fr, s'')"
      "holds es s'' ((kept @ remdups_adj (x # rest)) @ junk')"
      "mset fr + mset (kept @ remdups_adj (x # rest)) = mset (kept @ [x]) + mset rest"
      unfolding upt_keep by (auto simp del: upt_Suc)
    have k: "butlast kept @ remdups_adj (last kept # x # rest) = kept @ remdups_adj (x # rest)"
      using False Cons.prems(2) by (metis append_butlast_last_id append_Cons append_Nil append_assoc remdups_adj.simps(3))
    have "uniq_copy [Suc (length kept + length junk)..<Suc (length kept + length junk + length (x # rest))] (length kept) freed s =
        Some (length (kept @ remdups_adj (x # rest)), freed @ fr, s'')"
      unfolding upt_skip uniq_copy.simps px py Option.bind.bind_lunit using False s'(1) ih(1) by simp
    then show ?thesis using ih(2,3) unfolding k by auto
  qed
qed

lemma remdups_adj_join:
  assumes "remdups_adj (p @ [l]) = p @ [l]"
  shows "remdups_adj (p @ l # b) = p @ remdups_adj (l # b)"
proof -
  have e: "l # tl (remdups_adj (l # b)) = remdups_adj (l # b)"
    by (metis hd_remdups_adj list.collapse list.distinct(1) list.sel(1) remdups_adj_Nil_iff)
  have "remdups_adj (p @ l # b) = (p @ [l]) @ tl (remdups_adj (l # b))"
    using remdups_adj_append [of p l b] unfolding assms .
  then show ?thesis by (simp only: append.simps append_assoc e)
qed

lemma uniq_skip_ok:
  assumes "holds es s (pre @ rest)" "pre \<noteq> []" "remdups_adj pre = pre"
  shows "(uniq_skip s [Suc (length pre)..<Suc (length pre + length rest)] = Some None \<and> remdups_adj (pre @ rest) = pre @ rest) \<or>
    (\<exists>a b. rest = a @ b \<and> remdups_adj (pre @ a) = pre @ a \<and>
       uniq_skip s [Suc (length pre)..<Suc (length pre + length rest)] = Some (Some (Suc (length (pre @ a)))))"
  using assms
proof (induction rest arbitrary: pre)
  case (Cons x rest)
  have u: "[Suc (length pre)..<Suc (length pre + length (x # rest))] =
      Suc (length pre) # [Suc (length (pre @ [x]))..<Suc (length (pre @ [x]) + length rest)]"
    by (simp add: upt_conv_Cons del: upt_Suc)
  have px: "peek s (Suc (length pre)) = Some x" using compact_peek [of es s pre "[]" x rest] Cons.prems(1) by simp
  have py: "peek s (length pre) = Some (last pre)"
    using holds_peek [OF Cons.prems(1), of "length pre"] Cons.prems(2) by (simp add: nth_append last_conv_nth Suc_le_eq)
  show ?case
  proof (cases "last pre = x")
    case True
    then have "uniq_skip s [Suc (length pre)..<Suc (length pre + length (x # rest))] = Some (Some (Suc (length (pre @ []))))"
      unfolding u using px py Cons.prems(2) by simp
    then show ?thesis using Cons.prems(3) by (intro disjI2 exI [of _ "[]"] exI [of _ "x # rest"]) simp
  next
    case False
    have r: "remdups_adj (pre @ [x]) = pre @ [x]"
    proof -
      have "remdups_adj (butlast pre @ [last pre]) = butlast pre @ [last pre]" using Cons.prems(2,3) by simp
      from remdups_adj_join [OF this, of "[x]"] have "remdups_adj (butlast pre @ [last pre, x]) = butlast pre @ [last pre, x]"
        using False by simp
      moreover have "butlast pre @ [last pre, x] = pre @ [x]" using append_butlast_last_id [OF Cons.prems(2)] by (metis append_Cons append_Nil append_assoc)
      ultimately show ?thesis by simp
    qed
    have q: "uniq_skip s [Suc (length pre)..<Suc (length pre + length (x # rest))] =
        uniq_skip s [Suc (length (pre @ [x]))..<Suc (length (pre @ [x]) + length rest)]"
      unfolding u using px py Cons.prems(2) False by simp
    have h: "holds es s ((pre @ [x]) @ rest)" and n: "pre @ [x] \<noteq> []" using Cons.prems(1) by simp_all
    from Cons.IH [OF h n r] show ?thesis unfolding q [symmetric]
    proof (elim disjE exE conjE)
      fix a b
      assume "rest = a @ b" "remdups_adj ((pre @ [x]) @ a) = (pre @ [x]) @ a"
        "uniq_skip s [Suc (length pre)..<Suc (length pre + length (x # rest))] = Some (Some (Suc (length ((pre @ [x]) @ a))))"
      then show ?thesis by (intro disjI2 exI [of _ "x # a"] exI [of _ b]) (simp del: upt_Suc)
    qed (simp del: upt_Suc)
  qed
qed simp

lemma uniqLines_ok:
  assumes "lines_hold es sp xs"
  shows "\<exists>sp' freed. uniqLines sp = Some (sp', freed) \<and> lines_hold es sp' (remdups_adj (qsort string_sort xs)) \<and>
    mset freed + mset (remdups_adj (qsort string_sort xs)) = mset xs"
proof -
  let ?q = "qsort string_sort xs"
  from sortArray_ok [OF assms] obtain sq where sq: "sortArray string_sort sp = Some sq" "lines_hold es sq ?q" by blast
  show ?thesis
  proof (cases sq)
    case None
    then have "?q = []" using sq(2) by (simp add: lines_hold_def)
    moreover from this have "mset xs = {#}" by (metis mset_qsort mset.simps(1))
    ultimately show ?thesis using sq None by (auto simp: uniqLines_def lines_hold_def)
  next
    case (Some s)
    then have h: "holds es s ?q" using sq(2) by (simp add: lines_hold_def)
    have L: "LLEN s = length ?q" by (rule holds_len(1) [OF h])
    show ?thesis
    proof (cases ?q)
      case Nil
      moreover from this have "mset xs = {#}" by (metis mset_qsort mset.simps(1))
      ultimately show ?thesis using sq Some L by (auto simp: uniqLines_def)
    next
      case (Cons y ys)
      have sk: "uniq_skip s [1..<Suc (LLEN s)] = uniq_skip s [Suc (length [y])..<Suc (length [y] + length ys)]"
        unfolding L Cons by (simp add: upt_conv_Cons del: upt_Suc)
      from uniq_skip_ok [of es s "[y]" ys] h Cons consider
        (none) "uniq_skip s [1..<Suc (LLEN s)] = Some None" "remdups_adj ?q = ?q"
        | (dup) a b where "ys = a @ b" "remdups_adj (y # a) = y # a" "uniq_skip s [1..<Suc (LLEN s)] = Some (Some (Suc (length (y # a))))"
        unfolding sk by (auto simp del: upt_Suc)
      then show ?thesis
      proof cases
        case none
        then have "uniqLines sp = Some (Some s, [])" using sq(1) Some by (simp add: uniqLines_def del: upt_Suc)
        then show ?thesis using none(2) h by (intro exI [of _ "Some s"] exI [of _ "[]"]) (simp add: lines_hold_def)
      next
        case dup
        have hq: "?q = (y # a) @ [] @ b" using Cons dup(1) by simp
        from uniq_copy_ok [of es s "y # a" "[]" b "[]"] h hq obtain s' junk' fr where
          c: "uniq_copy [Suc (length (y # a))..<Suc (length (y # a) + length b)] (length (y # a)) [] s =
            Some (length (butlast (y # a) @ remdups_adj (last (y # a) # b)), fr, s')"
          "holds es s' ((butlast (y # a) @ remdups_adj (last (y # a) # b)) @ junk')"
          "mset fr + mset (butlast (y # a) @ remdups_adj (last (y # a) # b)) = mset (y # a) + mset b"
          by (auto simp del: upt_Suc butlast.simps last.simps)
        have K: "butlast (y # a) @ remdups_adj (last (y # a) # b) = remdups_adj ?q"
        proof -
          have e: "butlast (y # a) @ [last (y # a)] = y # a" by simp
          then have "?q = butlast (y # a) @ last (y # a) # b" using hq by (metis append_Cons append_Nil append_assoc)
          then show ?thesis using remdups_adj_join [of "butlast (y # a)" "last (y # a)" b] dup(2) unfolding e by metis
        qed
        note c' = c [unfolded K]
        have "lines_hold es (Some s') (remdups_adj ?q @ junk')" using c'(2) by (simp add: lines_hold_def)
        from truncArray_ok [OF this, of "length (remdups_adj ?q)"] obtain sp' where
          t: "truncArray (Some s') (length (remdups_adj ?q)) = Some sp'" "lines_hold es sp' (remdups_adj ?q)" by auto
        have "uniqLines sp = Some (sp', fr)"
          using sq(1) Some dup(3) c'(1) t(1) L hq by (simp add: uniqLines_def del: upt_Suc)
        moreover have "mset fr + mset (remdups_adj ?q) = mset xs" using c'(3) hq by (metis append_Nil mset_append mset_qsort)
        ultimately show ?thesis using t(2) by blast
      qed
    qed
  qed
qed

lemma remove_skip_ok:
  assumes "holds es s (pre @ rest)" "x \<notin> set pre"
  shows "(remove_skip s x [Suc (length pre)..<Suc (length pre + length rest)] = Some None \<and> x \<notin> set rest) \<or>
    (\<exists>a b. rest = a @ b \<and> x \<notin> set a \<and>
       remove_skip s x [Suc (length pre)..<Suc (length pre + length rest)] = Some (Some (Suc (length (pre @ a)))))"
  using assms
proof (induction rest arbitrary: pre)
  case (Cons y rest)
  have u: "[Suc (length pre)..<Suc (length pre + length (y # rest))] =
      Suc (length pre) # [Suc (length (pre @ [y]))..<Suc (length (pre @ [y]) + length rest)]"
    by (simp add: upt_conv_Cons del: upt_Suc)
  have py: "peek s (Suc (length pre)) = Some y" using compact_peek [of es s pre "[]" y rest] Cons.prems(1) by simp
  show ?case
  proof (cases "y = x")
    case True
    then have "remove_skip s x [Suc (length pre)..<Suc (length pre + length (y # rest))] = Some (Some (Suc (length (pre @ []))))"
      unfolding u using py by simp
    then show ?thesis by (intro disjI2 exI [of _ "[]"] exI [of _ "y # rest"]) simp
  next
    case False
    have q: "remove_skip s x [Suc (length pre)..<Suc (length pre + length (y # rest))] =
        remove_skip s x [Suc (length (pre @ [y]))..<Suc (length (pre @ [y]) + length rest)]"
      unfolding u using py False by simp
    have h: "holds es s ((pre @ [y]) @ rest)" "x \<notin> set (pre @ [y])" using Cons.prems False by simp_all
    from Cons.IH [OF h] show ?thesis unfolding q [symmetric]
    proof (elim disjE exE conjE)
      fix a b
      assume "rest = a @ b" "x \<notin> set a"
        "remove_skip s x [Suc (length pre)..<Suc (length pre + length (y # rest))] = Some (Some (Suc (length ((pre @ [y]) @ a))))"
      then show ?thesis using False by (intro disjI2 exI [of _ "y # a"] exI [of _ b]) (simp del: upt_Suc)
    qed (use False in \<open>simp del: upt_Suc\<close>)
  qed
qed simp

lemma remove_copy_ok:
  assumes "holds es s (kept @ junk @ rest)"
  shows "\<exists>s' junk'. remove_copy x [Suc (length kept + length junk)..<Suc (length kept + length junk + length rest)] (length kept) n freed s =
      Some (length (kept @ filter (\<lambda>y. y \<noteq> x) rest), n + length (filter (\<lambda>y. y = x) rest), freed @ filter (\<lambda>y. y = x) rest, s') \<and>
    holds es s' ((kept @ filter (\<lambda>y. y \<noteq> x) rest) @ junk')"
  using assms
proof (induction rest arbitrary: s kept junk n freed)
  case Nil
  then show ?case by auto
next
  case (Cons y rest)
  have py: "peek s (Suc (length kept + length junk)) = Some y" by (rule compact_peek [OF Cons.prems(1)])
  show ?case
  proof (cases "y = x")
    case True
    have h: "holds es s (kept @ (junk @ [y]) @ rest)" using Cons.prems(1) by simp
    from Cons.IH [OF h, of "n + 1" "freed @ [y]"] show ?thesis
      unfolding upt_skip remove_copy.simps py Option.bind.bind_lunit using True by (simp del: upt_Suc)
  next
    case False
    from compact_keep [OF Cons.prems(1)] obtain s' where s': "poke s (length kept + 1) (Some y) = Some s'"
      "holds es s' ((kept @ [y]) @ tl (junk @ [y]) @ rest)" by blast
    from Cons.IH [OF s'(2), of n freed, folded upt_keep] show ?thesis
      unfolding upt_skip remove_copy.simps py Option.bind.bind_lunit using False s'(1) by (simp del: upt_Suc)
  qed
qed

lemma removeLine_ok:
  assumes "lines_hold es sp xs"
  shows "\<exists>sp'. removeLine sp x = Some (length (filter (\<lambda>y. y = x) xs), sp', filter (\<lambda>y. y = x) xs) \<and>
    lines_hold es sp' (filter (\<lambda>y. y \<noteq> x) xs)"
proof (cases sp)
  case None
  with assms show ?thesis by (auto simp: removeLine_def lines_hold_def)
next
  case (Some s)
  then have h: "holds es s xs" using assms by (simp add: lines_hold_def)
  have L: "LLEN s = length xs" by (rule holds_len(1) [OF h])
  from remove_skip_ok [of es s "[]" xs x] h L consider
    (none) "remove_skip s x [1..<Suc (LLEN s)] = Some None" "x \<notin> set xs"
    | (found) a b where "xs = a @ b" "x \<notin> set a" "remove_skip s x [1..<Suc (LLEN s)] = Some (Some (Suc (length a)))"
    by (auto simp del: upt_Suc)
  then show ?thesis
  proof cases
    case none
    then have "filter (\<lambda>y. y = x) xs = []" "filter (\<lambda>y. y \<noteq> x) xs = xs" by (auto simp: filter_empty_conv filter_id_conv)
    with none(1) Some assms show ?thesis by (simp add: removeLine_def del: upt_Suc)
  next
    case found
    have h': "holds es s (a @ [] @ b)" using h found(1) by simp
    have f: "filter (\<lambda>y. y = x) a = []" "filter (\<lambda>y. y \<noteq> x) a = a" using found(2) by (auto simp: filter_empty_conv filter_id_conv)
    from remove_copy_ok [OF h', of x 0 "[]"] obtain s' junk' where
      c: "remove_copy x [Suc (length a)..<Suc (length a + length b)] (length a) 0 [] s =
        Some (length (a @ filter (\<lambda>y. y \<noteq> x) b), length (filter (\<lambda>y. y = x) b), filter (\<lambda>y. y = x) b, s')"
      "holds es s' ((a @ filter (\<lambda>y. y \<noteq> x) b) @ junk')" by (auto simp del: upt_Suc)
    have "lines_hold es (Some s') ((a @ filter (\<lambda>y. y \<noteq> x) b) @ junk')" using c(2) by (simp add: lines_hold_def)
    from truncArray_ok [OF this, of "length (a @ filter (\<lambda>y. y \<noteq> x) b)"] obtain sp' where
      "truncArray (Some s') (length (a @ filter (\<lambda>y. y \<noteq> x) b)) = Some sp'" "lines_hold es sp' (a @ filter (\<lambda>y. y \<noteq> x) b)" by auto
    with Some found(3) c(1) L found(1) f show ?thesis by (simp add: removeLine_def del: upt_Suc)
  qed
qed

section \<open>Joining and splitting\<close>

lemma concat_join: "xs \<noteq> [] \<Longrightarrow> concat (map (\<lambda>x. x @ t) xs) = join t xs @ t"
  by (induction t xs rule: join.induct) auto

lemma join_len_concat:
  "len + length (concat (map (\<lambda>x. x @ t) xs)) \<le> INT_MAX \<Longrightarrow> join_len (length t) xs len = Some (len + length (concat (map (\<lambda>x. x @ t) xs)))"
  by (induction xs arbitrary: len) (auto simp: add.assoc)

lemma join_loop_sep:
  "length buf + length (concat (map (\<lambda>x. x @ t) xs)) < len \<Longrightarrow> join_loop len (Some t) xs buf = Some (buf @ concat (map (\<lambda>x. x @ t) xs))"
  by (induction xs arbitrary: buf) (auto simp: strcpy_at_def)

lemma join_loop_None:
  "length buf + length (concat xs) < len \<Longrightarrow> join_loop len None xs buf = Some (buf @ concat xs)"
  by (induction xs arbitrary: buf) (auto simp: strcpy_at_def)

text \<open>The size that \<open>joinLines\<close> computes counts a separator after the last line as well.\<close>

definition join_size :: "string option \<Rightarrow> string list \<Rightarrow> nat" where
  "join_size sep xs = length (concat (map (\<lambda>x. x @ (case sep of Some t \<Rightarrow> t | None \<Rightarrow> [])) xs)) + 1"

lemma join_len_over:
  "len \<le> INT_MAX \<Longrightarrow> INT_MAX < len + length (concat (map (\<lambda>x. x @ t) xs)) \<Longrightarrow> join_len (length t) xs len = None"
  by (induction xs arbitrary: len) (auto simp: add.assoc to_int_def)

lemma joinLines_ok:
  assumes "lines_hold es sp xs" "join_size sep xs \<le> INT_MAX"
  shows "joinLines sep sp = Some (if xs = [] then None else Some (join (case sep of Some t \<Rightarrow> t | None \<Rightarrow> []) xs))"
proof (cases "xs = []")
  case True
  then show ?thesis using holds_len(2) [OF assms(1)] by (simp add: joinLines_def emptyLines_def)
next
  case False
  let ?t = "case sep of Some t \<Rightarrow> t | None \<Rightarrow> []"
  let ?c = "concat (map (\<lambda>x. x @ ?t) xs)"
  have c: "?c = join ?t xs @ ?t" by (rule concat_join [OF False])
  have fit: "length ?c + 1 \<le> INT_MAX" using assms(2) by (simp add: join_size_def)
  have len: "join_len (length ?t) xs 0 = Some (length ?c)" using join_len_concat [of 0 ?t xs] fit by simp
  have slen: "to_int (case sep of Some t \<Rightarrow> length t | None \<Rightarrow> 0) = Some (length ?t)" using fit unfolding c by (cases sep) simp_all
  have "join_loop (length ?c + 1) sep xs [] = Some ?c"
    using join_loop_sep [of "[]" ?t xs "length ?c + 1"] join_loop_None [of "[]" xs "length ?c + 1"] by (cases sep) simp_all
  then show ?thesis
    using False holds_len(2) [OF assms(1)] EACH_ok [OF assms(1)] slen len fit
    by (simp add: joinLines_def emptyLines_def) (cases sep; use concat_join [OF False] concat_join [OF False, of "[]"] in simp)
qed

lemma joinLines_over:
  assumes "lines_hold es sp xs" "xs \<noteq> []" "INT_MAX < join_size (Some t) xs"
  shows "joinLines (Some t) sp = None"
proof -
  let ?c = "concat (map (\<lambda>x. x @ t) xs)"
  have "to_int (length t) = None \<or> Option.bind (join_len (length t) xs 0) (\<lambda>len. to_int (len + 1)) = None"
  proof (cases "length ?c \<le> INT_MAX")
    case True
    then show ?thesis using join_len_concat [of 0 t xs] assms(3) by (simp add: join_size_def to_int_def)
  next
    case False
    then show ?thesis using join_len_over [of 0 t xs] by simp
  qed
  then show ?thesis
    using assms(2) holds_len(2) [OF assms(1)] EACH_ok [OF assms(1)]
    by (auto simp: joinLines_def emptyLines_def to_int_def split: Option.bind_splits if_splits)
qed

text \<open>The tokens of a line: nonempty, without delimiters, and together all that is not one.\<close>

lemma splitLine_ok:
  assumes "lines_hold 8 tokens xs" "fits 8 (length xs + length line)" "length line \<le> INT_MAX"
  shows "\<exists>sp ws. splitLine line delim tokens = Some sp \<and> lines_hold 8 sp (xs @ ws) \<and>
    (\<forall>w\<in>set ws. w \<noteq> [] \<and> (\<forall>c\<in>set w. c \<notin> set delim)) \<and> concat ws = filter (\<lambda>c. c \<notin> set delim) line"
  using assms
proof (induction "length line" arbitrary: line tokens xs rule: less_induct)
  case less
  let ?l = "dropWhile (\<lambda>c. c \<in> set delim) line"
  let ?w = "takeWhile (\<lambda>c. c \<notin> set delim) ?l" and ?r = "dropWhile (\<lambda>c. c \<notin> set delim) ?l"
  have l: "drop (strspn line delim) line = ?l" by (simp add: strspn_def dropWhile_eq_drop)
  have tk: "take (strcspn ?l delim) ?l = ?w" "drop (strcspn ?l delim) ?l = ?r"
    by (simp_all add: strcspn_def takeWhile_eq_take [symmetric] dropWhile_eq_drop [symmetric])
  have f: "filter (\<lambda>c. c \<notin> set delim) line = filter (\<lambda>c. c \<notin> set delim) ?l"
    by (metis (no_types, lifting) filter_append filter_False append_Nil set_takeWhileD takeWhile_dropWhile_id)
  show ?case
  proof (cases "?w = []")
    case True
    then have "?l = []" by (cases ?l) (auto dest: hd_dropWhile split: if_splits, metis hd_dropWhile list.distinct(1) list.sel(1))
    then have "splitLine line delim tokens = Some tokens" using l
      by (subst splitLine.simps) (simp add: Let_def strcspn_def del: dropWhile_eq_Nil_conv)
    with \<open>?l = []\<close> less.prems f show ?thesis
      by (intro exI [of _ tokens] exI [of _ "[]"]) (simp del: dropWhile_eq_Nil_conv)
  next
    case False
    have fw: "filter (\<lambda>c. c \<notin> set delim) ?l = ?w @ filter (\<lambda>c. c \<notin> set delim) ?r"
      by (metis (no_types, lifting) filter_append filter_True set_takeWhileD takeWhile_dropWhile_id)
    have wr: "length ?w + length ?r \<le> length line"
      by (metis length_append length_dropWhile_le takeWhile_dropWhile_id)
    moreover have "1 \<le> length ?w" using False by (cases ?w) auto
    ultimately have r: "length ?r < length line" "length xs + 1 + length ?r \<le> length xs + length line" by linarith+
    from addLine_ok(1) [OF less.prems(1), of ?w] fits_mono [OF less.prems(2), of "length xs + 1"] r obtain s where
      s: "addLine tokens (Some ?w) = Some s" "lines_hold 8 (Some s) (xs @ [?w])" by (auto simp: lines_hold_def)
    from less.hyps [OF r(1) s(2)] less.prems(3) fits_mono [OF less.prems(2), of "length xs + 1 + length ?r"] r obtain sp ws where
      ih: "splitLine ?r delim (Some s) = Some sp" "lines_hold 8 sp ((xs @ [?w]) @ ws)"
      "\<forall>w\<in>set ws. w \<noteq> [] \<and> (\<forall>c\<in>set w. c \<notin> set delim)" "concat ws = filter (\<lambda>c. c \<notin> set delim) ?r" by auto
    have "strcspn ?l delim \<noteq> 0" "to_int (strcspn ?l delim) = Some (strcspn ?l delim)"
      using False less.prems(3) \<open>length ?w + length ?r \<le> length line\<close> by (simp_all add: strcspn_def)
    then have sl: "splitLine line delim tokens = Some sp"
      using s(1) ih(1) by (subst splitLine.simps) (simp add: Let_def l tk)
    have wd: "\<forall>c\<in>set ?w. c \<notin> set delim" by (auto dest: set_takeWhileD)
    show ?thesis
    proof (intro exI [of _ sp] exI [of _ "?w # ws"] conjI)
      show "lines_hold 8 sp (xs @ ?w # ws)" using ih(2) by simp
      show "concat (?w # ws) = filter (\<lambda>c. c \<notin> set delim) line" unfolding f fw by (simp add: ih(4))
      show "\<forall>w\<in>set (?w # ws). w \<noteq> [] \<and> (\<forall>c\<in>set w. c \<notin> set delim)"
        using ih(3) False wd by (metis set_ConsD)
    qed (rule sl)
  qed
qed

lemma splitLine_join:
  assumes "lines_hold 8 tokens xs" "fits 8 (length xs + length ws)"
    and w: "\<forall>w\<in>set ws. w \<noteq> [] \<and> set w \<inter> set delim = {} \<and> length w \<le> INT_MAX" and t: "t \<noteq> []" "set t \<subseteq> set delim" and p: "set pre \<subseteq> set delim"
  shows "\<exists>sp. splitLine (pre @ join t ws) delim tokens = Some sp \<and> lines_hold 8 sp (xs @ ws)"
  using assms(1,2) w p t
proof (induction t ws arbitrary: tokens xs pre rule: join.induct)
  case (1 sep)
  have "drop (strspn pre delim) pre = []" using 1(4) by (simp add: strspn_def takeWhile_eq_all_conv [THEN iffD2] subset_iff)
  with 1 show ?case by (subst splitLine.simps) (simp add: strcspn_def)
next
  case (2 sep x)
  have d: "drop (strspn (pre @ x) delim) (pre @ x) = x"
    unfolding strspn_def dropWhile_eq_drop [symmetric] using 2(3,4) by (cases x) (auto simp: dropWhile_append)
  have "takeWhile (\<lambda>c. c \<notin> set delim) x = x" using 2(3) by (auto simp: takeWhile_eq_all_conv)
  then have c: "strcspn x delim = length x" by (simp only: strcspn_def)
  from addLine_ok(1) [OF 2(1), of x] 2(2) obtain s where "addLine tokens (Some x) = Some s" "holds 8 s (xs @ [x])" by auto
  with d c 2(3) show ?case
    by (subst splitLine.simps) (simp add: Let_def, subst splitLine.simps, simp add: lines_hold_def strcspn_def)
next
  case (3 sep x y ws)
  let ?l = "x @ sep @ join sep (y # ws)"
  have x: "x \<noteq> []" "\<forall>c\<in>set x. c \<notin> set delim" and xi: "to_int (length x) = Some (length x)" using 3(4) by auto
  have d: "drop (strspn (pre @ ?l) delim) (pre @ ?l) = ?l"
    unfolding strspn_def dropWhile_eq_drop [symmetric] using x 3(5) by (cases x) (auto simp: dropWhile_append)
  have c: "strcspn ?l delim = length x"
    unfolding strcspn_def using x 3(6,7) by (subst takeWhile_append_stop) (auto simp: neq_Nil_conv)
  from addLine_ok(1) [OF 3(2), of x] fits_mono [OF 3(3), of "length xs + 1"] obtain s where
    s: "addLine tokens (Some x) = Some s" "holds 8 s (xs @ [x])" by auto
  from 3(1) [of "Some s" "xs @ [x]" sep] s(2) 3(3,4,6,7) obtain sp where
    "splitLine (sep @ join sep (y # ws)) delim (Some s) = Some sp" "lines_hold 8 sp ((xs @ [x]) @ y # ws)"
    by (auto simp: lines_hold_def)
  with s(1) d c x(1) xi show ?case by (subst splitLine.simps) (simp add: Let_def)
qed

section \<open>The parallel walk\<close>

text \<open>The calls of the callback, and the walk over a list of calls.\<close>

fun merge_calls :: "('a \<Rightarrow> 'a \<Rightarrow> int) \<Rightarrow> 'a list \<Rightarrow> 'a list \<Rightarrow> ('a option \<times> 'a option) list" where
  "merge_calls compar [] ys = map (\<lambda>y. (None, Some y)) ys"
| "merge_calls compar xs [] = map (\<lambda>x. (Some x, None)) xs"
| "merge_calls compar (x # xs) (y # ys) =
     (if compar x y < 0 then (Some x, None) # merge_calls compar xs (y # ys)
      else if compar x y > 0 then (None, Some y) # merge_calls compar (x # xs) ys
      else (Some x, Some y) # merge_calls compar xs ys)"

fun walk_calls :: "('t \<Rightarrow> 'a option \<Rightarrow> 'a option \<Rightarrow> 't \<times> int) \<Rightarrow> ('a option \<times> 'a option) list \<Rightarrow> 't \<Rightarrow> int \<Rightarrow> 't \<times> int" where
  "walk_calls walk [] token acc = (token, acc)"
| "walk_calls walk ((aa, bb) # cs) token acc =
     (case walk token aa bb of (token, r) \<Rightarrow> if r < 0 then (token, r) else walk_calls walk cs token (wrap32 (acc + r)))"

lemma par_loop_ok:
  assumes "lines_hold es a (xs' @ xs)" "lines_hold es' b (ys' @ ys)"
  shows "par_loop a b compar walk (Suc (length xs')) (Suc (length ys')) token acc =
    Some (walk_calls walk (merge_calls compar xs ys) token acc)"
  using assms
proof (induction "length xs + length ys" arbitrary: xs xs' ys ys' token acc rule: less_induct)
  case less
  have na: "nLines a = length xs' + length xs" and nb: "nLines b = length ys' + length ys"
    using holds_len(2) [OF less.prems(1)] holds_len(2) [OF less.prems(2)] by auto
  have ga: "map_option Some (Option.bind a (\<lambda>a. peek a (Suc (length xs')))) = Some (Some x)" if "xs = x # r" for x r
    using less.prems(1) that
    by (cases a) (auto simp: lines_hold_def dest: holds_peek [where i = "Suc (length xs')"])
  have gb: "map_option Some (Option.bind b (\<lambda>b. peek b (Suc (length ys')))) = Some (Some y)" if "ys = y # r" for y r
    using less.prems(2) that
    by (cases b) (auto simp: lines_hold_def dest: holds_peek [where i = "Suc (length ys')"])
  have ia: "par_loop a b compar walk (Suc (Suc (length xs'))) (Suc (length ys')) tk ac =
      Some (walk_calls walk (merge_calls compar r ys) tk ac)" if "xs = x # r" for x r tk ac
    using less.hyps [of r ys "xs' @ [x]" ys'] less.prems that by simp
  have ib: "par_loop a b compar walk (Suc (length xs')) (Suc (Suc (length ys'))) tk ac =
      Some (walk_calls walk (merge_calls compar xs r) tk ac)" if "ys = y # r" for y r tk ac
    using less.hyps [of xs r xs' "ys' @ [y]"] less.prems that by simp
  have ic: "par_loop a b compar walk (Suc (Suc (length xs'))) (Suc (Suc (length ys'))) tk ac =
      Some (walk_calls walk (merge_calls compar r q) tk ac)" if "xs = x # r" "ys = y # q" for x r y q tk ac
    using less.hyps [of r q "xs' @ [x]" "ys' @ [y]"] less.prems that by simp
  show ?case
  proof (cases xs)
    case Nil
    show ?thesis
    proof (cases ys)
      case Nil
      with \<open>xs = []\<close> na nb show ?thesis by (subst par_loop.simps) simp
    next
      case (Cons y q)
      with \<open>xs = []\<close> na nb gb ib show ?thesis by (subst par_loop.simps) (simp add: split_def Let_def)
    qed
  next
    case (Cons x r)
    show ?thesis
    proof (cases ys)
      case Nil
      with \<open>xs = x # r\<close> na nb ga ia show ?thesis by (subst par_loop.simps) (cases r; simp add: split_def Let_def)
    next
      case (Cons y q)
      with \<open>xs = x # r\<close> na nb ga gb ia ib ic show ?thesis by (subst par_loop.simps) (simp add: split_def Let_def)
    qed
  qed
qed

lemma merge_calls_sets:
  assumes tr: "\<And>a b c. a \<in> A \<Longrightarrow> b \<in> A \<Longrightarrow> c \<in> A \<Longrightarrow> compar a b < 0 \<Longrightarrow> compar b c < 0 \<Longrightarrow> compar a c < 0"
    and sw: "\<And>a b. compar b a = - compar a b" and eq: "\<And>a b. a \<in> A \<Longrightarrow> b \<in> A \<Longrightarrow> compar a b = 0 \<Longrightarrow> a = b"
  shows "set xs \<subseteq> A \<Longrightarrow> set ys \<subseteq> A \<Longrightarrow>
    sorted_wrt (\<lambda>a b. compar a b < 0) xs \<Longrightarrow> sorted_wrt (\<lambda>a b. compar a b < 0) ys \<Longrightarrow>
    set (merge_calls compar xs ys) =
      (\<lambda>x. (Some x, None)) ` (set xs - set ys) \<union> (\<lambda>y. (None, Some y)) ` (set ys - set xs) \<union>
      (\<lambda>x. (Some x, Some x)) ` (set xs \<inter> set ys) \<and> distinct (merge_calls compar xs ys)"
proof (induction "length xs + length ys" arbitrary: xs ys rule: less_induct)
  case less
  have irr: "\<not> compar a a < 0" for a using sw [of a a] by simp
  have dist: "distinct zs" if "sorted_wrt (\<lambda>a b. compar a b < 0) zs" for zs
    using that irr by (induction zs) auto
  have d: "distinct xs" "distinct ys" by (rule dist, rule less.prems)+
  show ?case
  proof (cases xs)
    case (Cons x r)
    note xs = this
    show ?thesis
    proof (cases ys)
      case (Cons y q)
      have A: "x \<in> A" "y \<in> A" "set r \<subseteq> A" "set q \<subseteq> A" and sr: "\<forall>z\<in>set r. compar x z < 0" "\<forall>z\<in>set q. compar y z < 0"
        and s: "sorted_wrt (\<lambda>a b. compar a b < 0) r" "sorted_wrt (\<lambda>a b. compar a b < 0) q"
        using less.prems xs Cons by auto
      consider "compar x y < 0" | "compar y x < 0" | "x = y" using sw [of x y] eq [OF A(1,2)] by fastforce
      then show ?thesis
      proof cases
        case 1
        have "x \<notin> set q" using tr [OF A(1,2,1) 1] sr(2) irr by blast
        moreover have "x \<noteq> y" using 1 irr by blast
        ultimately show ?thesis using less.hyps [of r ys] less.prems xs Cons 1 d by auto
      next
        case 2
        have "y \<notin> set r" using tr [OF A(2,1,2) 2] sr(1) irr by blast
        moreover have "x \<noteq> y" using 2 irr by blast
        moreover have "\<not> compar x y < 0" "compar x y > 0" using 2 sw [of x y] by auto
        ultimately show ?thesis using less.hyps [of xs q] less.prems xs Cons d by auto
      next
        case 3
        have "x \<notin> set r" "y \<notin> set q" using sr irr by blast+
        moreover have "compar x y = 0" using 3 sw [of x x] by simp
        ultimately show ?thesis using less.hyps [of r q] s A xs Cons 3 by auto
      qed
    qed (use xs d in \<open>auto simp: distinct_map inj_on_def\<close>)
  qed (use d in \<open>auto simp: distinct_map inj_on_def\<close>)
qed

lemma strcmp_less_trans:
  assumes "NUL \<notin> set a" "NUL \<notin> set b" "NUL \<notin> set c" "strcmp a b < 0" "strcmp b c < 0"
  shows "strcmp a c < 0"
  using strcmp_trans [OF assms(1-3)] strcmp_eq_0 [OF assms(1,3)] strcmp_swap [of a b] assms(4,5) by force

section \<open>What the operations do\<close>

lemma lines_of: "length xs < 2 ^ 27 \<Longrightarrow> \<exists>sp. run_ops lines_op (map Push xs) None = Some sp \<and> lines_hold 8 sp xs"
  using lns.run_pushes [of None "[]" xs] by (simp add: lines_hold_def)

text \<open>
  C10.  \<open>uniqLines\<close> leaves the distinct lines in increasing order and frees every other line
  exactly once.
\<close>

theorem uniqLines_distinct:
  assumes "lines_hold es sp xs" and "\<forall>x\<in>set xs. NUL \<notin> set x"
  shows "\<exists>sp' freed ys. uniqLines sp = Some (sp', freed) \<and> lines_hold es sp' ys \<and>
    sorted_wrt (\<lambda>a b. strcmp a b < 0) ys \<and> set ys = set xs \<and> mset freed + mset ys = mset xs"
proof -
  let ?q = "qsort string_sort xs"
  have "sorted_wrt (\<lambda>a b. strcmp a b < 0) (remdups_adj zs)"
    if "sorted_wrt (\<lambda>a b. strcmp a b \<le> 0) zs" "\<forall>x\<in>set zs. NUL \<notin> set x" for zs
    using that
  proof (induction zs rule: remdups_adj.induct)
    case (3 x y zs)
    show ?case
    proof (cases "x = y")
      case False
      have xy: "strcmp x y < 0" using 3(3,4) False strcmp_eq_0 [of x y] by fastforce
      have "strcmp x z < 0" if "z \<in> set (y # zs)" for z
      proof (cases "z = y")
        case False
        then have "strcmp y z < 0" using that 3(3,4) strcmp_eq_0 [of y z] by fastforce
        with xy show ?thesis using strcmp_less_trans [of x y z] 3(4) that by auto
      qed (use xy in simp)
      then show ?thesis using 3 False by auto
    qed (use 3 in auto)
  qed auto
  then have "sorted_wrt (\<lambda>a b. strcmp a b < 0) (remdups_adj ?q)"
    using sorted_string_sort [OF assms(2)] assms(2) by (simp add: string_sort_def)
  with uniqLines_ok [OF assms(1)] show ?thesis by fastforce
qed

theorem uniqLines_distinct_witness:
  "\<exists>sp sp' freed ys. run_ops lines_op (map Push [''b'', ''a'', ''b'']) None = Some sp \<and> uniqLines sp = Some (sp', freed) \<and>
    lines_hold 8 sp' ys \<and> set ys = {''a'', ''b''} \<and> sorted_wrt (\<lambda>a b. strcmp a b < 0) ys"
proof -
  from lines_of [of "[''b'', ''a'', ''b'']"] obtain sp where
    sp: "run_ops lines_op (map Push [''b'', ''a'', ''b'']) None = Some sp" "lines_hold 8 sp [''b'', ''a'', ''b'']" by auto
  from uniqLines_distinct [OF sp(2)] sp(1) show ?thesis by (auto simp: NUL_def)
qed

text \<open>
  C11.  Joining and splitting are inverse: the string that \<open>joinLines\<close> makes of nonempty lines
  without delimiters, with a separator made of delimiters, splits into the same lines.  The
  lines, each with a separator, and the NUL have to fit in an \<open>int\<close>; when they do not, the size of the
  buffer overflows.
\<close>

theorem splitLine_joinLines:
  assumes "lines_hold es sp xs" and "xs \<noteq> []" and "length xs < 2 ^ 27"
    and "\<forall>w\<in>set xs. w \<noteq> [] \<and> set w \<inter> set delim = {}" and "t \<noteq> []" and "set t \<subseteq> set delim"
  shows "if length (concat (map (\<lambda>x. x @ t) xs)) + 1 \<le> INT_MAX
    then \<exists>line sp'. joinLines (Some t) sp = Some (Some line) \<and> splitLine line delim None = Some sp' \<and> lines_hold 8 sp' xs
    else joinLines (Some t) sp = None"
proof (cases "length (concat (map (\<lambda>x. x @ t) xs)) + 1 \<le> INT_MAX")
  case True
  have h: "lines_hold 8 None ([] :: string list)" by (simp add: lines_hold_def)
  have "length w \<le> length (concat (map (\<lambda>x. x @ t) xs))" if "w \<in> set xs" for w
    using that by (induction xs) auto
  then have "\<forall>w\<in>set xs. w \<noteq> [] \<and> set w \<inter> set delim = {} \<and> length w \<le> INT_MAX" using assms(4) True by fastforce
  with splitLine_join [OF h, of xs delim t "[]"] joinLines_ok [OF assms(1), of "Some t"] assms True show ?thesis
    by (auto simp: fits_8 join_size_def)
next
  case False
  then show ?thesis using joinLines_over [OF assms(1,2), of t] by (simp add: join_size_def)
qed

theorem splitLine_joinLines_witness:
  "\<exists>sp line sp'. run_ops lines_op (map Push [''bk'', ''pull'']) None = Some sp \<and> joinLines (Some '', '') sp = Some (Some line) \<and>
    splitLine line '' ,'' None = Some sp' \<and> lines_hold 8 sp' [''bk'', ''pull'']"
proof -
  from lines_of [of "[''bk'', ''pull'']"] obtain sp where
    sp: "run_ops lines_op (map Push [''bk'', ''pull'']) None = Some sp" "lines_hold 8 sp [''bk'', ''pull'']" by auto
  from splitLine_joinLines [OF sp(2), of "'' ,''" "'', ''"] sp(1) show ?thesis by (auto simp: INT_MAX_def)
qed

text \<open>
  C12.  \<open>parallelLines\<close> on two sorted arrays without duplicates calls back once for every line:
  with both arguments for a line in both arrays, with a null second (first) argument for a line
  that is only in the first (second) array; it returns the sum of the results, or the first
  negative one.
\<close>

theorem parallelLines_calls:
  assumes "lines_hold es a xs" and "lines_hold es' b ys" and "\<forall>x\<in>set xs \<union> set ys. NUL \<notin> set x"
    and "sorted_wrt (\<lambda>a b. strcmp a b < 0) xs" and "sorted_wrt (\<lambda>a b. strcmp a b < 0) ys"
  shows "\<exists>calls. parallelLines a b string_sort walk token = Some (walk_calls walk calls token 0) \<and>
    set calls = (\<lambda>x. (Some x, None)) ` (set xs - set ys) \<union> (\<lambda>y. (None, Some y)) ` (set ys - set xs) \<union>
      (\<lambda>x. (Some x, Some x)) ` (set xs \<inter> set ys) \<and> distinct calls"
proof -
  have "parallelLines a b string_sort walk token = Some (walk_calls walk (merge_calls string_sort xs ys) token 0)"
    using par_loop_ok [of es a "[]" xs es' b "[]" ys] assms(1,2) by (simp add: parallelLines_def)
  moreover have "set (merge_calls string_sort xs ys) = (\<lambda>x. (Some x, None)) ` (set xs - set ys) \<union>
      (\<lambda>y. (None, Some y)) ` (set ys - set xs) \<union> (\<lambda>x. (Some x, Some x)) ` (set xs \<inter> set ys) \<and>
      distinct (merge_calls string_sort xs ys)"
    by (rule merge_calls_sets [where A = "{x. NUL \<notin> set x}"])
      (use assms(3-5) in \<open>auto simp: string_sort_def strcmp_eq_0 intro: strcmp_less_trans strcmp_swap\<close>)
  ultimately show ?thesis by blast
qed

theorem parallelLines_calls_witness:
  "\<exists>a b calls. run_ops lines_op (map Push [''a'', ''b'']) None = Some a \<and> run_ops lines_op (map Push [''b'', ''c'']) None = Some b \<and>
    parallelLines a b string_sort (\<lambda>t x y. (Suc t, 1)) 0 = Some (walk_calls (\<lambda>t x y. (Suc t, 1)) calls 0 0) \<and>
    set calls = {(Some ''a'', None), (Some ''b'', Some ''b''), (None, Some ''c'')}"
proof -
  from lines_of [of "[''a'', ''b'']"] obtain a where
    a: "run_ops lines_op (map Push [''a'', ''b'']) None = Some a" "lines_hold 8 a [''a'', ''b'']" by auto
  from lines_of [of "[''b'', ''c'']"] obtain b where
    b: "run_ops lines_op (map Push [''b'', ''c'']) None = Some b" "lines_hold 8 b [''b'', ''c'']" by auto
  have "(\<lambda>x. (Some x, None)) ` (set [''a'', ''b''] - set [''b'', ''c'']) \<union> (\<lambda>y. (None, Some y)) ` (set [''b'', ''c''] - set [''a'', ''b'']) \<union>
      (\<lambda>x. (Some x, Some x)) ` (set [''a'', ''b''] \<inter> set [''b'', ''c'']) = {(Some ''a'', None), (Some ''b'', Some ''b''), (None, Some ''c'')}"
    by auto
  with parallelLines_calls [OF a(2) b(2), of "\<lambda>t x y. (Suc t, 1)" 0] a(1) b(1) show ?thesis by (auto simp: NUL_def)
qed

end
