(* ===== verification/BK_Shell.thy ===== *)
theory BK_Shell
  imports BK_Prelude
begin

text \<open>
  Quoting and splitting of command lines (\<open>shellquote\<close> and \<open>shellSplit\<close> of \<open>libc/utils/lines.c\<close>).
  The parser copies into a buffer whose size is an \<open>int\<close> that it doubles when needed; a write beyond
  the buffer is the error \<open>Overrun\<close>, a size that an \<open>int\<close> does not hold is \<open>Int_overflow\<close>, and an item
  that does not fit in the result (an array of fewer than \<open>2 ^ 27\<close> lines, see \<open>BK_Lines\<close>) is
  \<open>Lines_full\<close>.  The other errors are the diagnostics with which the program exits.  An item is a
  string with the flag that tells a meta character of the shell from a literal one.
\<close>

section \<open>Quoting\<close>

definition shell_meta :: string where
  "shell_meta = [CHR '' '', CHR 0x09, CHR 0x0A, CHR 0x0D, CHR 0x27, CHR 0x22, CHR ''<'', CHR ''>'', CHR ''|'', CHR ''$'',
     CHR ''&'', CHR '';'', CHR ''['', CHR '']'', CHR ''*'', CHR ''('', CHR '')'', CHR 0x5C]"

definition dq_special :: "char \<Rightarrow> bool" where
  "dq_special c \<longleftrightarrow> c = CHR 0x22 \<or> c = CHR 0x5C"

definition shellquote_size :: "string \<Rightarrow> nat" where
  "shellquote_size s = length s + 2 + 1 + length (filter dq_special s)"

fun dq_escape :: "string \<Rightarrow> string" where
  "dq_escape [] = []"
| "dq_escape (c # cs) = (if dq_special c then CHR 0x5C # c # dq_escape cs else c # dq_escape cs)"

definition shellquote :: "string \<Rightarrow> string option" where
  "shellquote s =
     Option.bind (to_int (length s))
       (\<lambda>len. if strcspn s shell_meta = len then Some s
          else map_option (\<lambda>_. CHR 0x22 # dq_escape s @ [CHR 0x22]) (to_int (shellquote_size s)))"

section \<open>Splitting\<close>

datatype shell_err = Unmatched_single | Unmatched_double | Unhandled | Overrun | Int_overflow | Lines_full

type_synonym shell_item = "string \<times> bool"

record shell_state =
  sh_in :: string
  sh_buf :: string
  sh_size :: nat
  sh_item :: bool
  sh_ret :: "shell_item list"

definition bind_err :: "'e + 'a \<Rightarrow> ('a \<Rightarrow> 'e + 'b) \<Rightarrow> 'e + 'b" where
  "bind_err r f = (case r of Inl e \<Rightarrow> Inl e | Inr x \<Rightarrow> f x)"

text \<open>
  \<open>BUF_RESIZE\<close> for \<open>n\<close> characters in the buffer; the size starts at 128 and is never 0.  The
  differences of pointers in its condition have 64 bits.
\<close>

function BUF_RESIZE :: "nat \<Rightarrow> nat \<Rightarrow> nat \<Rightarrow> shell_err + nat" where
  "BUF_RESIZE n extra bufsize =
     (if bufsize \<noteq> 0 \<and> n + extra > bufsize then
        (case to_int (2 * bufsize) of None \<Rightarrow> Inl Int_overflow | Some bufsize \<Rightarrow> BUF_RESIZE n extra bufsize)
      else Inr bufsize)"
  by auto
termination by (relation "measure (\<lambda>(n, extra, bufsize). n + extra - bufsize)") (auto simp: to_int_eq_Some)

declare BUF_RESIZE.simps [simp del]

definition buf_put :: "string \<Rightarrow> nat \<Rightarrow> string \<Rightarrow> shell_err + string" where
  "buf_put buf bufsize s = (if length buf + length s \<le> bufsize then Inr (buf @ s) else Inl Overrun)"

text \<open>\<open>addLine\<close> to the result, with the limit of its header.\<close>

definition sh_add :: "shell_item \<Rightarrow> shell_state \<Rightarrow> shell_err + shell_state" where
  "sh_add x st = (if length (sh_ret st) + 1 < 2 ^ 27 then Inr (st\<lparr>sh_ret := sh_ret st @ [x]\<rparr>) else Inl Lines_full)"

definition SAVE_ITEM :: "shell_state \<Rightarrow> shell_err + shell_state" where
  "SAVE_ITEM st =
     (if sh_item st
      then bind_err (buf_put (sh_buf st) (sh_size st) [NUL, NUL])
        (\<lambda>_. bind_err (sh_add (sh_buf st, False) st) (\<lambda>st. Inr (st\<lparr>sh_buf := [], sh_item := False\<rparr>)))
      else Inr st)"

text \<open>The inside of a double quoted string: the input at the closing quote, buffer and size.\<close>

function dq_loop :: "string \<Rightarrow> string \<Rightarrow> nat \<Rightarrow> shell_err + (string \<times> string \<times> nat)" where
  "dq_loop pin buf bufsize =
     (if pin = [] \<or> hd pin = CHR 0x22 then Inr (pin, buf, bufsize)
      else
        (let n = strcspn pin [CHR 0x22, CHR 0x5C];
             rest = drop n pin
         in case BUF_RESIZE (length buf) (n + 1) bufsize of
              Inl e \<Rightarrow> Inl e
            | Inr bufsize \<Rightarrow>
                (case buf_put buf bufsize (take n pin) of
                   Inl e \<Rightarrow> Inl e
                 | Inr buf \<Rightarrow>
                     if rest \<noteq> [] \<and> hd rest = CHR 0x5C then
                       (let rest = (if nth_char rest 1 = CHR 0x5C \<or> nth_char rest 1 = CHR 0x22 then tl rest else rest)
                        in case buf_put buf bufsize [hd rest] of
                             Inl e \<Rightarrow> Inl e
                           | Inr buf \<Rightarrow> dq_loop (tl rest) buf bufsize)
                     else dq_loop rest buf bufsize)))"
  by auto
termination
proof (relation "measure (\<lambda>(pin, buf, bufsize). length pin)", goal_cases)
  case (2 pin buf bufsize n rest sz buf' rest' buf'')
  have l: "length rest \<le> length pin" "rest \<noteq> []" using 2 by auto
  have "length rest' \<le> length rest" using 2(7) by (auto split: if_splits)
  moreover have "rest' \<noteq> []" using 2(6,7) by (cases rest) (auto simp: nth_char_def NUL_def split: if_splits)
  ultimately show ?case using l by (cases rest') auto
next
  case (3 pin buf bufsize n rest sz buf')
  have "n \<noteq> 0"
  proof
    assume z: "n = 0"
    then have "rest = pin" using 3 by simp
    moreover have "hd pin = CHR 0x22 \<or> hd pin = CHR 0x5C"
      using 3(1,2) z by (cases pin) (auto simp: strcspn_def split: if_splits)
    ultimately show False using 3(1,6) by auto
  qed
  with 3 show ?case by (cases pin) auto
qed simp

declare dq_loop.simps [simp del]

text \<open>A meta character of \<open>c\<close> bytes.\<close>

definition shell_sep :: "nat \<Rightarrow> shell_state \<Rightarrow> shell_err + shell_state" where
  "shell_sep c st =
     bind_err (SAVE_ITEM st)
       (\<lambda>st. bind_err (sh_add (take c (sh_in st), True) st) (\<lambda>st. Inr (st\<lparr>sh_in := drop c (sh_in st)\<rparr>)))"

text \<open>The \<open>default\<close> branch, into which the escape character falls through.\<close>

definition shell_default :: "shell_state \<Rightarrow> shell_err + shell_state" where
  "shell_default st =
     (let pin = sh_in st
      in if isdigit (hd pin) \<and> (nth_char pin 1 = CHR ''<'' \<or> nth_char pin 1 = CHR ''>'')
         then shell_sep (if nth_char pin 2 = CHR ''&'' \<and> isdigit (nth_char pin 3) then 4 else 2) st
         else bind_err (buf_put (sh_buf st) (sh_size st) [hd pin])
           (\<lambda>buf. Inr (st\<lparr>sh_buf := buf, sh_in := tl pin, sh_item := True\<rparr>)))"

definition shell_single :: "shell_state \<Rightarrow> shell_err + shell_state" where
  "shell_single st =
     (let pin = tl (sh_in st);
          n = length (takeWhile (\<lambda>c. c \<noteq> CHR 0x27) pin)
      in if n = length pin then Inl Unmatched_single
         else
           bind_err (BUF_RESIZE (length (sh_buf st)) n (sh_size st))
             (\<lambda>sz. bind_err (buf_put (sh_buf st) sz (take n pin))
                (\<lambda>buf. Inr (st\<lparr>sh_buf := buf, sh_size := sz, sh_in := drop (Suc n) pin, sh_item := True\<rparr>))))"

definition shell_double :: "shell_state \<Rightarrow> shell_err + shell_state" where
  "shell_double st =
     bind_err (dq_loop (tl (sh_in st)) (sh_buf st) (sh_size st))
       (\<lambda>(pin, buf, sz). if pin = [] then Inl Unmatched_double
          else Inr (st\<lparr>sh_buf := buf, sh_size := sz, sh_in := tl pin, sh_item := True\<rparr>))"

definition shell_unhandled :: "char \<Rightarrow> bool" where
  "shell_unhandled c \<longleftrightarrow> c \<in> {CHR 0x60, CHR ''$'', CHR ''&'', CHR '';'', CHR ''['', CHR '']'', CHR ''*'', CHR ''('', CHR '')''}"

definition shell_switch :: "shell_state \<Rightarrow> shell_err + shell_state" where
  "shell_switch st =
     (let pin = sh_in st; c = hd pin
      in if c \<in> {CHR '' '', CHR 0x09, CHR 0x0A, CHR 0x0D} then SAVE_ITEM (st\<lparr>sh_in := tl pin\<rparr>)
         else if c = CHR 0x27 then shell_single st
         else if c = CHR 0x22 then shell_double st
         else if c \<in> {CHR ''>'', CHR ''<'', CHR ''|''} then
           (if c = CHR ''|'' \<and> nth_char pin 1 = CHR ''|'' then Inl Unhandled
            else shell_sep (if c = CHR ''>'' \<and> nth_char pin 1 = CHR ''>'' then 2 else 1) st)
         else if shell_unhandled c then Inl Unhandled
         else if c = CHR 0x5C then
           (if tl pin = [] then Inr (st\<lparr>sh_in := []\<rparr>) else shell_default (st\<lparr>sh_in := tl pin\<rparr>))
         else shell_default st)"

definition shell_step :: "shell_state \<Rightarrow> shell_err + shell_state" where
  "shell_step st =
     bind_err (shell_switch st)
       (\<lambda>st. bind_err (BUF_RESIZE (length (sh_buf st)) 2 (sh_size st)) (\<lambda>sz. Inr (st\<lparr>sh_size := sz\<rparr>)))"

lemma dq_loop_shorter: "dq_loop pin buf sz = Inr (pin', buf', sz') \<Longrightarrow> length pin' \<le> length pin"
proof (induction pin buf sz rule: dq_loop.induct)
  case (1 pin buf bufsize)
  let ?n = "strcspn pin [CHR 0x22, CHR 0x5C]"
  have "length (drop ?n pin) \<le> length pin" by simp
  then show ?case
    using 1(3) 1(1,2) [OF _ refl refl]
    by (subst (asm) dq_loop.simps) (fastforce simp: Let_def split: if_splits sum.splits)
qed

lemma shell_step_shorter:
  assumes "sh_in st \<noteq> []" "shell_step st = Inr st'"
  shows "length (sh_in st') < length (sh_in st)"
proof -
  have sep: "length (sh_in st2) < length (sh_in st1)" if "shell_sep (Suc c) st1 = Inr st2" "sh_in st1 \<noteq> []" for c st1 st2
    using that by (cases "sh_in st1") (auto simp: shell_sep_def bind_err_def SAVE_ITEM_def sh_add_def buf_put_def split: sum.splits if_splits)
  have def: "length (sh_in st2) < length (sh_in st1)" if "shell_default st1 = Inr st2" "sh_in st1 \<noteq> []" for st1 st2
    using that sep [of 3 st1 st2] sep [of 1 st1 st2]
    by (cases "sh_in st1") (auto simp: shell_default_def Let_def bind_err_def buf_put_def numeral_2_eq_2 numeral_eq_Suc split: sum.splits if_splits)
  obtain st1 where st1: "shell_switch st = Inr st1" "sh_in st' = sh_in st1"
    using assms(2) by (auto simp: shell_step_def bind_err_def split: sum.splits)
  obtain c cs where pin: "sh_in st = c # cs" using assms(1) by (cases "sh_in st") auto
  have "length (sh_in st1) < length (sh_in st)"
    using st1(1) sep [of 0 st st1] sep [of 1 st st1] def [of st st1] def [of "st\<lparr>sh_in := cs\<rparr>" st1] pin
    by (auto simp: shell_switch_def Let_def SAVE_ITEM_def sh_add_def shell_single_def shell_double_def bind_err_def buf_put_def
        numeral_2_eq_2 split: sum.splits if_splits dest!: dq_loop_shorter)
  with st1(2) show ?thesis by simp
qed

function shell_loop :: "shell_state \<Rightarrow> shell_err + shell_state" where
  "shell_loop st =
     (if sh_in st = [] then Inr st
      else case shell_step st of Inl e \<Rightarrow> Inl e | Inr st' \<Rightarrow> shell_loop st')"
  by auto
termination by (relation "measure (\<lambda>st. length (sh_in st))") (auto dest: shell_step_shorter)

declare shell_loop.simps [simp del]

definition shellSplit :: "string \<Rightarrow> shell_err + shell_item list" where
  "shellSplit line =
     bind_err (shell_loop \<lparr>sh_in = line, sh_buf = [], sh_size = 128, sh_item = False, sh_ret = []\<rparr>)
       (\<lambda>st. bind_err (SAVE_ITEM st) (\<lambda>st. Inr (sh_ret st)))"

section \<open>The buffer is always large enough\<close>

text \<open>The sizes of the buffer are powers of two; the largest one that an \<open>int\<close> holds is \<open>2 ^ 30\<close>.\<close>

definition pow_size :: "nat \<Rightarrow> bool" where
  "pow_size sz \<longleftrightarrow> (\<exists>k\<le>30. sz = 2 ^ k)"

lemma pow_size_double:
  assumes "pow_size sz"
  shows "2 * sz \<le> INT_MAX \<longleftrightarrow> sz < 2 ^ 30" "sz < 2 ^ 30 \<Longrightarrow> pow_size (2 * sz)" "0 < sz" "sz \<le> 2 ^ 30"
proof -
  obtain k where k: "k \<le> 30" "sz = 2 ^ k" using assms by (auto simp: pow_size_def)
  show "0 < sz" "sz \<le> 2 ^ 30" using k power_increasing [of k 30 "2 :: nat"] by simp_all
  show "2 * sz \<le> INT_MAX \<longleftrightarrow> sz < 2 ^ 30"
  proof
    assume "sz < 2 ^ 30"
    then show "2 * sz \<le> INT_MAX" by (simp add: INT_MAX_def)
  qed (simp add: INT_MAX_def)
  assume "sz < 2 ^ 30"
  then have "k < 30" using k by (cases "k = 30") auto
  then show "pow_size (2 * sz)" using k by (auto simp: pow_size_def intro!: exI [of _ "Suc k"])
qed

lemma pow_size_128: "pow_size 128"
  by (auto simp: pow_size_def intro!: exI [of _ 7])

lemma BUF_RESIZE_room:
  "pow_size sz \<Longrightarrow> (case BUF_RESIZE n extra sz of
     Inl e \<Rightarrow> e = Int_overflow \<and> 2 ^ 30 < n + extra | Inr sz' \<Rightarrow> n + extra \<le> sz' \<and> sz \<le> sz' \<and> pow_size sz')"
proof (induction n extra sz rule: BUF_RESIZE.induct)
  case (1 n extra sz)
  note p = pow_size_double [OF 1(2)]
  show ?case
  proof (cases "sz < n + extra")
    case True
    show ?thesis
    proof (cases "sz < 2 ^ 30")
      case small: True
      then have "to_int (2 * sz) = Some (2 * sz)" using p(1) by simp
      moreover from this have "case BUF_RESIZE n extra (2 * sz) of
          Inl e \<Rightarrow> e = Int_overflow \<and> 2 ^ 30 < n + extra | Inr sz' \<Rightarrow> n + extra \<le> sz' \<and> 2 * sz \<le> sz' \<and> pow_size sz'"
        using 1(1) p(2,3) True small by auto
      ultimately show ?thesis using True p(3) by (subst BUF_RESIZE.simps) (auto split: sum.splits)
    next
      case False
      then have "to_int (2 * sz) = None" using p(1) by (simp add: to_int_def)
      then show ?thesis using True False p by (subst BUF_RESIZE.simps) simp
    qed
  next
    case False
    then show ?thesis using 1(2) by (subst BUF_RESIZE.simps) simp
  qed
qed

lemma BUF_RESIZE_Inl: "pow_size sz \<Longrightarrow> BUF_RESIZE n extra sz = Inl e \<Longrightarrow> e = Int_overflow \<and> 2 ^ 30 < n + extra"
  using BUF_RESIZE_room [of sz n extra] by simp

lemma BUF_RESIZE_Inr: "pow_size sz \<Longrightarrow> BUF_RESIZE n extra sz = Inr sz' \<Longrightarrow> n + extra \<le> sz' \<and> sz \<le> sz' \<and> pow_size sz'"
  using BUF_RESIZE_room [of sz n extra] by simp

lemma BUF_RESIZE_fits:
  assumes "pow_size sz" "n + extra \<le> 2 ^ 30"
  obtains sz' where "BUF_RESIZE n extra sz = Inr sz'" "n + extra \<le> sz'" "pow_size sz'"
  using BUF_RESIZE_room [OF assms(1), of n extra] assms(2) by (cases "BUF_RESIZE n extra sz") auto

abbreviation dq_n :: "string \<Rightarrow> nat" where
  "dq_n pin \<equiv> strcspn pin [CHR 0x22, CHR 0x5C]"

abbreviation dq_skip :: "string \<Rightarrow> string" where
  "dq_skip r \<equiv> (if nth_char r 1 = CHR 0x5C \<or> nth_char r 1 = CHR 0x22 then tl r else r)"

lemma dq_loop_unfold:
  assumes "pin \<noteq> []" "hd pin \<noteq> CHR 0x22" "BUF_RESIZE (length buf) (dq_n pin + 1) sz = Inr z" "length buf + dq_n pin + 1 \<le> z"
  shows "dq_loop pin buf sz =
    (if drop (dq_n pin) pin \<noteq> [] \<and> hd (drop (dq_n pin) pin) = CHR 0x5C
     then dq_loop (tl (dq_skip (drop (dq_n pin) pin))) (buf @ take (dq_n pin) pin @ [hd (dq_skip (drop (dq_n pin) pin))]) z
     else dq_loop (drop (dq_n pin) pin) (buf @ take (dq_n pin) pin) z)"
proof -
  define n where "n = dq_n pin"
  note z = assms(3,4) [folded n_def]
  have n: "n \<le> length pin" by (simp add: n_def strcspn_def length_takeWhile_le)
  have p1: "buf_put buf z (take n pin) = Inr (buf @ take n pin)" using z n by (simp add: buf_put_def)
  have p2: "buf_put (buf @ take n pin) z [c] = Inr (buf @ take n pin @ [c])" for c using z n by (simp add: buf_put_def)
  show ?thesis
    unfolding dq_loop.simps [of pin buf sz] Let_def n_def [symmetric] z(1) p1 sum.case p2
    using assms(1,2) by simp
qed

text \<open>
  The invariant of a command line of length \<open>L\<close>: the buffer has room for two more characters, and
  neither the buffer nor the number of items exceeds what has been read.
\<close>

definition shell_room :: "nat \<Rightarrow> shell_state \<Rightarrow> bool" where
  "shell_room L st \<longleftrightarrow> pow_size (sh_size st) \<and> length (sh_buf st) \<le> sh_size st \<and>
     length (sh_buf st) + length (sh_in st) \<le> L \<and> length (sh_ret st) + of_bool (sh_item st) + length (sh_in st) \<le> L"

definition shell_err_ok :: "nat \<Rightarrow> shell_err \<Rightarrow> bool" where
  "shell_err_ok L e \<longleftrightarrow> e \<noteq> Overrun \<and> (e = Int_overflow \<longrightarrow> 2 ^ 30 < L + 2) \<and> (e = Lines_full \<longrightarrow> 2 ^ 27 \<le> L)"

definition fine :: "nat \<Rightarrow> shell_err + shell_state \<Rightarrow> bool" where
  "fine L r \<longleftrightarrow> (case r of Inl e \<Rightarrow> shell_err_ok L e | Inr st \<Rightarrow> shell_room L st)"

lemma fine_if: "(b \<Longrightarrow> fine L x) \<Longrightarrow> (\<not> b \<Longrightarrow> fine L y) \<Longrightarrow> fine L (if b then x else y)"
  by simp

lemma dq_loop_room:
  "pow_size sz \<Longrightarrow> length buf \<le> sz \<Longrightarrow> length buf + length pin \<le> L \<Longrightarrow>
    (case dq_loop pin buf sz of
       Inl e \<Rightarrow> shell_err_ok L e
     | Inr (pin', buf', sz') \<Rightarrow> pow_size sz' \<and> length buf' \<le> sz' \<and> length buf' + length pin' \<le> L)"
proof (induction "length pin" arbitrary: pin buf sz rule: less_induct)
  case less
  define n where "n = dq_n pin"
  have n: "n \<le> length pin" by (simp add: n_def strcspn_def length_takeWhile_le)
  show ?case
  proof (cases "pin = [] \<or> hd pin = CHR 0x22")
    case True
    then show ?thesis using less.prems by (subst dq_loop.simps) simp
  next
    case False
    show ?thesis
    proof (cases "BUF_RESIZE (length buf) (n + 1) sz")
      case (Inl e)
      then have "dq_loop pin buf sz = Inl e" using False by (subst dq_loop.simps) (simp add: n_def [symmetric])
      then show ?thesis using BUF_RESIZE_Inl [OF less.prems(1) Inl] less.prems(3) n by (simp add: shell_err_ok_def)
    next
      case (Inr z)
      note z = BUF_RESIZE_Inr [OF less.prems(1) Inr]
      have eq: "dq_loop pin buf sz = (if drop n pin \<noteq> [] \<and> hd (drop n pin) = CHR 0x5C
          then dq_loop (tl (dq_skip (drop n pin))) (buf @ take n pin @ [hd (dq_skip (drop n pin))]) z
          else dq_loop (drop n pin) (buf @ take n pin) z)"
        using False Inr z unfolding n_def by (intro dq_loop_unfold) auto
      show ?thesis
      proof (cases "drop n pin \<noteq> [] \<and> hd (drop n pin) = CHR 0x5C")
        case True
        have d: "length (tl (dq_skip (drop n pin))) < length (drop n pin)" using True by (cases "drop n pin") auto
        then have "length (tl (dq_skip (drop n pin))) < length pin" by (rule less_le_trans) simp
        from less.hyps [OF this, of z "buf @ take n pin @ [hd (dq_skip (drop n pin))]"] z less.prems(3) n d show ?thesis
          unfolding eq if_P [OF True] by simp
      next
        case skip: False
        have "n \<noteq> 0"
        proof
          assume "n = 0"
          then have "hd pin = CHR 0x5C" using False by (cases pin) (auto simp: n_def strcspn_def split: if_splits)
          with \<open>n = 0\<close> skip False show False by simp
        qed
        with False have "length (drop n pin) < length pin" by (cases pin) auto
        from less.hyps [OF this, of z "buf @ take n pin"] z less.prems(3) n show ?thesis unfolding eq if_not_P [OF skip] by simp
      qed
    qed
  qed
qed

lemma sh_add_room:
  assumes "length (sh_ret st) + 1 \<le> L"
  shows "case sh_add x st of Inl e \<Rightarrow> shell_err_ok L e | Inr st' \<Rightarrow> st' = st\<lparr>sh_ret := sh_ret st @ [x]\<rparr>"
  using assms by (simp add: sh_add_def shell_err_ok_def)

definition room2 :: "shell_state \<Rightarrow> bool" where
  "room2 st \<longleftrightarrow> length (sh_buf st) + 2 \<le> sh_size st"

lemma SAVE_ITEM_room:
  assumes "shell_room L st" "room2 st"
  shows "case SAVE_ITEM st of Inl e \<Rightarrow> shell_err_ok L e
    | Inr st' \<Rightarrow> shell_room L st' \<and> room2 st' \<and> sh_in st' = sh_in st \<and> \<not> sh_item st'"
proof (cases "sh_item st")
  case True
  then show ?thesis using sh_add_room [of st L "(sh_buf st, False)"] assms
    by (auto simp: SAVE_ITEM_def buf_put_def bind_err_def shell_room_def room2_def split: sum.splits)
qed (use assms in \<open>simp add: SAVE_ITEM_def\<close>)

lemma shell_sep_room:
  assumes "shell_room L st" "room2 st" "sh_in st \<noteq> []" "0 < c"
  shows "fine L (shell_sep c st)"
proof (cases "SAVE_ITEM st")
  case (Inl e)
  then show ?thesis using SAVE_ITEM_room [OF assms(1,2)] by (simp add: shell_sep_def bind_err_def fine_def)
next
  case (Inr st1)
  then have r: "shell_room L st1" "sh_in st1 = sh_in st" "\<not> sh_item st1" using SAVE_ITEM_room [OF assms(1,2)] by auto
  have "1 \<le> length (sh_in st1)" using r(2) assms(3) by (cases "sh_in st") auto
  then show ?thesis using sh_add_room [of st1 L "(take c (sh_in st1), True)"] r Inr assms(4)
    by (auto simp: shell_sep_def bind_err_def fine_def shell_room_def split: sum.splits)
qed

lemma shell_default_room:
  assumes "shell_room L st" "room2 st" "sh_in st \<noteq> []"
  shows "fine L (shell_default st)"
proof -
  have "fine L (bind_err (buf_put (sh_buf st) (sh_size st) [hd (sh_in st)])
      (\<lambda>buf. Inr (st\<lparr>sh_buf := buf, sh_in := tl (sh_in st), sh_item := True\<rparr>)))"
    using assms by (cases "sh_in st") (auto simp: bind_err_def buf_put_def fine_def shell_room_def room2_def)
  then show ?thesis using shell_sep_room [OF assms] unfolding shell_default_def Let_def by (intro fine_if) auto
qed

lemma shell_single_room:
  assumes "shell_room L st" "sh_in st = q # pin"
  shows "fine L (shell_single st)"
proof -
  let ?n = "length (takeWhile (\<lambda>c. c \<noteq> CHR 0x27) pin)"
  have n: "?n \<le> length pin" by (rule length_takeWhile_le)
  have ps: "pow_size (sh_size st)" and l: "length (sh_buf st) + Suc (length pin) \<le> L" "length (sh_ret st) + Suc (length pin) \<le> L"
    using assms by (auto simp: shell_room_def)
  show ?thesis
  proof (cases "BUF_RESIZE (length (sh_buf st)) ?n (sh_size st)")
    case (Inl e)
    then have "shell_err_ok L e" using BUF_RESIZE_Inl [OF ps Inl] l(1) n by (simp add: shell_err_ok_def)
    then show ?thesis using Inl assms(2) by (simp add: shell_single_def fine_def bind_err_def shell_err_ok_def Let_def)
  next
    case (Inr z)
    have "fine L (bind_err (buf_put (sh_buf st) z (take ?n pin))
        (\<lambda>buf. Inr (st\<lparr>sh_buf := buf, sh_size := z, sh_in := drop (Suc ?n) pin, sh_item := True\<rparr>)))"
      using BUF_RESIZE_Inr [OF ps Inr] l n by (simp add: fine_def bind_err_def buf_put_def shell_room_def, intro conjI; linarith)
    then show ?thesis using Inr assms(2) by (simp add: shell_single_def bind_err_def Let_def) (simp add: fine_def shell_err_ok_def)
  qed
qed

lemma shell_double_room:
  assumes "shell_room L st" "sh_in st = q # pin"
  shows "fine L (shell_double st)"
proof -
  have ps: "pow_size (sh_size st)" "length (sh_buf st) \<le> sh_size st" "length (sh_buf st) + length pin \<le> L" "length (sh_ret st) + Suc (length pin) \<le> L"
    using assms by (auto simp: shell_room_def)
  note room = dq_loop_room [OF ps(1-3)]
  show ?thesis
  proof (cases "dq_loop pin (sh_buf st) (sh_size st)")
    case (Inl e)
    then show ?thesis using room assms(2) by (simp add: shell_double_def fine_def bind_err_def)
  next
    case (Inr r)
    obtain pin' buf sz where r: "r = (pin', buf, sz)" by (cases r)
    have "length pin' \<le> length pin" using dq_loop_shorter Inr r by blast
    then show ?thesis using room ps(4) Inr r assms(2)
      by (auto simp: shell_room_def shell_double_def fine_def bind_err_def shell_err_ok_def)
  qed
qed

lemma shell_switch_room:
  assumes inv: "shell_room L st" "room2 st" and ne: "sh_in st \<noteq> []"
  shows "fine L (shell_switch st)"
proof -
  obtain q pin where pin: "sh_in st = q # pin" using ne by (cases "sh_in st") auto
  have i2: "shell_room L (st\<lparr>sh_in := pin\<rparr>)" "room2 (st\<lparr>sh_in := pin\<rparr>)"
    using inv pin by (auto simp: shell_room_def room2_def)
  have "fine L (SAVE_ITEM (st\<lparr>sh_in := pin\<rparr>))"
    using SAVE_ITEM_room [OF i2] by (auto simp: fine_def split: sum.splits)
  moreover have "fine L (shell_sep (if b then 2 else 1) st)" for b using shell_sep_room [OF inv ne] by simp
  moreover have "fine L (if pin = [] then Inr (st\<lparr>sh_in := []\<rparr>) else shell_default (st\<lparr>sh_in := pin\<rparr>))"
    using shell_default_room [OF i2] inv(1) by (auto simp: fine_def shell_room_def)
  moreover have "fine L (Inl Unhandled)" by (simp add: fine_def shell_err_ok_def)
  ultimately show ?thesis
    using shell_single_room [OF inv(1) pin] shell_double_room [OF inv(1) pin] shell_default_room [OF inv ne]
    unfolding shell_switch_def Let_def pin list.sel by (intro fine_if) (simp_all only: if_True if_False simp_thms)
qed

lemma shell_step_room:
  assumes "shell_room L st" "room2 st" "sh_in st \<noteq> []"
  shows "case shell_step st of Inl e \<Rightarrow> shell_err_ok L e | Inr st' \<Rightarrow> shell_room L st' \<and> room2 st'"
proof (cases "shell_switch st")
  case (Inl e)
  then show ?thesis using shell_switch_room [OF assms] by (simp add: shell_step_def bind_err_def fine_def)
next
  case (Inr st1)
  then have r: "shell_room L st1" using shell_switch_room [OF assms] by (simp add: fine_def)
  then have ps: "pow_size (sh_size st1)" by (simp add: shell_room_def)
  show ?thesis
  proof (cases "BUF_RESIZE (length (sh_buf st1)) 2 (sh_size st1)")
    case e: (Inl e)
    then show ?thesis using BUF_RESIZE_Inl [OF ps e] r Inr by (simp add: shell_step_def bind_err_def shell_err_ok_def shell_room_def)
  next
    case z: (Inr z)
    then show ?thesis using BUF_RESIZE_Inr [OF ps z] r Inr by (simp add: shell_step_def bind_err_def shell_room_def room2_def)
  qed
qed

lemma shell_loop_room:
  "shell_room L st \<Longrightarrow> room2 st \<Longrightarrow>
    (case shell_loop st of Inl e \<Rightarrow> shell_err_ok L e | Inr st' \<Rightarrow> shell_room L st' \<and> room2 st')"
proof (induction st rule: shell_loop.induct)
  case (1 st)
  show ?case
  proof (cases "sh_in st = []")
    case False
    then show ?thesis using shell_step_room [OF 1(2,3) False] 1(1)
      by (subst shell_loop.simps) (auto split: sum.splits)
  qed (use 1(2,3) in \<open>subst shell_loop.simps, simp\<close>)
qed

text \<open>
  C14.  \<open>shellSplit\<close> never writes beyond its buffer, whatever the command line.  The size of the buffer
  does not overflow for command lines of up to \<open>2 ^ 30 - 2\<close> characters, and the array of the
  result does not for fewer than \<open>2 ^ 27\<close>.
\<close>

theorem shellSplit_no_overrun:
  "shellSplit line \<noteq> Inl Overrun \<and>
   (length line + 2 \<le> 2 ^ 30 \<longrightarrow> shellSplit line \<noteq> Inl Int_overflow) \<and>
   (length line < 2 ^ 27 \<longrightarrow> shellSplit line \<noteq> Inl Lines_full)"
proof -
  let ?st = "\<lparr>sh_in = line, sh_buf = [], sh_size = 128, sh_item = False, sh_ret = []\<rparr>"
  let ?L = "length line"
  have "shell_room ?L ?st" "room2 ?st" by (simp_all add: shell_room_def room2_def pow_size_128)
  note room = shell_loop_room [OF this]
  have "shell_err_ok ?L e" if e: "shellSplit line = Inl e" for e
  proof (cases "shell_loop ?st")
    case (Inl e')
    then show ?thesis using e room by (simp add: shellSplit_def bind_err_def)
  next
    case (Inr st)
    then have "shell_room ?L st" "room2 st" using room by simp_all
    note save = SAVE_ITEM_room [OF this]
    show ?thesis using e Inr save by (cases "SAVE_ITEM st") (simp_all add: shellSplit_def bind_err_def)
  qed
  note ok = this
  have "\<not> shell_err_ok ?L Overrun" by (simp add: shell_err_ok_def)
  moreover have "?L + 2 \<le> 2 ^ 30 \<longrightarrow> \<not> shell_err_ok ?L Int_overflow" by (simp add: shell_err_ok_def)
  moreover have "?L < 2 ^ 27 \<longrightarrow> \<not> shell_err_ok ?L Lines_full" by (simp add: shell_err_ok_def)
  ultimately show ?thesis using ok by blast
qed

theorem shellSplit_no_overrun_witness:
  "length ''bk commit -y'' + 2 \<le> 2 ^ 30 \<and> shellSplit ''bk commit -y'' \<notin> {Inl Overrun, Inl Int_overflow, Inl Lines_full}"
  using shellSplit_no_overrun [of "''bk commit -y''"] by simp

section \<open>Quoted words come back\<close>

text \<open>The words that fit: the buffer, which holds one word at a time, can grow for them.\<close>

definition word_fits :: "string \<Rightarrow> bool" where
  "word_fits w \<longleftrightarrow> length w + 2 \<le> 2 ^ 30"

definition shell_inv :: "shell_state \<Rightarrow> bool" where
  "shell_inv st \<longleftrightarrow> room2 st \<and> pow_size (sh_size st)"

lemma dq_escape_append: "dq_escape (u @ v) = dq_escape u @ dq_escape v"
  by (induction u) auto

lemma dq_escape_plain: "\<forall>c\<in>set u. \<not> dq_special c \<Longrightarrow> dq_escape u = u"
  by (induction u) auto

lemma dq_loop_escape:
  "pow_size sz \<Longrightarrow> length buf + length w + 1 \<le> 2 ^ 30 \<Longrightarrow>
    \<exists>sz'. pow_size sz' \<and> dq_loop (dq_escape w @ CHR 0x22 # rest) buf sz = Inr (CHR 0x22 # rest, buf @ w, sz')"
proof (induction "length w" arbitrary: w buf sz rule: less_induct)
  case less
  let ?q = "CHR 0x22 # rest"
  define u where "u = takeWhile (\<lambda>c. \<not> dq_special c) w"
  define v where "v = dropWhile (\<lambda>c. \<not> dq_special c) w"
  have w: "w = u @ v" by (simp add: u_def v_def)
  have u: "\<forall>c\<in>set u. \<not> dq_special c" unfolding u_def by (metis set_takeWhileD)
  have v: "v = [] \<or> dq_special (hd v)" unfolding v_def by (metis hd_dropWhile)
  let ?pin = "dq_escape w @ ?q"
  have pin: "?pin = u @ dq_escape v @ ?q" by (simp add: w dq_escape_append dq_escape_plain [OF u])
  have hd: "hd (dq_escape v @ ?q) = CHR 0x22 \<or> hd (dq_escape v @ ?q) = CHR 0x5C" using v by (cases v) auto
  have n: "dq_n ?pin = length u"
    unfolding strcspn_def pin using u hd by (subst takeWhile_append_stop) (auto simp: dq_special_def)
  have "length buf + (length u + 1) \<le> 2 ^ 30" using less.prems(2) w by simp
  then obtain z where z: "BUF_RESIZE (length buf) (length u + 1) sz = Inr z" "length buf + (length u + 1) \<le> z" "pow_size z"
    using BUF_RESIZE_fits [OF less.prems(1)] by blast
  show ?case
  proof (cases "w = []")
    case True
    then show ?thesis using less.prems by (auto simp: dq_loop.simps)
  next
    case False
    have "?pin \<noteq> []" by simp
    moreover have "hd ?pin \<noteq> CHR 0x22" using False by (cases w) (auto simp: dq_special_def)
    ultimately have eq: "dq_loop ?pin buf sz =
        (if dq_escape v @ ?q \<noteq> [] \<and> hd (dq_escape v @ ?q) = CHR 0x5C
         then dq_loop (tl (dq_skip (dq_escape v @ ?q))) (buf @ u @ [hd (dq_skip (dq_escape v @ ?q))]) z
         else dq_loop (dq_escape v @ ?q) (buf @ u) z)"
      using dq_loop_unfold [of ?pin buf sz z] z unfolding n by (simp add: pin)
    show ?thesis
    proof (cases v)
      case Nil
      then have "dq_loop ?pin buf sz = dq_loop ?q (buf @ u) z" using eq by simp
      then show ?thesis using Nil w z by (auto simp: dq_loop.simps)
    next
      case (Cons c v')
      with v have c: "dq_special c" by simp
      then have "nth_char (CHR 0x5C # c # dq_escape v' @ ?q) 1 = c" by (simp add: nth_char_def)
      then have "dq_loop ?pin buf sz = dq_loop (dq_escape v' @ ?q) (buf @ u @ [c]) z"
        using eq Cons c by (auto simp: dq_special_def)
      moreover have "length v' < length w" using w Cons by simp
      ultimately show ?thesis using less.hyps [of v' z "buf @ u @ [c]"] less.prems(2) z w Cons by simp
    qed
  qed
qed

text \<open>After a step, the buffer is resized for two more characters.\<close>

lemma loop_step:
  assumes "sh_in st \<noteq> []" "shell_switch st = Inr st1" "pow_size (sh_size st1)" "word_fits (sh_buf st1)"
  shows "\<exists>sz. shell_loop st = shell_loop (st1\<lparr>sh_size := sz\<rparr>) \<and> shell_inv (st1\<lparr>sh_size := sz\<rparr>)"
proof -
  have "length (sh_buf st1) + 2 \<le> 2 ^ 30" using assms(4) by (simp add: word_fits_def)
  from BUF_RESIZE_fits [OF assms(3) this] obtain sz where
    sz: "BUF_RESIZE (length (sh_buf st1)) 2 (sh_size st1) = Inr sz" "length (sh_buf st1) + 2 \<le> sz" "pow_size sz" by blast
  have "shell_step st = Inr (st1\<lparr>sh_size := sz\<rparr>)" using assms(2) sz(1) by (simp add: shell_step_def bind_err_def)
  then show ?thesis using assms(1) sz by (subst shell_loop.simps) (auto simp: shell_inv_def room2_def)
qed

text \<open>The state in which the buffer holds \<open>buf\<close> and the input is at \<open>rest\<close>.\<close>

abbreviation sh_at :: "shell_state \<Rightarrow> string \<Rightarrow> string \<Rightarrow> nat \<Rightarrow> shell_state" where
  "sh_at st rest buf sz \<equiv> st\<lparr>sh_in := rest, sh_buf := buf, sh_item := True, sh_size := sz\<rparr>"

definition sh_plain :: "char \<Rightarrow> bool" where
  "sh_plain c \<longleftrightarrow> c \<notin> set shell_meta \<and> c \<noteq> CHR 0x60"

lemma loop_plain_char:
  assumes "shell_inv st" "sh_in st = c # cs" "sh_plain c" "nth_char (c # cs) 1 \<noteq> CHR ''<''" "nth_char (c # cs) 1 \<noteq> CHR ''>''"
    and "word_fits (sh_buf st @ [c])"
  shows "\<exists>sz. shell_loop st = shell_loop (sh_at st cs (sh_buf st @ [c]) sz) \<and> shell_inv (sh_at st cs (sh_buf st @ [c]) sz)"
proof -
  let ?st1 = "sh_at st cs (sh_buf st @ [c]) (sh_size st)"
  have p: "buf_put (sh_buf st) (sh_size st) [c] = Inr (sh_buf st @ [c])"
    using assms(1) by (simp add: buf_put_def shell_inv_def room2_def)
  have "shell_default st = Inr ?st1"
    using assms(2,4,5) p by (simp add: shell_default_def bind_err_def)
  moreover have "shell_switch st = shell_default st"
    using assms(2,3) by (auto simp: shell_switch_def sh_plain_def shell_meta_def shell_unhandled_def)
  ultimately have "shell_switch st = Inr ?st1" by simp
  from loop_step [OF _ this] assms(1,2,6) show ?thesis by (simp add: shell_inv_def)
qed

lemma loop_plain:
  assumes "shell_inv st" "sh_in st = w @ rest" "\<forall>c\<in>set w. sh_plain c" "rest = [] \<or> hd rest \<notin> {CHR ''<'', CHR ''>''}" "w \<noteq> []"
    and "word_fits (sh_buf st @ w)"
  shows "\<exists>sz. shell_loop st = shell_loop (sh_at st rest (sh_buf st @ w) sz) \<and> shell_inv (sh_at st rest (sh_buf st @ w) sz)"
  using assms
proof (induction w arbitrary: st)
  case (Cons c w)
  have nx: "nth_char (c # w @ rest) 1 \<noteq> CHR ''<''" "nth_char (c # w @ rest) 1 \<noteq> CHR ''>''"
    using Cons.prems(3,4) by (cases w; cases rest; auto simp: nth_char_def sh_plain_def shell_meta_def NUL_def)+
  have "word_fits (sh_buf st @ [c])" using Cons.prems(6) by (simp add: word_fits_def)
  with loop_plain_char [OF Cons.prems(1), of c "w @ rest"] Cons.prems(2,3) nx obtain sz where
    sz: "shell_loop st = shell_loop (sh_at st (w @ rest) (sh_buf st @ [c]) sz)" "shell_inv (sh_at st (w @ rest) (sh_buf st @ [c]) sz)" by auto
  show ?case
  proof (cases "w = []")
    case True
    then show ?thesis using sz by auto
  next
    case False
    from Cons.IH [OF sz(2) _ _ Cons.prems(4) False] Cons.prems(3,6) sz(1) show ?thesis by (simp add: word_fits_def)
  qed
qed simp

lemma loop_quoted:
  assumes "shell_inv st" "sh_in st = CHR 0x22 # dq_escape w @ CHR 0x22 # rest" "word_fits (sh_buf st @ w)"
  shows "\<exists>sz. shell_loop st = shell_loop (sh_at st rest (sh_buf st @ w) sz) \<and> shell_inv (sh_at st rest (sh_buf st @ w) sz)"
proof -
  have "length (sh_buf st) + length w + 1 \<le> 2 ^ 30" using assms(3) by (simp add: word_fits_def)
  with dq_loop_escape [of "sh_size st" "sh_buf st" w rest] assms(1) obtain sz where
    sz: "pow_size sz" "dq_loop (dq_escape w @ CHR 0x22 # rest) (sh_buf st) (sh_size st) = Inr (CHR 0x22 # rest, sh_buf st @ w, sz)"
    by (auto simp: shell_inv_def)
  have "shell_switch st = Inr (sh_at st rest (sh_buf st @ w) sz)"
    using assms(2) sz(2) by (simp add: shell_switch_def shell_double_def bind_err_def)
  from loop_step [OF _ this] assms(2,3) sz(1) show ?thesis by simp
qed

text \<open>
  The words for which quoting works: not empty, and without a backquote unless another
  character forces quotes.
\<close>

definition quotable :: "string \<Rightarrow> bool" where
  "quotable w \<longleftrightarrow> w \<noteq> [] \<and> (CHR 0x60 \<in> set w \<longrightarrow> (\<exists>c\<in>set w. c \<in> set shell_meta))"

definition quoted :: "string \<Rightarrow> string" where
  "quoted w = (if \<exists>c\<in>set w. c \<in> set shell_meta then CHR 0x22 # dq_escape w @ [CHR 0x22] else w)"

lemma dq_escape_length: "length (dq_escape s) = length s + length (filter dq_special s)"
  by (induction s) auto

lemma shellquote_quoted:
  assumes "word_fits w"
  shows "shellquote w = Some (quoted w)"
proof -
  have len: "to_int (length w) = Some (length w)" using assms by (simp add: word_fits_def INT_MAX_def)
  define m where "m = length (filter dq_special w)"
  have "m \<le> length w" unfolding m_def by (rule length_filter_le)
  then have "shellquote_size w \<le> INT_MAX"
    using assms by (simp add: word_fits_def INT_MAX_def shellquote_size_def m_def [symmetric])
  then have size: "to_int (shellquote_size w) = Some (shellquote_size w)" by simp
  have "strcspn w shell_meta = length w \<longleftrightarrow> \<not> (\<exists>c\<in>set w. c \<in> set shell_meta)"
  proof
    assume "strcspn w shell_meta = length w"
    then have "takeWhile (\<lambda>c. c \<notin> set shell_meta) w = w" unfolding strcspn_def by (metis takeWhile_eq_take take_all order_refl)
    then show "\<not> (\<exists>c\<in>set w. c \<in> set shell_meta)" by (metis (no_types, lifting) set_takeWhileD)
  next
    assume "\<not> (\<exists>c\<in>set w. c \<in> set shell_meta)"
    then have "takeWhile (\<lambda>c. c \<notin> set shell_meta) w = w" by (auto simp: takeWhile_eq_all_conv)
    then show "strcspn w shell_meta = length w" by (simp only: strcspn_def)
  qed
  then show ?thesis using len size by (simp add: shellquote_def quoted_def)
qed

lemma those_shellquote: "\<forall>w\<in>set ws. word_fits w \<Longrightarrow> those (map shellquote ws) = Some (map quoted ws)"
  by (induction ws) (simp_all add: shellquote_quoted)

lemma loop_shellquote:
  assumes "shell_inv st" "sh_in st = quoted w @ rest" "quotable w" "rest = [] \<or> hd rest = CHR '' ''" "word_fits (sh_buf st @ w)"
  shows "\<exists>sz. shell_loop st = shell_loop (sh_at st rest (sh_buf st @ w) sz) \<and> shell_inv (sh_at st rest (sh_buf st @ w) sz)"
proof (cases "\<exists>c\<in>set w. c \<in> set shell_meta")
  case True
  with assms(2) show ?thesis by (intro loop_quoted [OF assms(1) _ assms(5)]) (simp add: quoted_def)
next
  case False
  then have "quoted w = w" by (auto simp: quoted_def)
  with assms False show ?thesis by (intro loop_plain [OF assms(1)]) (auto simp: quotable_def sh_plain_def)
qed

section \<open>Sequences of words\<close>

text \<open>Between two words: the buffer is empty and no item is pending.\<close>

definition sh_between :: "shell_state \<Rightarrow> bool" where
  "sh_between st \<longleftrightarrow> shell_inv st \<and> sh_buf st = [] \<and> \<not> sh_item st"

definition sh_word :: "string \<Rightarrow> bool" where
  "sh_word w \<longleftrightarrow> (w = [] \<or> quotable w) \<and> word_fits w"

abbreviation items :: "string list \<Rightarrow> shell_item list" where
  "items ws \<equiv> map (\<lambda>w. (w, False)) (filter (\<lambda>w. w \<noteq> []) ws)"

lemma shell_inv_update: "shell_inv (st\<lparr>sh_ret := r\<rparr>) = shell_inv st" "shell_inv (st\<lparr>sh_in := i\<rparr>) = shell_inv st" "shell_inv (st\<lparr>sh_item := b\<rparr>) = shell_inv st"
  by (simp_all add: shell_inv_def room2_def)

lemma save_word:
  assumes "shell_inv st" "sh_item st" "length (sh_ret st) + 1 < 2 ^ 27"
  shows "SAVE_ITEM st = Inr (st\<lparr>sh_ret := sh_ret st @ [(sh_buf st, False)], sh_buf := [], sh_item := False\<rparr>)"
  using assms by (simp add: SAVE_ITEM_def bind_err_def buf_put_def sh_add_def shell_inv_def room2_def)

lemma loop_blank:
  assumes "shell_inv st" "sh_in st = CHR '' '' # rest" "if sh_item st then length (sh_ret st) + 1 < 2 ^ 27 else sh_buf st = []"
  shows "\<exists>st'. shell_loop st = shell_loop st' \<and> sh_between st' \<and> sh_in st' = rest \<and>
    sh_ret st' = sh_ret st @ (if sh_item st then [(sh_buf st, False)] else [])"
proof -
  let ?st1 = "st\<lparr>sh_in := rest, sh_ret := sh_ret st @ (if sh_item st then [(sh_buf st, False)] else []), sh_buf := [], sh_item := False\<rparr>"
  have "shell_switch st = SAVE_ITEM (st\<lparr>sh_in := rest\<rparr>)" using assms(2) by (simp add: shell_switch_def)
  also have "\<dots> = Inr ?st1"
  proof (cases "sh_item st")
    case True
    then show ?thesis using assms(1,3) save_word [of "st\<lparr>sh_in := rest\<rparr>"] by (simp add: shell_inv_update)
  next
    case False
    then have "st\<lparr>sh_in := rest\<rparr> = ?st1" using assms(3) by (cases st) simp
    then show ?thesis using False by (simp add: SAVE_ITEM_def)
  qed
  finally have "shell_switch st = Inr ?st1" .
  from loop_step [OF _ this] assms(1,2) obtain sz where
    "shell_loop st = shell_loop (?st1\<lparr>sh_size := sz\<rparr>)" "shell_inv (?st1\<lparr>sh_size := sz\<rparr>)"
    by (auto simp: shell_inv_def word_fits_def)
  then show ?thesis by (intro exI [of _ "?st1\<lparr>sh_size := sz\<rparr>"]) (simp add: sh_between_def)
qed

text \<open>A word, with the blank after it when another word follows.\<close>

lemma loop_word:
  assumes "sh_between st" "sh_in st = quoted w @ rest" "sh_word w" "rest = [] \<or> hd rest = CHR '' ''"
  shows "\<exists>st'. shell_loop st = shell_loop st' \<and> shell_inv st' \<and> sh_in st' = rest \<and> sh_buf st' = w \<and>
    sh_item st' = (w \<noteq> []) \<and> sh_ret st' = sh_ret st"
proof (cases "w = []")
  case True
  then show ?thesis using assms by (intro exI [of _ st]) (simp add: sh_between_def quoted_def)
next
  case False
  then have q: "quotable w" "word_fits (sh_buf st @ w)" using assms(1,3) by (simp_all add: sh_word_def sh_between_def)
  have "shell_inv st" using assms(1) by (simp add: sh_between_def)
  from loop_shellquote [OF this assms(2) q(1) assms(4) q(2)] obtain sz where
    "shell_loop st = shell_loop (sh_at st rest (sh_buf st @ w) sz)" "shell_inv (sh_at st rest (sh_buf st @ w) sz)" by blast
  then show ?thesis using False assms(1) by (intro exI [of _ "sh_at st rest w sz"]) (simp add: sh_between_def)
qed

lemma loop_words:
  assumes "sh_between st" "sh_in st = concat (map (\<lambda>w. quoted w @ '' '') ws) @ rest" "\<forall>w\<in>set ws. sh_word w"
    and "length (sh_ret st) + length ws < 2 ^ 27"
  shows "\<exists>st'. shell_loop st = shell_loop st' \<and> sh_between st' \<and> sh_in st' = rest \<and> sh_ret st' = sh_ret st @ items ws"
  using assms
proof (induction ws arbitrary: st)
  case Nil
  then show ?case by auto
next
  case (Cons w ws)
  let ?r = "concat (map (\<lambda>w. quoted w @ '' '') ws) @ rest"
  have "sh_in st = quoted w @ CHR '' '' # ?r" using Cons.prems(2) by simp
  from loop_word [OF Cons.prems(1) this] Cons.prems(3) obtain st1 where
    st1: "shell_loop st = shell_loop st1" "shell_inv st1" "sh_in st1 = CHR '' '' # ?r" "sh_buf st1 = w" "sh_item st1 = (w \<noteq> [])" "sh_ret st1 = sh_ret st"
    by auto
  have "if sh_item st1 then length (sh_ret st1) + 1 < 2 ^ 27 else sh_buf st1 = []" using st1 Cons.prems(4) by simp
  from loop_blank [OF st1(2,3) this] obtain st2 where
    st2: "shell_loop st1 = shell_loop st2" "sh_between st2" "sh_in st2 = ?r" and ret: "sh_ret st2 = sh_ret st1 @ (if sh_item st1 then [(sh_buf st1, False)] else [])"
    by blast
  have st2_ret: "sh_ret st2 = sh_ret st @ items [w]" using ret st1(4-6) by simp
  have n: "length (sh_ret st2) + length ws < 2 ^ 27" using Cons.prems(4) unfolding st2_ret by simp
  show ?case using Cons.IH [OF st2(2,3) _ n] Cons.prems(3) st1(1) st2(1) st2_ret by (cases "w = []") simp_all
qed

definition shell_finish :: "shell_state \<Rightarrow> shell_err + shell_item list" where
  "shell_finish st = bind_err (shell_loop st) (\<lambda>st. bind_err (SAVE_ITEM st) (\<lambda>st. Inr (sh_ret st)))"

abbreviation sh_start :: "string \<Rightarrow> shell_state" where
  "sh_start line \<equiv> \<lparr>sh_in = line, sh_buf = [], sh_size = 128, sh_item = False, sh_ret = []\<rparr>"

lemma shellSplit_finish: "shellSplit line = shell_finish (sh_start line)"
  by (simp add: shellSplit_def shell_finish_def)

lemma sh_between_start: "sh_between (sh_start line)"
  by (simp add: sh_between_def shell_inv_def room2_def pow_size_128)

lemma join_blank: "join '' '' (xs @ y # ys) = concat (map (\<lambda>x. x @ '' '') xs) @ join '' '' (y # ys)"
proof (induction xs)
  case (Cons x xs)
  then show ?case by (cases xs) auto
qed simp

lemma split_words:
  assumes "\<forall>w\<in>set ws. sh_word w" "length ws < 2 ^ 27"
  shows "shellSplit (join '' '' (map quoted ws)) = Inr (items ws)"
proof (cases ws rule: rev_cases)
  case Nil
  then show ?thesis by (simp add: shellSplit_finish shell_finish_def shell_loop.simps bind_err_def SAVE_ITEM_def)
next
  case (snoc us w)
  let ?st = "sh_start (join '' '' (map quoted ws))"
  have "sh_in ?st = concat (map (\<lambda>w. quoted w @ '' '') us) @ quoted w"
    using join_blank [of "map quoted us" "quoted w" "[]"] snoc by (simp add: comp_def)
  from loop_words [OF sh_between_start this] assms snoc obtain st1 where
    st1: "shell_loop ?st = shell_loop st1" "sh_between st1" "sh_in st1 = quoted w" "sh_ret st1 = items us" by auto
  from loop_word [OF st1(2), of w "[]"] st1(3) assms(1) snoc obtain st2 where
    st2: "shell_loop st1 = shell_loop st2" "shell_inv st2" "sh_in st2 = []" "sh_buf st2 = w" "sh_item st2 = (w \<noteq> [])" "sh_ret st2 = sh_ret st1"
    by auto
  have "length (filter (\<lambda>w. w \<noteq> []) us) \<le> length us" by (rule length_filter_le)
  moreover have "length us + 1 < 2 ^ 27" using assms(2) snoc by simp
  ultimately have n: "length (sh_ret st2) + 1 < 2 ^ 27" unfolding st2(6) st1(4) length_map by linarith
  have "shell_finish ?st = bind_err (SAVE_ITEM st2) (\<lambda>st. Inr (sh_ret st))"
    using st1(1) st2(1,3) by (simp add: shell_finish_def shell_loop.simps [of st2] bind_err_def)
  also have "\<dots> = Inr (items ws)"
  proof (cases "w = []")
    case True
    then show ?thesis using st2 st1(4) snoc by (simp add: SAVE_ITEM_def bind_err_def)
  next
    case False
    then show ?thesis using save_word [OF st2(2) _ n] st2 st1(4) snoc by (simp add: bind_err_def)
  qed
  finally show ?thesis by (simp add: shellSplit_finish)
qed

lemma split_backquote:
  assumes "\<forall>w\<in>set ws. sh_word w" "length ws < 2 ^ 27"
    and b: "CHR 0x60 \<in> set b" "\<forall>c\<in>set b. c \<notin> set shell_meta" "word_fits b"
  shows "shellSplit (join '' '' (map quoted ws @ b # rs)) = Inl Unhandled"
proof -
  obtain p q where pq: "b = p @ CHR 0x60 # q" "CHR 0x60 \<notin> set p" using b(1) by (metis split_list_first)
  obtain r where r: "join '' '' (b # rs) = b @ r" by (cases rs) auto
  let ?st = "sh_start (join '' '' (map quoted ws @ b # rs))"
  have "sh_in ?st = concat (map (\<lambda>w. quoted w @ '' '') ws) @ b @ r"
    using join_blank [of "map quoted ws" b rs] r by (simp add: comp_def)
  from loop_words [OF sh_between_start this] assms(1,2) obtain st1 where
    st1: "shell_loop ?st = shell_loop st1" "sh_between st1" "sh_in st1 = p @ CHR 0x60 # q @ r" using pq(1) by auto
  have pl: "\<forall>c\<in>set p. sh_plain c" using b(2) pq by (auto simp: sh_plain_def)
  have inv: "shell_inv st1" "word_fits (sh_buf st1 @ p)" using st1(2) b(3) pq(1) by (simp_all add: sh_between_def word_fits_def)
  have "\<exists>st2. shell_loop st1 = shell_loop st2 \<and> sh_in st2 = CHR 0x60 # q @ r"
  proof (cases "p = []")
    case True
    then show ?thesis using st1(3) by auto
  next
    case False
    with loop_plain [OF inv(1) st1(3) pl _ False inv(2)] show ?thesis by auto
  qed
  then obtain st2 where st2: "shell_loop st1 = shell_loop st2" "sh_in st2 = CHR 0x60 # q @ r" by blast
  then have "shell_loop st2 = Inl Unhandled"
    by (subst shell_loop.simps) (simp add: shell_step_def shell_switch_def shell_unhandled_def bind_err_def)
  then show ?thesis using st1(1) st2(1) by (simp add: shellSplit_finish shell_finish_def bind_err_def)
qed

text \<open>
  C13.  The words that \<open>shellquote\<close> quotes, joined by blanks, come back from \<open>shellSplit\<close> as the
  same words, all literal.  The two exceptions are the empty word and a word whose only special
  character is a backquote; a word has to leave room for two NULs in a buffer of \<open>2 ^ 30\<close> bytes,
  and there are fewer than \<open>2 ^ 27\<close> of them.
\<close>

theorem shellSplit_shellquote:
  assumes "\<forall>w\<in>set ws. quotable w \<and> length w + 2 \<le> 2 ^ 30" and "length ws < 2 ^ 27"
  shows "\<exists>qs. those (map shellquote ws) = Some qs \<and> shellSplit (join '' '' qs) = Inr (map (\<lambda>w. (w, False)) ws)"
proof -
  have "\<forall>w\<in>set ws. sh_word w" using assms(1) by (simp add: sh_word_def word_fits_def)
  moreover have "filter (\<lambda>w. w \<noteq> []) ws = ws" using assms(1) by (auto simp: quotable_def filter_id_conv)
  ultimately show ?thesis using split_words [OF _ assms(2)] those_shellquote [of ws] assms(1) by (auto simp: word_fits_def)
qed

theorem shellSplit_shellquote_witness:
  "\<exists>qs. those (map shellquote [''bk'', ''-r1.2 x'']) = Some qs \<and> shellSplit (join '' '' qs) = Inr [(''bk'', False), (''-r1.2 x'', False)]"
proof -
  have "\<forall>w\<in>set [''bk'', ''-r1.2 x'']. quotable w \<and> length w + 2 \<le> 2 ^ 30" by (simp add: quotable_def shell_meta_def)
  from shellSplit_shellquote [OF this] show ?thesis by simp
qed

text \<open>
  C15.  What happens to the other words.  In any sequence of words, the empty ones disappear and the
  rest comes back.  A word with a backquote and no character that \<open>shellquote\<close> looks for is returned
  without quotes, and \<open>shellSplit\<close> ends the program when it meets it, whatever stands before or
  after.
\<close>

theorem shellSplit_lost_words:
  assumes "\<forall>w\<in>set ws. (w = [] \<or> quotable w) \<and> length w + 2 \<le> 2 ^ 30" and "length ws < 2 ^ 27"
    and "CHR 0x60 \<in> set b" and "\<forall>c\<in>set b. c \<notin> set shell_meta" and "length b + 2 \<le> 2 ^ 30"
  shows "\<exists>qs. those (map shellquote ws) = Some qs \<and> shellquote b = Some b \<and>
    shellSplit (join '' '' qs) = Inr (map (\<lambda>w. (w, False)) (filter (\<lambda>w. w \<noteq> []) ws)) \<and>
    shellSplit (join '' '' (qs @ b # rs)) = Inl Unhandled"
proof -
  have w: "\<forall>w\<in>set ws. sh_word w" "\<forall>w\<in>set ws. word_fits w" "word_fits b" using assms(1,5) by (simp_all add: sh_word_def word_fits_def)
  have "quoted b = b" using assms(4) by (simp add: quoted_def)
  then show ?thesis
    using those_shellquote [OF w(2)] shellquote_quoted [OF w(3)] split_words [OF w(1) assms(2)]
      split_backquote [OF w(1) assms(2-4) w(3), of rs] by simp
qed

theorem shellSplit_lost_words_witness:
  "shellSplit ''a  b'' = Inr [(''a'', False), (''b'', False)] \<and> shellSplit (''a  b '' @ [CHR 0x60] @ '' c'') = Inl Unhandled"
proof -
  have w: "\<forall>w\<in>set [''a'', [], ''b'']. (w = [] \<or> quotable w) \<and> length w + 2 \<le> 2 ^ 30" by (simp add: quotable_def)
  have b: "CHR 0x60 \<in> set [CHR 0x60]" "\<forall>c\<in>set [CHR 0x60]. c \<notin> set shell_meta" by (simp_all add: shell_meta_def)
  have q: "those (map shellquote [''a'', [], ''b'']) = Some [''a'', [], ''b'']"
    using those_shellquote [of "[''a'', [], ''b'']"] by (simp add: word_fits_def quoted_def shell_meta_def)
  from shellSplit_lost_words [OF w _ b, of "[''c'']"] q show ?thesis by simp
qed

text \<open>The buffer of \<open>shellquote\<close> has exactly the size of the result.\<close>

lemma shellquote_fits:
  "shellquote s = Some q \<Longrightarrow> strcspn s shell_meta \<noteq> length s \<Longrightarrow> length q + 1 = shellquote_size s"
  by (auto simp: shellquote_def shellquote_size_def dq_escape_length to_int_eq_Some split: Option.bind_splits if_splits)

end
