(* ===== verification/BK_PQ.thy ===== *)
theory BK_PQ
  imports BK_Lines
begin

text \<open>
  The priority queues of \<open>libc/utils/pq.c\<close>: binary heaps in the growing arrays, one for 32-bit
  numbers and one for pointers with a comparison function.  The two copies of the code differ
  only in how they compare, so \<open>swim\<close> and \<open>sink\<close> take the comparison \<open>pq[i] < pq[j]\<close> as an
  argument.  The queues are shown to implement multisets from which a largest element is
  taken.
\<close>

section \<open>The code\<close>

definition swap :: "'a larr \<Rightarrow> nat \<Rightarrow> nat \<Rightarrow> 'a larr option" where
  "swap pq i j = do { tmp \<leftarrow> peek pq i; y \<leftarrow> peek pq j; pq \<leftarrow> poke pq i (Some y); poke pq j (Some tmp) }"

function swim :: "('a \<Rightarrow> 'a \<Rightarrow> bool) \<Rightarrow> nat \<Rightarrow> 'a larr \<Rightarrow> 'a larr option" where
  "swim lt k pq =
     (if k > 1 then
        do { a \<leftarrow> peek pq (k div 2);
             b \<leftarrow> peek pq k;
             if lt a b then do { pq \<leftarrow> swap pq (k div 2) k; swim lt (k div 2) pq } else Some pq }
      else Some pq)"
  by auto
termination by (relation "measure (\<lambda>(lt, k, pq). k)") auto

declare swim.simps [simp del]

text \<open>The larger of the two children of \<open>k\<close>.\<close>

definition sink_child :: "('a \<Rightarrow> 'a \<Rightarrow> bool) \<Rightarrow> nat \<Rightarrow> nat \<Rightarrow> 'a larr \<Rightarrow> nat option" where
  "sink_child lt k N pq =
     (if 2 * k < N then do { a \<leftarrow> peek pq (2 * k); b \<leftarrow> peek pq (2 * k + 1); Some (if lt a b then 2 * k + 1 else 2 * k) }
      else Some (2 * k))"

lemma sink_child_cases: "sink_child lt k N pq = Some j \<Longrightarrow> j = 2 * k \<or> j = 2 * k + 1 \<and> 2 * k < N"
  by (auto simp: sink_child_def bind_eq_Some_conv split: if_splits)

text \<open>The loop of \<open>sink\<close>; it is only called with \<open>k\<close> at least 1.\<close>

function sink :: "('a \<Rightarrow> 'a \<Rightarrow> bool) \<Rightarrow> nat \<Rightarrow> nat \<Rightarrow> 'a larr \<Rightarrow> 'a larr option" where
  "sink lt k N pq =
     (if 0 < k \<and> 2 * k \<le> N then
        do { j \<leftarrow> sink_child lt k N pq;
             a \<leftarrow> peek pq k;
             b \<leftarrow> peek pq j;
             if lt a b then do { pq \<leftarrow> swap pq k j; sink lt j N pq } else Some pq }
      else Some pq)"
  by auto
termination by (relation "measure (\<lambda>(lt, k, N, pq). Suc N - k)") (auto dest!: sink_child_cases)

declare sink.simps [simp del]

definition pq32_insert :: "u32 lines \<Rightarrow> u32 \<Rightarrow> u32 lines option" where
  "pq32_insert pq item =
     do { s \<leftarrow> addArray 0 pq (Some item) 4; s \<leftarrow> swim (<) (LLEN s) s; Some (Some s) }"

definition pq32_delMax :: "u32 lines \<Rightarrow> (u32 \<times> u32 lines) option" where
  "pq32_delMax pq =
     (let N = nLines pq
      in if \<not> N > 0 then None
         else
           do { s \<leftarrow> pq;
                ret \<leftarrow> peek s 1;
                l \<leftarrow> peek s N;
                s \<leftarrow> poke s 1 (Some l);
                pq \<leftarrow> truncArray (Some s) (N - 1);
                s \<leftarrow> pq;
                s \<leftarrow> sink (<) 1 (N - 1) s;
                Some (ret, Some s) })"

text \<open>The queue of pointers.\<close>

record 'a PQ =
  pq_cmp :: "'a \<Rightarrow> 'a \<Rightarrow> int"
  pq_d :: "'a lines"

definition pq_new :: "('a \<Rightarrow> 'a \<Rightarrow> int) \<Rightarrow> 'a PQ" where
  "pq_new cmp = \<lparr>pq_cmp = cmp, pq_d = None\<rparr>"

definition pq_insert :: "'a PQ \<Rightarrow> 'a \<Rightarrow> 'a PQ option" where
  "pq_insert pq item =
     do { d \<leftarrow> addLine (pq_d pq) (Some item);
          d \<leftarrow> swim (\<lambda>a b. pq_cmp pq a b < 0) (LLEN d) d;
          Some (pq\<lparr>pq_d := Some d\<rparr>) }"

definition pq_pop :: "'a PQ \<Rightarrow> ('a \<times> 'a PQ) option" where
  "pq_pop pq =
     (let N = nLines (pq_d pq)
      in if \<not> N > 0 then None
         else
           do { d \<leftarrow> pq_d pq;
                ret \<leftarrow> peek d 1;
                (l, d') \<leftarrow> popLine (Some d);
                d \<leftarrow> d';
                d \<leftarrow> poke d 1 l;
                d \<leftarrow> sink (\<lambda>a b. pq_cmp pq a b < 0) 1 (N - 1) d;
                Some (ret, pq\<lparr>pq_d := Some d\<rparr>) })"

definition pq_peek :: "'a PQ \<Rightarrow> 'a option option" where
  "pq_peek pq =
     (case pq_d pq of
        None \<Rightarrow> Some None
      | Some d \<Rightarrow> if LLEN d \<noteq> 0 then map_option Some (peek d 1) else Some None)"

section \<open>Heaps as lists\<close>

text \<open>The same loops on the list of the elements; positions count from 1 as in the code.\<close>

definition at :: "'a list \<Rightarrow> nat \<Rightarrow> 'a" where
  "at xs k = xs ! (k - 1)"

definition swap_list :: "'a list \<Rightarrow> nat \<Rightarrow> nat \<Rightarrow> 'a list" where
  "swap_list xs i j = xs[i - 1 := at xs j, j - 1 := at xs i]"

function swim_list :: "('a \<Rightarrow> 'a \<Rightarrow> bool) \<Rightarrow> nat \<Rightarrow> 'a list \<Rightarrow> 'a list" where
  "swim_list lt k xs =
     (if k > 1 \<and> lt (at xs (k div 2)) (at xs k) then swim_list lt (k div 2) (swap_list xs (k div 2) k) else xs)"
  by auto
termination by (relation "measure (\<lambda>(lt, k, xs). k)") auto

definition child_list :: "('a \<Rightarrow> 'a \<Rightarrow> bool) \<Rightarrow> nat \<Rightarrow> nat \<Rightarrow> 'a list \<Rightarrow> nat" where
  "child_list lt k N xs = (if 2 * k < N \<and> lt (at xs (2 * k)) (at xs (2 * k + 1)) then 2 * k + 1 else 2 * k)"

function sink_list :: "('a \<Rightarrow> 'a \<Rightarrow> bool) \<Rightarrow> nat \<Rightarrow> nat \<Rightarrow> 'a list \<Rightarrow> 'a list" where
  "sink_list lt k N xs =
     (if 0 < k \<and> 2 * k \<le> N \<and> lt (at xs k) (at xs (child_list lt k N xs))
      then sink_list lt (child_list lt k N xs) N (swap_list xs k (child_list lt k N xs)) else xs)"
  by auto
termination by (relation "measure (\<lambda>(lt, k, N, xs). Suc N - k)") (auto simp: child_list_def)

declare swim_list.simps [simp del] sink_list.simps [simp del]

lemma length_swap_list [simp]: "length (swap_list xs i j) = length xs"
  by (simp add: swap_list_def)

lemma at_swap_list:
  "1 \<le> i \<Longrightarrow> i \<le> length xs \<Longrightarrow> 1 \<le> j \<Longrightarrow> j \<le> length xs \<Longrightarrow> 1 \<le> k \<Longrightarrow>
    at (swap_list xs i j) k = (if k = j then at xs i else if k = i then at xs j else at xs k)"
  by (auto simp: at_def swap_list_def nth_list_update)

lemma mset_swap_list: "1 \<le> i \<Longrightarrow> i \<le> length xs \<Longrightarrow> 1 \<le> j \<Longrightarrow> j \<le> length xs \<Longrightarrow> mset (swap_list xs i j) = mset xs"
  by (simp add: swap_list_def at_def mset_swap)

lemma length_swim_list [simp]: "length (swim_list lt k xs) = length xs"
  by (induction lt k xs rule: swim_list.induct) (subst swim_list.simps, auto)

lemma length_sink_list [simp]: "length (sink_list lt k N xs) = length xs"
  by (induction lt k N xs rule: sink_list.induct) (subst sink_list.simps, auto)

lemma mset_swim_list: "1 \<le> k \<Longrightarrow> k \<le> length xs \<Longrightarrow> mset (swim_list lt k xs) = mset xs"
proof (induction lt k xs rule: swim_list.induct)
  case (1 lt k xs)
  have "k > 1 \<Longrightarrow> 1 \<le> k div 2 \<and> k div 2 \<le> length xs" using 1(3) by linarith
  then show ?case using 1 by (subst swim_list.simps) (simp add: mset_swap_list)
qed

lemma child_list_range: "0 < k \<Longrightarrow> 2 * k \<le> N \<Longrightarrow> k < child_list lt k N xs \<and> child_list lt k N xs \<le> N \<and> child_list lt k N xs div 2 = k"
  by (auto simp: child_list_def)

lemma mset_sink_list: "N \<le> length xs \<Longrightarrow> mset (sink_list lt k N xs) = mset xs"
proof (induction lt k N xs rule: sink_list.induct)
  case (1 lt k N xs)
  then show ?case using child_list_range [of k N lt xs] by (subst sink_list.simps) (auto simp: mset_swap_list)
qed

section \<open>The heap order\<close>

definition weak_order :: "('a \<Rightarrow> 'a \<Rightarrow> bool) \<Rightarrow> bool" where
  "weak_order lt \<longleftrightarrow> (\<forall>a b. lt a b \<longrightarrow> \<not> lt b a) \<and> (\<forall>a b c. \<not> lt a b \<longrightarrow> \<not> lt b c \<longrightarrow> \<not> lt a c)"

lemma weak_order_asym: "weak_order lt \<Longrightarrow> lt a b \<Longrightarrow> \<not> lt b a"
  unfolding weak_order_def by blast

lemma weak_order_irrefl: "weak_order lt \<Longrightarrow> \<not> lt a a"
  unfolding weak_order_def by blast

lemma weak_order_trans: "weak_order lt \<Longrightarrow> \<not> lt a b \<Longrightarrow> \<not> lt b c \<Longrightarrow> \<not> lt a c"
  unfolding weak_order_def by blast

text \<open>No element is above its parent; the first \<open>N\<close> elements of the list form the heap.\<close>

definition is_heap :: "('a \<Rightarrow> 'a \<Rightarrow> bool) \<Rightarrow> nat \<Rightarrow> 'a list \<Rightarrow> bool" where
  "is_heap lt N xs \<longleftrightarrow> (\<forall>i. 2 \<le> i \<and> i \<le> N \<longrightarrow> \<not> lt (at xs (i div 2)) (at xs i))"

definition swim_inv :: "('a \<Rightarrow> 'a \<Rightarrow> bool) \<Rightarrow> nat \<Rightarrow> 'a list \<Rightarrow> bool" where
  "swim_inv lt k xs \<longleftrightarrow>
     (\<forall>i. 2 \<le> i \<and> i \<le> length xs \<and> i \<noteq> k \<longrightarrow> \<not> lt (at xs (i div 2)) (at xs i)) \<and>
     (\<forall>c. c \<le> length xs \<and> c div 2 = k \<and> 2 \<le> k \<longrightarrow> \<not> lt (at xs (k div 2)) (at xs c))"

lemma swim_list_heap:
  assumes "weak_order lt"
  shows "swim_inv lt k xs \<Longrightarrow> 1 \<le> k \<Longrightarrow> k \<le> length xs \<Longrightarrow> is_heap lt (length xs) (swim_list lt k xs)"
proof (induction k arbitrary: xs rule: less_induct)
  case (less k)
  show ?case
  proof (cases "k > 1 \<and> lt (at xs (k div 2)) (at xs k)")
    case False
    then have "\<not> lt (at xs (k div 2)) (at xs k)" if "2 \<le> k" using that by auto
    then have "is_heap lt (length xs) xs" using less.prems(1) unfolding is_heap_def swim_inv_def by metis
    then show ?thesis using False by (subst swim_list.simps) auto
  next
    case True
    let ?p = "k div 2" and ?ys = "swap_list xs (k div 2) k"
    have p: "1 \<le> ?p" "?p < k" "?p \<le> length xs" using True less.prems(3) by auto
    note sw = at_swap_list [OF p(1,3) less.prems(2,3)]
    have ord: "\<not> lt (at xs i) (at xs i')" if "i = k" "i' = ?p" for i i' using True weak_order_asym [OF assms] that by blast
    have old: "\<not> lt (at xs (i div 2)) (at xs i)" if "2 \<le> i" "i \<le> length xs" "i \<noteq> k" for i
      using less.prems(1) that unfolding swim_inv_def by blast
    have kid: "\<not> lt (at xs ?p) (at xs c)" if "c \<le> length xs" "c div 2 = k" for c
      using less.prems(1) that True unfolding swim_inv_def by auto
    have "swim_inv lt ?p ?ys"
      unfolding swim_inv_def
    proof (intro conjI allI impI)
      fix i assume i: "2 \<le> i \<and> i \<le> length ?ys \<and> i \<noteq> ?p"
      then have "1 \<le> i div 2" by auto
      then have e: "at ?ys (i div 2) = (if i div 2 = k then at xs ?p else if i div 2 = ?p then at xs k else at xs (i div 2))"
        "at ?ys i = (if i = k then at xs ?p else at xs i)"
        using i sw [of "i div 2"] sw [of i] by auto
      consider "i = k" | "i div 2 = k" | "i \<noteq> k" "i div 2 = ?p" | "i \<noteq> k" "i div 2 \<noteq> ?p" "i div 2 \<noteq> k" by blast
      then show "\<not> lt (at ?ys (i div 2)) (at ?ys i)"
      proof cases
        case 1
        with e p ord show ?thesis by auto
      next
        case 2
        with e kid [of i] i p show ?thesis by auto
      next
        case 3
        have "\<not> lt (at xs ?p) (at xs i)" using old [of i] 3 i by auto
        with ord weak_order_trans [OF assms, of "at xs k" "at xs ?p" "at xs i"] e 3 p show ?thesis by auto
      next
        case 4
        with e old [of i] i show ?thesis by auto
      qed
    next
      fix c assume c: "c \<le> length ?ys \<and> c div 2 = ?p \<and> 2 \<le> ?p"
      have e: "at ?ys (?p div 2) = at xs (?p div 2)" using sw [of "?p div 2"] c p by auto
      have up: "\<not> lt (at xs (?p div 2)) (at xs ?p)" using old [of ?p] c p by auto
      have c2: "2 \<le> c" "c \<noteq> ?p" using c p by auto
      have e2: "at ?ys c = (if c = k then at xs ?p else at xs c)" using sw [of c] c c2 by auto
      show "\<not> lt (at ?ys (?p div 2)) (at ?ys c)"
      proof (cases "c = k")
        case True
        then show ?thesis using e e2 up by simp
      next
        case False
        have "\<not> lt (at xs ?p) (at xs c)" using old [of c] c c2 False by auto
        from weak_order_trans [OF assms up this] show ?thesis using e e2 False by simp
      qed
    qed
    from less.IH [OF p(2) this] p show ?thesis using True by (subst swim_list.simps) simp
  qed
qed

definition sink_inv :: "('a \<Rightarrow> 'a \<Rightarrow> bool) \<Rightarrow> nat \<Rightarrow> nat \<Rightarrow> 'a list \<Rightarrow> bool" where
  "sink_inv lt k N xs \<longleftrightarrow>
     (\<forall>i. 2 \<le> i \<and> i \<le> N \<and> i div 2 \<noteq> k \<longrightarrow> \<not> lt (at xs (i div 2)) (at xs i)) \<and>
     (\<forall>c. c \<le> N \<and> c div 2 = k \<and> 2 \<le> k \<longrightarrow> \<not> lt (at xs (k div 2)) (at xs c))"

lemma child_list_max:
  assumes "weak_order lt" "0 < k" "2 * k \<le> N" "c \<le> N" "c div 2 = k"
  shows "\<not> lt (at xs (child_list lt k N xs)) (at xs c)"
proof -
  have "c = 2 * k \<or> c = 2 * k + 1" using assms(5) by auto
  then show ?thesis using assms weak_order_asym [OF assms(1)] by (auto simp: child_list_def weak_order_irrefl)
qed

lemma sink_list_heap:
  assumes "weak_order lt"
  shows "sink_inv lt k N xs \<Longrightarrow> 1 \<le> k \<Longrightarrow> N \<le> length xs \<Longrightarrow> is_heap lt N (sink_list lt k N xs)"
proof (induction "Suc N - k" arbitrary: k xs rule: less_induct)
  case less
  let ?j = "child_list lt k N xs"
  show ?case
  proof (cases "2 * k \<le> N \<and> lt (at xs k) (at xs ?j)")
    case False
    have "\<not> lt (at xs k) (at xs c)" if c: "2 \<le> c" "c \<le> N" "c div 2 = k" for c
    proof -
      have "2 * k \<le> N" using c by auto
      with False have "\<not> lt (at xs k) (at xs ?j)" by simp
      from weak_order_trans [OF assms this] child_list_max [OF assms _ \<open>2 * k \<le> N\<close> c(2,3)] less.prems(2) show ?thesis by simp
    qed
    then have "is_heap lt N xs" using less.prems(1) unfolding is_heap_def sink_inv_def by metis
    then show ?thesis using False by (subst sink_list.simps) auto
  next
    case True
    have j: "k < ?j" "?j \<le> N" "?j div 2 = k" using child_list_range [of k N lt xs] less.prems(2) True by auto
    let ?ys = "swap_list xs k ?j"
    have kl: "k \<le> length xs" "?j \<le> length xs" "1 \<le> ?j" using j less.prems by auto
    note sw = at_swap_list [OF less.prems(2) kl(1,3,2)]
    have old: "\<not> lt (at xs (i div 2)) (at xs i)" if "2 \<le> i" "i \<le> N" "i div 2 \<noteq> k" for i
      using less.prems(1) that unfolding sink_inv_def by blast
    have kid: "\<not> lt (at xs (k div 2)) (at xs c)" if "c \<le> N" "c div 2 = k" "2 \<le> k" for c
      using less.prems(1) that unfolding sink_inv_def by blast
    have "sink_inv lt ?j N ?ys"
      unfolding sink_inv_def
    proof (intro conjI allI impI)
      fix i assume i: "2 \<le> i \<and> i \<le> N \<and> i div 2 \<noteq> ?j"
      then have "1 \<le> i div 2" by auto
      then have e: "at ?ys (i div 2) = (if i div 2 = k then at xs ?j else at xs (i div 2))"
        "at ?ys i = (if i = ?j then at xs k else if i = k then at xs ?j else at xs i)"
        using i sw [of "i div 2"] sw [of i] by auto
      consider "i = ?j" | "i \<noteq> ?j" "i div 2 = k" | "i = k" | "i \<noteq> ?j" "i div 2 \<noteq> k" "i \<noteq> k" by blast
      then show "\<not> lt (at ?ys (i div 2)) (at ?ys i)"
      proof cases
        case 1
        then show ?thesis using e j True weak_order_asym [OF assms] by auto
      next
        case 2
        then have "i \<noteq> k" using i by auto
        with 2 show ?thesis using e child_list_max [OF assms, of k N i xs] i True less.prems(2) by auto
      next
        case 3
        then have "2 \<le> k" "i div 2 \<noteq> k" using i by auto
        with 3 show ?thesis using e kid [OF j(2,3)] j by auto
      next
        case 4
        then show ?thesis using e old [of i] i by auto
      qed
    next
      fix c assume c: "c \<le> N \<and> c div 2 = ?j \<and> 2 \<le> ?j"
      have c2: "c \<noteq> ?j" "c \<noteq> k" "2 \<le> c" using c j by auto
      have "at ?ys (?j div 2) = at xs ?j" using sw [of k] less.prems(2) j by auto
      moreover have "at ?ys c = at xs c" using sw [of c] c2 by auto
      moreover have "\<not> lt (at xs ?j) (at xs c)" using old [of c] c c2 j by auto
      ultimately show "\<not> lt (at ?ys (?j div 2)) (at ?ys c)" by simp
    qed
    from less.hyps [OF _ this] j less.prems(3) kl show ?thesis using True less.prems(2) by (subst sink_list.simps) auto
  qed
qed

text \<open>The first element of a heap is a largest one.\<close>

lemma heap_max:
  assumes "weak_order lt" "is_heap lt N xs"
  shows "1 \<le> i \<Longrightarrow> i \<le> N \<Longrightarrow> \<not> lt (at xs 1) (at xs i)"
proof (induction i rule: less_induct)
  case (less i)
  show ?case
  proof (cases "i = 1")
    case True
    then show ?thesis using assms(1) by (simp add: weak_order_irrefl)
  next
    case False
    then have i: "2 \<le> i" "i div 2 < i" "1 \<le> i div 2" "i div 2 \<le> N" using less.prems by auto
    from less.IH [OF i(2-4)] have "\<not> lt (at xs 1) (at xs (i div 2))" .
    moreover have "\<not> lt (at xs (i div 2)) (at xs i)" using assms(2) i less.prems unfolding is_heap_def by blast
    ultimately show ?thesis using weak_order_trans [OF assms(1)] by blast
  qed
qed

section \<open>The code on arrays\<close>

lemma swap_holds:
  assumes "holds es s xs" "1 \<le> i" "i \<le> length xs" "1 \<le> j" "j \<le> length xs"
  shows "\<exists>s'. swap s i j = Some s' \<and> holds es s' (swap_list xs i j)"
proof -
  from holds_poke [OF assms(1-3), of "at xs j"] obtain s1 where s1: "poke s i (Some (at xs j)) = Some s1" "holds es s1 (xs[i - 1 := at xs j])" by blast
  from holds_poke [OF s1(2), of j "at xs i"] assms(4,5) obtain s2 where
    "poke s1 j (Some (at xs i)) = Some s2" "holds es s2 (swap_list xs i j)" by (auto simp: swap_list_def)
  with s1 holds_peek [OF assms(1-3)] holds_peek [OF assms(1,4,5)] show ?thesis by (auto simp: swap_def at_def)
qed

lemma swim_holds:
  "holds es s xs \<Longrightarrow> 1 \<le> k \<Longrightarrow> k \<le> length xs \<Longrightarrow> \<exists>s'. swim lt k s = Some s' \<and> holds es s' (swim_list lt k xs)"
proof (induction k arbitrary: s xs rule: less_induct)
  case (less k)
  show ?case
  proof (cases "k > 1")
    case False
    then show ?thesis using less.prems by (subst swim.simps, subst swim_list.simps) auto
  next
    case True
    have p: "1 \<le> k div 2" "k div 2 \<le> length xs" "k div 2 < k" using True less.prems(3) by auto
    have pk: "peek s (k div 2) = Some (at xs (k div 2))" "peek s k = Some (at xs k)"
      using holds_peek [OF less.prems(1)] p less.prems by (auto simp: at_def)
    from swap_holds [OF less.prems(1) p(1,2) less.prems(2,3)] obtain s' where
      "swap s (k div 2) k = Some s'" "holds es s' (swap_list xs (k div 2) k)" by blast
    with less.IH [OF p(3), of s' "swap_list xs (k div 2) k"] True pk p less.prems(1) show ?thesis
      by (subst swim.simps, subst swim_list.simps) auto
  qed
qed

lemma sink_holds:
  "holds es s xs \<Longrightarrow> 1 \<le> k \<Longrightarrow> N \<le> length xs \<Longrightarrow> \<exists>s'. sink lt k N s = Some s' \<and> holds es s' (sink_list lt k N xs)"
proof (induction "Suc N - k" arbitrary: k s xs rule: less_induct)
  case less
  let ?j = "child_list lt k N xs"
  show ?case
  proof (cases "2 * k \<le> N")
    case False
    then show ?thesis using less.prems by (subst sink.simps, subst sink_list.simps) auto
  next
    case True
    have j: "k < ?j" "?j \<le> N" "1 \<le> ?j" "?j \<le> length xs" "k \<le> length xs"
      using child_list_range [of k N lt xs] less.prems True by auto
    have pk: "peek s i = Some (at xs i)" if "1 \<le> i" "i \<le> N" for i
      using holds_peek [OF less.prems(1), of i] that less.prems(3) by (auto simp: at_def)
    have c: "sink_child lt k N s = Some ?j"
      using pk [of "2 * k"] pk [of "2 * k + 1"] True less.prems(2) by (auto simp: sink_child_def child_list_def)
    from swap_holds [OF less.prems(1,2) j(5,3,4)] obtain s' where
      s': "swap s k ?j = Some s'" "holds es s' (swap_list xs k ?j)" by blast
    show ?thesis
    proof (cases "lt (at xs k) (at xs ?j)")
      case lt: True
      have "Suc N - ?j < Suc N - k" "N \<le> length (swap_list xs k ?j)" using j less.prems(3) by auto
      from less.hyps [OF this(1) s'(2) j(3) this(2)] obtain s'' where
        "sink lt ?j N s' = Some s''" "holds es s'' (sink_list lt ?j N (swap_list xs k ?j))" by blast
      then show ?thesis using lt True c pk [of k] pk [of ?j] j less.prems(2) s'(1)
        by (subst sink.simps, subst sink_list.simps) auto
    next
      case False
      then show ?thesis using True c pk [of k] pk [of ?j] j less.prems
        by (subst sink.simps, subst sink_list.simps) auto
    qed
  qed
qed

text \<open>A queue represents the multiset of its elements when they are in heap order.\<close>

definition pq_rep :: "('a \<Rightarrow> 'a \<Rightarrow> bool) \<Rightarrow> nat \<Rightarrow> 'a lines \<Rightarrow> 'a multiset \<Rightarrow> bool" where
  "pq_rep lt es sp M \<longleftrightarrow> (\<exists>xs. lines_hold es sp xs \<and> is_heap lt (length xs) xs \<and> mset xs = M)"

lemma at_append: "1 \<le> i \<Longrightarrow> i \<le> length xs \<Longrightarrow> at (xs @ ys) i = at xs i"
  by (auto simp: at_def nth_append)

lemma heap_insert:
  assumes "weak_order lt" "is_heap lt (length xs) xs"
  shows "is_heap lt (Suc (length xs)) (swim_list lt (Suc (length xs)) (xs @ [x]))"
proof -
  have "swim_inv lt (Suc (length xs)) (xs @ [x])"
    using assms(2) by (auto simp: swim_inv_def is_heap_def at_append)
  from swim_list_heap [OF assms(1) this] show ?thesis by simp
qed

lemma heap_remove:
  assumes "weak_order lt" "is_heap lt (length xs) xs" "xs \<noteq> []"
  defines "ys \<equiv> take (length xs - 1) (xs[0 := last xs])"
  shows "is_heap lt (length xs - 1) (sink_list lt 1 (length xs - 1) ys)" "mset ys = mset xs - {#at xs 1#}"
proof -
  obtain a zs where xs: "xs = a # zs" using assms(3) by (cases xs) auto
  have "at ys i = at xs i" if "2 \<le> i" "i \<le> length xs - 1" for i
    using that by (auto simp: ys_def at_def xs nth_Cons')
  then have "sink_inv lt 1 (length xs - 1) ys"
    using assms(2) by (auto simp: sink_inv_def is_heap_def)
  then show "is_heap lt (length xs - 1) (sink_list lt 1 (length xs - 1) ys)"
    by (rule sink_list_heap [OF assms(1)]) (auto simp: ys_def)
  show "mset ys = mset xs - {#at xs 1#}"
  proof (cases "zs = []")
    case True
    then show ?thesis by (simp add: ys_def xs at_def)
  next
    case False
    then have "ys = last zs # butlast zs" by (simp add: ys_def xs butlast_conv_take take_Cons')
    then have "mset ys = mset (butlast zs @ [last zs])" by simp
    then show ?thesis using False by (simp add: xs at_def del: mset_append)
  qed
qed

lemma swim_rep:
  assumes "weak_order lt" "is_heap lt (length xs) xs" "holds es s (xs @ [x])"
  shows "\<exists>s'. swim lt (LLEN s) s = Some s' \<and> pq_rep lt es (Some s') (add_mset x (mset xs))"
proof -
  from swim_holds [OF assms(3), of "Suc (length xs)" lt] obtain s' where
    s': "swim lt (Suc (length xs)) s = Some s'" "holds es s' (swim_list lt (Suc (length xs)) (xs @ [x]))" by auto
  have "pq_rep lt es (Some s') (add_mset x (mset xs))"
    unfolding pq_rep_def using s'(2) heap_insert [OF assms(1,2), of x] mset_swim_list [of "Suc (length xs)" "xs @ [x]" lt]
    by (intro exI [of _ "swim_list lt (Suc (length xs)) (xs @ [x])"]) (simp add: lines_hold_def)
  then show ?thesis using s'(1) holds_len(1) [OF assms(3)] by auto
qed

lemma sink_rep:
  assumes "weak_order lt" "is_heap lt (length xs) xs" "xs \<noteq> []" "holds es s (take (length xs - 1) (xs[0 := last xs]))"
  shows "\<exists>s'. sink lt 1 (length xs - 1) s = Some s' \<and> pq_rep lt es (Some s') (mset xs - {#at xs 1#})"
proof -
  let ?ys = "take (length xs - 1) (xs[0 := last xs])"
  from sink_holds [OF assms(4), of 1 "length xs - 1" lt] obtain s' where
    s': "sink lt 1 (length xs - 1) s = Some s'" "holds es s' (sink_list lt 1 (length xs - 1) ?ys)" by auto
  have "pq_rep lt es (Some s') (mset xs - {#at xs 1#})"
    unfolding pq_rep_def using s'(2) heap_remove [OF assms(1-3)] mset_sink_list [of "length xs - 1" ?ys lt 1]
    by (intro exI [of _ "sink_list lt 1 (length xs - 1) ?ys"]) (simp add: lines_hold_def)
  then show ?thesis using s'(1) by blast
qed

lemma heap_first:
  assumes "weak_order lt" "is_heap lt (length xs) xs" "xs \<noteq> []"
  shows "at xs 1 \<in># mset xs \<and> (\<forall>y\<in>#mset xs. \<not> lt (at xs 1) y)"
proof -
  have "\<not> lt (at xs 1) y" if "y \<in># mset xs" for y
  proof -
    have "y \<in> set xs" using that by simp
    then obtain i where "i < length xs" "y = xs ! i" unfolding in_set_conv_nth by blast
    then show ?thesis using heap_max [OF assms(1,2), of "Suc i"] by (simp add: at_def)
  qed
  then show ?thesis using assms(3) by (cases xs) (auto simp: at_def)
qed

section \<open>The interface\<close>

text \<open>Filling a queue, and taking elements out until a given number is reached.\<close>

fun pq_fill :: "('s \<Rightarrow> 'a \<Rightarrow> 's option) \<Rightarrow> 'a list \<Rightarrow> 's \<Rightarrow> 's option" where
  "pq_fill ins [] q = Some q"
| "pq_fill ins (x # xs) q = do { q \<leftarrow> ins q x; pq_fill ins xs q }"

fun pq_drain :: "('s \<Rightarrow> ('a \<times> 's) option) \<Rightarrow> nat \<Rightarrow> 's \<Rightarrow> ('a list \<times> 's) option" where
  "pq_drain del 0 q = Some ([], q)"
| "pq_drain del (Suc n) q = do { (x, q) \<leftarrow> del q; (xs, q) \<leftarrow> pq_drain del n q; Some (x # xs, q) }"

locale priority_queue =
  fixes rep :: "'s \<Rightarrow> 'a multiset \<Rightarrow> bool"
    and lt :: "'a \<Rightarrow> 'a \<Rightarrow> bool"
    and cap :: nat
    and ins :: "'s \<Rightarrow> 'a \<Rightarrow> 's option"
    and del :: "'s \<Rightarrow> ('a \<times> 's) option"
  assumes order: "weak_order lt"
    and insert_rep: "rep q M \<Longrightarrow> size M < cap \<Longrightarrow> \<exists>q'. ins q x = Some q' \<and> rep q' (add_mset x M)"
    and del_rep: "rep q M \<Longrightarrow> M \<noteq> {#} \<Longrightarrow>
      \<exists>x q'. del q = Some (x, q') \<and> x \<in># M \<and> (\<forall>y\<in>#M. \<not> lt x y) \<and> rep q' (M - {#x#})"
    and del_empty: "rep q {#} \<Longrightarrow> del q = None"
begin

lemma fill_rep: "rep q M \<Longrightarrow> size M + length xs \<le> cap \<Longrightarrow> \<exists>q'. pq_fill ins xs q = Some q' \<and> rep q' (M + mset xs)"
proof (induction xs arbitrary: q M)
  case (Cons x xs)
  from insert_rep [OF Cons.prems(1), of x] Cons.prems(2) obtain q1 where q1: "ins q x = Some q1" "rep q1 (add_mset x M)" by auto
  from Cons.IH [OF q1(2)] Cons.prems(2) q1(1) show ?case by auto
qed simp

lemma drain_sorted:
  "rep q M \<Longrightarrow> n = size M \<Longrightarrow>
    \<exists>xs q'. pq_drain del n q = Some (xs, q') \<and> mset xs = M \<and> sorted_wrt (\<lambda>a b. \<not> lt a b) xs \<and> rep q' {#}"
proof (induction n arbitrary: q M)
  case (Suc n)
  then have "M \<noteq> {#}" by auto
  from del_rep [OF Suc.prems(1) this] obtain x q1 where
    x: "del q = Some (x, q1)" "x \<in># M" "\<forall>y\<in>#M. \<not> lt x y" "rep q1 (M - {#x#})" by blast
  have "n = size (M - {#x#})" using Suc.prems(2) x(2) by (simp add: size_Diff_singleton)
  from Suc.IH [OF x(4) this] obtain xs q' where
    xs: "pq_drain del n q1 = Some (xs, q')" "mset xs = M - {#x#}" "sorted_wrt (\<lambda>a b. \<not> lt a b) xs" "rep q' {#}" by blast
  have "\<not> lt x y" if "y \<in> set xs" for y
  proof -
    have "y \<in># M - {#x#}" using that xs(2) by (simp flip: set_mset_mset)
    then have "y \<in># M" by (rule in_diffD)
    then show ?thesis using x(3) by blast
  qed
  with x xs show ?case by (intro exI [of _ "x # xs"] exI [of _ q']) auto
qed simp

end

lemma weak_order_u32: "weak_order ((<) :: u32 \<Rightarrow> u32 \<Rightarrow> bool)"
  by (auto simp: weak_order_def)

lemma fits_4: "fits 4 n \<longleftrightarrow> n < 2 ^ 27"
  by (auto simp: fits_def)

interpretation pq32: priority_queue "pq_rep (<) 4" "(<)" "2 ^ 27 - 1" pq32_insert pq32_delMax
proof
  show "weak_order ((<) :: u32 \<Rightarrow> u32 \<Rightarrow> bool)" by (rule weak_order_u32)
next
  fix q :: "u32 lines" and M x
  assume "pq_rep (<) 4 q M" and M: "size M < 2 ^ 27 - 1"
  then obtain xs where xs: "lines_hold 4 q xs" "is_heap (<) (length xs) xs" "mset xs = M" by (auto simp: pq_rep_def)
  have "fits 4 (length xs + 1)" unfolding fits_4 using M xs(3) by auto
  from addArray_ok [OF xs(1) this, of 0 "Some x"] obtain s where s: "addArray 0 q (Some x) 4 = Some s" "holds 4 s (xs @ [x])" by auto
  with swim_rep [OF weak_order_u32 xs(2) s(2)] xs(3) show "\<exists>q'. pq32_insert q x = Some q' \<and> pq_rep (<) 4 q' (add_mset x M)"
    by (auto simp: pq32_insert_def)
next
  fix q :: "u32 lines" and M
  assume "pq_rep (<) 4 q M" and M: "M \<noteq> {#}"
  then obtain xs where xs: "lines_hold 4 q xs" "is_heap (<) (length xs) xs" "mset xs = M" by (auto simp: pq_rep_def)
  then have ne: "xs \<noteq> []" using M by auto
  then obtain s where s: "q = Some s" "holds 4 s xs" using xs(1) by (cases q) (auto simp: lines_hold_def)
  have l: "1 \<le> length xs" using ne by (cases xs) auto
  from holds_poke [OF s(2), of 1 "last xs"] l obtain s1 where
    s1: "poke s 1 (Some (last xs)) = Some s1" "holds 4 s1 (xs[0 := last xs])" by auto
  let ?ys = "take (length xs - 1) (xs[0 := last xs])"
  have "lines_hold 4 (Some s1) (xs[0 := last xs])" using s1(2) by (simp add: lines_hold_def)
  from truncArray_ok [OF this, of "length xs - 1"] obtain sp where
    "truncArray (Some s1) (length xs - 1) = Some sp" "lines_hold 4 sp ?ys" by auto
  then obtain s2 where s2: "truncArray (Some s1) (length xs - 1) = Some (Some s2)" "holds 4 s2 ?ys"
    by (auto simp: truncArray_def lines_hold_def split: if_splits)
  from sink_rep [OF weak_order_u32 xs(2) ne s2(2)] xs(3) obtain s3 where
    s3: "sink (<) 1 (length xs - 1) s2 = Some s3" "pq_rep (<) 4 (Some s3) (M - {#at xs 1#})" by auto
  have pk: "peek s 1 = Some (at xs 1)" "peek s (length xs) = Some (last xs)"
    using holds_peek [OF s(2)] l ne by (auto simp: at_def last_conv_nth)
  have "pq32_delMax q = Some (at xs 1, Some s3)"
    using s(1) holds_len(2) [OF xs(1)] ne pk s1(1) s2(1) s3(1) by (simp add: pq32_delMax_def Let_def)
  then show "\<exists>x q'. pq32_delMax q = Some (x, q') \<and> x \<in># M \<and> (\<forall>y\<in>#M. \<not> x < y) \<and> pq_rep (<) 4 q' (M - {#x#})"
    using s3(2) heap_first [OF weak_order_u32 xs(2) ne] xs(3) by auto
next
  fix q :: "u32 lines"
  assume "pq_rep (<) 4 q {#}"
  then have "nLines q = 0" by (auto simp: pq_rep_def dest: holds_len)
  then show "pq32_delMax q = None" by (simp add: pq32_delMax_def)
qed

text \<open>
  C16.  The queue of numbers sorts: after inserting any numbers, fewer than \<open>2 ^ 27\<close>, into an
  empty queue, taking them out gives them all back, the larger ones first; then the queue is
  empty and taking another one fails its assertion.  No access is outside the array.
\<close>

theorem pq32_sorts:
  assumes "length xs < 2 ^ 27"
  shows "\<exists>q q' ys. pq_fill pq32_insert xs None = Some q \<and> pq_drain pq32_delMax (length xs) q = Some (ys, q') \<and>
    mset ys = mset xs \<and> sorted_wrt (\<ge>) ys \<and> pq32_delMax q' = None"
proof -
  have "pq_rep (<) 4 None ({#} :: u32 multiset)" by (simp add: pq_rep_def lines_hold_def is_heap_def)
  from pq32.fill_rep [OF this, of xs] assms obtain q where q: "pq_fill pq32_insert xs None = Some q" "pq_rep (<) 4 q (mset xs)" by auto
  from pq32.drain_sorted [OF q(2), of "length xs"] obtain ys q' where
    "pq_drain pq32_delMax (length xs) q = Some (ys, q')" "mset ys = mset xs" "sorted_wrt (\<lambda>a b. \<not> a < b) ys" "pq_rep (<) 4 q' {#}" by auto
  moreover from this(3) have "sorted_wrt (\<ge>) ys" by (simp add: not_less)
  ultimately show ?thesis using q pq32.del_empty by blast
qed

theorem pq32_sorts_witness:
  "\<exists>q q' ys. pq_fill pq32_insert [3, 1, 2] None = Some q \<and> pq_drain pq32_delMax 3 q = Some (ys, q') \<and>
    mset ys = {#1, 2, 3#} \<and> sorted_wrt (\<ge>) ys"
proof -
  have e: "mset [3, 1, 2] = {#1, 2, 3 :: u32#}" "length [3, 1, 2 :: u32] = 3" by (simp_all add: add_mset_commute)
  have "length [3, 1, 2 :: u32] < 2 ^ 27" by simp
  from pq32_sorts [OF this, unfolded e] show ?thesis by blast
qed

section \<open>The queue of pointers\<close>

lemma pq_insert_rep:
  assumes "weak_order (\<lambda>a b. pq_cmp pq a b < 0)" "pq_rep (\<lambda>a b. pq_cmp pq a b < 0) 8 (pq_d pq) M" "size M < 2 ^ 27 - 1"
  shows "\<exists>pq'. pq_insert pq x = Some pq' \<and> pq_cmp pq' = pq_cmp pq \<and> pq_rep (\<lambda>a b. pq_cmp pq a b < 0) 8 (pq_d pq') (add_mset x M)"
proof -
  let ?lt = "\<lambda>a b. pq_cmp pq a b < 0"
  from assms(2) obtain xs where xs: "lines_hold 8 (pq_d pq) xs" "is_heap ?lt (length xs) xs" "mset xs = M" by (auto simp: pq_rep_def)
  have "fits 8 (length xs + 1)" unfolding fits_8 using assms(3) xs(3) by auto
  from addLine_ok(1) [OF xs(1) this, of x] obtain s where s: "addLine (pq_d pq) (Some x) = Some s" "holds 8 s (xs @ [x])" by auto
  with swim_rep [OF assms(1) xs(2) s(2)] xs(3) show ?thesis by (auto simp: pq_insert_def)
qed

text \<open>
  C17.  \<open>pq_pop\<close> of a nonempty queue, for any comparison function that is a weak order, gives a
  largest element and leaves a queue of the others, and \<open>pq_peek\<close> shows the same element.
\<close>

theorem pq_pop_max:
  assumes "weak_order (\<lambda>a b. pq_cmp pq a b < 0)" and "pq_rep (\<lambda>a b. pq_cmp pq a b < 0) 8 (pq_d pq) M" and "M \<noteq> {#}"
  shows "\<exists>x pq'. pq_pop pq = Some (x, pq') \<and> pq_peek pq = Some (Some x) \<and> x \<in># M \<and> (\<forall>y\<in>#M. \<not> pq_cmp pq x y < 0) \<and>
    pq_cmp pq' = pq_cmp pq \<and> pq_rep (\<lambda>a b. pq_cmp pq a b < 0) 8 (pq_d pq') (M - {#x#})"
proof -
  let ?lt = "\<lambda>a b. pq_cmp pq a b < 0"
  from assms(2) obtain xs where xs: "lines_hold 8 (pq_d pq) xs" "is_heap ?lt (length xs) xs" "mset xs = M" by (auto simp: pq_rep_def)
  then have ne: "xs \<noteq> []" using assms(3) by auto
  then obtain s where s: "pq_d pq = Some s" "holds 8 s xs" using xs(1) by (cases "pq_d pq") (auto simp: lines_hold_def)
  have l: "1 \<le> length xs" using ne by (cases xs) auto
  have L: "LLEN s = length xs" by (rule holds_len(1) [OF s(2)])
  let ?s1 = "setLLEN s (length xs - 1)"
  have pk: "peek s 1 = Some (at xs 1)" "peek s (length xs) = Some (last xs)"
    using holds_peek [OF s(2)] l ne by (auto simp: at_def last_conv_nth)
  have pop: "popLine (Some s) = Some (Some (last xs), Some ?s1)"
    using L l ne pk(2) by (simp add: popLine_def removeLineN_def nLines_def removeArrayN_def Let_def)
  have r: "room 8 s (length xs)" "take (length xs) (lmem s) = map Some xs" using s(2) by (auto simp: holds_def)
  have m: "1 \<le> length (lmem ?s1)" using room_length [OF r(1)] l by simp
  from poke_Some [OF order_refl m] obtain s2 where s2: "poke ?s1 1 (Some (last xs)) = Some s2" by blast
  note p = poke_simps [OF s2]
  have "room 8 s2 (length xs - 1)" using room_keep [OF room_setLLEN [OF r(1), of "length xs - 1"], of s2] p by simp
  moreover have "take (length xs - 1) (lmem s2) = map Some (take (length xs - 1) (xs[0 := last xs]))"
  proof -
    have "take (length xs - 1) (take (length xs) ((lmem s)[0 := Some (last xs)])) = map Some (take (length xs - 1) (xs[0 := last xs]))"
      using r(2) by (simp add: take_update_swap map_update take_map [symmetric] del: take_take)
    then show ?thesis using p(3) by (simp add: min_def)
  qed
  ultimately have "holds 8 s2 (take (length xs - 1) (xs[0 := last xs]))" by (simp add: holds_def)
  from sink_rep [OF assms(1) xs(2) ne this] xs(3) obtain s3 where
    s3: "sink ?lt 1 (length xs - 1) s2 = Some s3" "pq_rep ?lt 8 (Some s3) (M - {#at xs 1#})" by auto
  have "pq_pop pq = Some (at xs 1, pq\<lparr>pq_d := Some s3\<rparr>)"
    using s(1) L ne pk pop s2 s3(1) by (simp add: pq_pop_def Let_def nLines_def)
  moreover have "pq_peek pq = Some (Some (at xs 1))" using s(1) L ne pk(1) by (simp add: pq_peek_def)
  ultimately show ?thesis using s3(2) heap_first [OF assms(1) xs(2) ne] xs(3) by auto
qed

theorem pq_pop_max_witness:
  "\<exists>pq x pq'. pq_insert (pq_new (\<lambda>a b. a - b)) (5 :: int) = Some pq \<and> pq_pop pq = Some (x, pq') \<and> x \<in># {#5#}"
proof -
  let ?q = "pq_new (\<lambda>a b. a - (b :: int))"
  have w: "weak_order (\<lambda>a b. pq_cmp ?q a b < 0)" by (auto simp: weak_order_def pq_new_def)
  have "pq_rep (\<lambda>a b. pq_cmp ?q a b < 0) 8 (pq_d ?q) {#}" by (simp add: pq_rep_def pq_new_def lines_hold_def is_heap_def)
  from pq_insert_rep [OF w this, of 5] obtain pq where
    pq: "pq_insert ?q 5 = Some pq" "pq_cmp pq = pq_cmp ?q" "pq_rep (\<lambda>a b. pq_cmp ?q a b < 0) 8 (pq_d pq) {#5#}" by auto
  from pq(3) w have "weak_order (\<lambda>a b. pq_cmp pq a b < 0)" "pq_rep (\<lambda>a b. pq_cmp pq a b < 0) 8 (pq_d pq) {#5#}"
    unfolding pq(2) by blast+
  moreover have "{#5 :: int#} \<noteq> {#}" by simp
  ultimately show ?thesis using pq_pop_max pq(1) by blast
qed

end
