(* ===== verification/BK_Time.thy ===== *)
theory BK_Time
  imports BK_Sccs
begin

text \<open>
  Dates (\<open>slib.c\<close>): the conversions between seconds and calendar fields with their tables, the
  parser of date strings, printing the date of a delta in its time zone, the age of something
  in words, and the functions that look up and repair the dates of deltas.  A read outside a
  table or beyond the end of a string is \<open>None\<close>.
\<close>

section \<open>Seconds and calendar fields\<close>

record tm =
  tm_sec :: int
  tm_min :: int
  tm_hour :: int
  tm_mday :: int
  tm_mon :: int
  tm_year :: int

definition yearSecs :: "int list" where
  "yearSecs = [
	     0,   31536000,   63072000,   94694400,  126230400,  157766400,
     189302400,  220924800,  252460800,  283996800,  315532800,  347155200,
     378691200,  410227200,  441763200,  473385600,  504921600,  536457600,
     567993600,  599616000,  631152000,  662688000,  694224000,  725846400,
     757382400,  788918400,  820454400,  852076800,  883612800,  915148800,
     946684800,  978307200, 1009843200, 1041379200, 1072915200, 1104537600,
    1136073600, 1167609600, 1199145600, 1230768000, 1262304000, 1293840000,
    1325376000, 1356998400, 1388534400, 1420070400, 1451606400, 1483228800,
    1514764800, 1546300800, 1577836800, 1609459200, 1640995200, 1672531200,
    1704067200, 1735689600, 1767225600, 1798761600, 1830297600, 1861920000,
    1893456000, 1924992000, 1956528000, 1988150400, 2019686400, 2051222400,
    2082758400, 2114380800, 0]"

definition DSECS :: int where "DSECS = 24 * 60 * 60"

definition monthSecs :: "int list" where
  "monthSecs = [
    0,		31*DSECS,  59*DSECS,  90*DSECS,
    120*DSECS,	151*DSECS, 181*DSECS, 212*DSECS,
    243*DSECS,	273*DSECS, 304*DSECS, 334*DSECS,
    365*DSECS]"

definition days :: "int list" where
  "days = [0, 31, 28, 31, 30, 31, 30, 31, 31, 30, 31, 30, 31]"

definition leapYear :: "int \<Rightarrow> bool" where
  "leapYear year \<longleftrightarrow> year mod 4 = 0 \<and> year mod 100 \<noteq> 0 \<or> year mod 400 = 0"

definition tab :: "int list \<Rightarrow> int \<Rightarrow> int option" where
  "tab xs i = (if 0 \<le> i \<and> i < int (length xs) then Some (xs ! nat i) else None)"

definition tm2utc :: "tm \<Rightarrow> int option" where
  "tm2utc tp =
     (if tm_year tp < 70 then Some 1
      else if tm_year tp \<ge> 138 then Some 0
      else
        (case (tab yearSecs (tm_year tp - 70), tab monthSecs (tm_mon tp)) of
           (Some y, Some m) \<Rightarrow>
             Some (y + m + (if tm_mon tp > 1 \<and> leapYear (1900 + tm_year tp) then DSECS else 0) +
               (tm_mday tp - 1) * DSECS + tm_hour tp * 60 * 60 + tm_min tp * 60 + tm_sec tp)
         | _ \<Rightarrow> None))"

text \<open>The year: the last one of the table that has started, the last one at all if none is later.\<close>

fun year_index :: "int \<Rightarrow> nat \<Rightarrow> int list \<Rightarrow> nat" where
  "year_index t i (y # y' # ys) = (if y' \<noteq> 0 \<and> \<not> t < y' then year_index t (Suc i) (y' # ys) else i)"
| "year_index t i _ = i"

definition month_secs :: "bool \<Rightarrow> nat \<Rightarrow> int" where
  "month_secs leap i = monthSecs ! i + (if leap \<and> i \<ge> 2 then DSECS else 0)"

fun month_index :: "bool \<Rightarrow> int \<Rightarrow> nat list \<Rightarrow> nat option" where
  "month_index leap t [] = None"
| "month_index leap t (i # is) = (if t < month_secs leap (Suc i) then Some i else month_index leap t is)"

text \<open>Division of C integers truncates towards zero.\<close>

definition cdiv :: "int \<Rightarrow> int \<Rightarrow> int" where
  "cdiv a b = sgn a * sgn b * (\<bar>a\<bar> div \<bar>b\<bar>)"

definition utc2tm :: "int \<Rightarrow> tm option" where
  "utc2tm t =
     (let i = year_index t 0 yearSecs;
          t = t - yearSecs ! i;
          leap = leapYear (1900 + (70 + int i));
          (mon, t) = (case month_index leap t [0..<12] of Some m \<Rightarrow> (int m, t - month_secs leap m) | None \<Rightarrow> (0, t));
          mday = cdiv t DSECS + 1;
          t = t - DSECS * (mday - 1)
      in if \<not> mday > 0 then None
         else
           (let hour = cdiv t 3600; t = t - hour * 3600; minu = cdiv t 60; t = t - minu * 60
            in Some \<lparr>tm_sec = t, tm_min = minu, tm_hour = hour, tm_mday = mday, tm_mon = mon, tm_year = 70 + int i\<rparr>))"

definition monthDays :: "int \<Rightarrow> int \<Rightarrow> int option" where
  "monthDays year month = (if month \<noteq> 2 then tab days month else Some (if leapYear year then 29 else 28))"

section \<open>Reading a date\<close>

definition char_val :: "char \<Rightarrow> int" where
  "char_val c = int (of_char c) - 48"

text \<open>\<open>for (; *asctime && !isdigit(*asctime); asctime++);\<close>\<close>

function skip_nondigits :: "string \<Rightarrow> nat \<Rightarrow> nat" where
  "skip_nondigits s i = (if nth_char s i \<noteq> NUL \<and> \<not> isdigit (nth_char s i) then skip_nondigits s (Suc i) else i)"
  by auto
termination by (relation "measure (\<lambda>(s, i). length s - i)") (auto simp: nth_char_def split: if_splits)

declare skip_nondigits.simps [simp del]

definition gettime :: "string \<Rightarrow> nat \<Rightarrow> int \<times> nat" where
  "gettime s i =
     (if isdigit (nth_char s (i + 1))
      then (char_val (nth_char s i) * 10 + char_val (nth_char s (i + 1)), skip_nondigits s (i + 2))
      else (char_val (nth_char s i), skip_nondigits s (i + 1)))"

text \<open>Month, day, hour, minute and second, as far as the string goes.\<close>

fun get_fields :: "nat \<Rightarrow> string \<Rightarrow> nat \<Rightarrow> int list \<times> nat" where
  "get_fields 0 s i = ([], i)"
| "get_fields (Suc n) s i =
     (if nth_char s i = NUL then ([], i)
      else (let (v, i) = gettime s i; (vs, i) = get_fields n s i in (v # vs, i)))"

text \<open>The loop over the digits of the year: a 2-digit year in 69..99 or 0..18 ends it.\<close>

fun year_loop :: "nat \<Rightarrow> string \<Rightarrow> nat \<Rightarrow> nat \<Rightarrow> int \<Rightarrow> int \<times> nat" where
  "year_loop 0 s i k tmp = (tmp, i)"
| "year_loop (Suc n) s i k tmp =
     (if isdigit (nth_char s i) then
        (let tmp = tmp * 10 + char_val (nth_char s i)
         in if k = 1 \<and> (tmp \<ge> 69 \<or> tmp \<le> 18) then (tmp, i + 1) else year_loop n s (i + 1) (Suc k) tmp)
      else (tmp, i))"

definition get_year :: "string \<Rightarrow> int \<times> nat" where
  "get_year s =
     (let (tmp, i) = year_loop 4 s 0 0 0;
          y = (if tmp < 69 then tmp + 100 else tmp);
          y = (if y \<ge> 1969 then y - 1900 else y)
      in (y, skip_nondigits s i))"

definition tm_zero :: tm where
  "tm_zero = \<lparr>tm_sec = 0, tm_min = 0, tm_hour = 0, tm_mday = 0, tm_mon = 0, tm_year = 0\<rparr>"

definition tm_default :: "bool \<Rightarrow> tm" where
  "tm_default roundup =
     (if roundup then \<lparr>tm_sec = 59, tm_min = 59, tm_hour = 23, tm_mday = 31, tm_mon = 11, tm_year = 0\<rparr>
      else tm_zero\<lparr>tm_mday := 1\<rparr>)"

definition field :: "int list \<Rightarrow> nat \<Rightarrow> int \<Rightarrow> int" where
  "field vs i dflt = (if i < length vs then vs ! i else dflt)"

text \<open>Truncating oversized fields.\<close>

definition tm_clip :: "tm \<Rightarrow> tm option" where
  "tm_clip tp =
     (let tp = (if tm_mon tp > 11 then tp\<lparr>tm_mon := 11\<rparr> else tp)
      in case monthDays (1900 + tm_year tp) (tm_mon tp + 1) of
           None \<Rightarrow> None
         | Some i \<Rightarrow>
             Some \<lparr>tm_sec = (if tm_sec tp > 59 then 59 else tm_sec tp), tm_min = (if tm_min tp > 59 then 59 else tm_min tp),
               tm_hour = (if tm_hour tp > 23 then 23 else tm_hour tp),
               tm_mday = (if i < tm_mday tp then i else tm_mday tp), tm_mon = tm_mon tp, tm_year = tm_year tp\<rparr>)"

text \<open>The time zone; \<open>while (*z++ != ':');\<close> leaves the string when there is no colon.\<close>

definition tm_zone :: "string \<Rightarrow> tm \<Rightarrow> tm option" where
  "tm_zone z tp =
     (let neg = (nth_char z 0 = CHR ''-'');
          z = (if neg then tl z else z);
          sign = (if neg then 1 else -1);
          z = (if nth_char z 0 = CHR ''+'' then tl z else z);
          rest = dropWhile (\<lambda>c. c \<noteq> CHR '':'') z
      in if rest = [] then None
         else Some (tp\<lparr>tm_hour := tm_hour tp + sint (atoi z) * sign, tm_min := tm_min tp + sint (atoi (tl rest)) * sign\<rparr>))"

definition a2tm :: "string \<Rightarrow> string option \<Rightarrow> bool \<Rightarrow> tm option" where
  "a2tm asctime z roundup =
     (let d = tm_default roundup;
          (y, i) = get_year asctime;
          (vs, j) = get_fields 5 asctime i;
          tp = \<lparr>tm_sec = field vs 4 (tm_sec d), tm_min = field vs 3 (tm_min d), tm_hour = field vs 2 (tm_hour d),
            tm_mday = field vs 1 (tm_mday d), tm_mon = (if 0 < length vs then vs ! 0 - 1 else tm_mon d), tm_year = y\<rparr>;
          z = (if length vs = 5 \<and> (nth_char asctime (j - 1) = CHR ''-'' \<or> nth_char asctime (j - 1) = CHR ''+'') \<and> z = None
               then Some (drop (j - 1) asctime) else z);
          (tp, z) = (if tm_year tp = 69 then (tm_zero, None) else (tp, z))
      in case tm_clip tp of
           None \<Rightarrow> None
         | Some tp \<Rightarrow> (case z of None \<Rightarrow> Some tp | Some z \<Rightarrow> tm_zone z tp))"

definition date2time :: "string \<Rightarrow> string option \<Rightarrow> bool \<Rightarrow> int option" where
  "date2time asctime z roundup =
     Option.bind (a2tm asctime (if z = Some [] then None else z) roundup) tm2utc"

definition sccs_date2time :: "string \<Rightarrow> string option \<Rightarrow> int option" where
  "sccs_date2time date zone = date2time date zone False"

section \<open>The dates of deltas\<close>

definition DATE :: "sccs \<Rightarrow> ser \<Rightarrow> int" where "DATE s d = uint (d_date (slist1 s d))"
definition DATE_FUDGE :: "sccs \<Rightarrow> ser \<Rightarrow> int" where "DATE_FUDGE s d = uint (d_dateFudge (slist1 s d))"
definition ZONE :: "sccs \<Rightarrow> ser \<Rightarrow> string" where "ZONE s d = HEAP s (d_zone (slist1 s d))"

definition DATE_SET :: "sccs \<Rightarrow> ser \<Rightarrow> int \<Rightarrow> sccs" where
  "DATE_SET s d v = s\<lparr>slist1 := (slist1 s)(d := (slist1 s d)\<lparr>d_date := of_int v\<rparr>)\<rparr>"

definition DATE_FUDGE_SET :: "sccs \<Rightarrow> ser \<Rightarrow> int \<Rightarrow> sccs" where
  "DATE_FUDGE_SET s d v = s\<lparr>slist1 := (slist1 s)(d := (slist1 s d)\<lparr>d_dateFudge := of_int v\<rparr>)\<rparr>"

definition fix_date :: "ser \<Rightarrow> sccs \<times> ser \<Rightarrow> sccs \<times> ser" where
  "fix_date d = (\<lambda>(s, prev).
     (if prev \<noteq> 0 \<and> DATE s prev \<le> DATE s d then
        (let f = DATE s d - DATE s prev + 1;
             s = DATE_FUDGE_SET s prev (DATE_FUDGE s prev + f)
         in DATE_SET s prev (DATE s prev + f))
      else s, d))"

definition sccs_fixDates :: "sccs \<Rightarrow> sccs" where
  "sccs_fixDates s = fst (fold fix_date [TREE s..<Suc (TABLE s)] (s, 0))"

text \<open>
  The fields that \<open>gmtime\<close> of the C library gives for a time after 1970, and the conversion
  \<open>%y/%m/%d %H:%M:%S\<close> of \<open>strftime\<close>.
\<close>

definition year_days :: "nat \<Rightarrow> nat" where
  "year_days y = (if leapYear (int y) then 366 else 365)"

function civil_year :: "nat \<Rightarrow> nat \<Rightarrow> nat \<times> nat" where
  "civil_year y n = (if n < year_days y then (y, n) else civil_year (Suc y) (n - year_days y))"
  by auto
termination by (relation "measure snd") (auto simp: year_days_def)

declare civil_year.simps [simp del]

definition month_days :: "bool \<Rightarrow> nat list" where
  "month_days leap = [31, if leap then 29 else 28, 31, 30, 31, 30, 31, 31, 30, 31, 30, 31]"

fun civil_month :: "nat \<Rightarrow> nat list \<Rightarrow> nat \<Rightarrow> nat \<times> nat" where
  "civil_month m [] n = (m, n)"
| "civil_month m (k # ks) n = (if n < k then (m, n) else civil_month (Suc m) ks (n - k))"

definition gmtime :: "int \<Rightarrow> tm" where
  "gmtime t =
     (let (y, n) = civil_year 1970 (nat (t div DSECS));
          (m, md) = civil_month 0 (month_days (leapYear (int y))) n;
          r = t mod DSECS
      in \<lparr>tm_sec = r mod 60, tm_min = r div 60 mod 60, tm_hour = r div 3600, tm_mday = int md + 1, tm_mon = int m,
          tm_year = int y - 1900\<rparr>)"

definition show2 :: "int \<Rightarrow> string" where
  "show2 n = [digit_char (nat n div 10 mod 10), digit_char (nat n mod 10)]"

definition strftime_sdate :: "tm \<Rightarrow> string" where
  "strftime_sdate tp =
     show2 (tm_year tp mod 100) @ ''/'' @ show2 (tm_mon tp + 1) @ ''/'' @ show2 (tm_mday tp) @ '' '' @
     show2 (tm_hour tp) @ '':'' @ show2 (tm_min tp) @ '':'' @ show2 (tm_sec tp)"

text \<open>
  The offset of a zone in seconds.  The \<open>int\<close> of the code holds it for every zone below 2^31 seconds,
  about 596523 hours; the model has no bound.
\<close>

definition zone_secs :: "string \<Rightarrow> int" where
  "zone_secs p =
     (let neg = (if nth_char p 0 = CHR ''-'' then -1 else 1);
          p = (if nth_char p 0 = CHR ''-'' \<or> nth_char p 0 = CHR ''+'' then tl p else p);
          (h, p) = atoi_p p;
          m = (if nth_char p 0 = CHR '':'' then fst (atoi_p (tl p)) else 0)
      in neg * (60 * 60 * sint h + 60 * sint m))"

definition delta_sdate :: "sccs \<Rightarrow> ser \<Rightarrow> string" where
  "delta_sdate s d = strftime_sdate (gmtime (DATE s d - DATE_FUDGE s d + zone_secs (ZONE s d)))"

section \<open>The age of something\<close>

definition MINUTE :: int where "MINUTE = 60"
definition HOUR :: int where "HOUR = 60 * MINUTE"
definition DAY :: int where "DAY = 24 * HOUR"
definition WEEK :: int where "WEEK = 7 * DAY"
definition YEAR :: int where "YEAR = 365 * DAY"
definition MONTH :: int where "MONTH = YEAR div 12"
definition DECADE :: int where "DECADE = 10 * YEAR"

function age_loop :: "int \<Rightarrow> int \<Rightarrow> int \<Rightarrow> int \<Rightarrow> int option" where
  "age_loop small lim w i =
     (if i \<le> lim \<and> 0 < small then if w \<le> i then Some i else age_loop small lim w (i + small) else None)"
  by auto
termination by (relation "measure (\<lambda>(small, lim, w, i). nat (lim - i + 1))") auto

declare age_loop.simps [simp del]

definition age_doit :: "int \<Rightarrow> int \<Rightarrow> string \<Rightarrow> int \<Rightarrow> string \<Rightarrow> string option" where
  "age_doit small big units w space =
     (if w \<le> 3 * big then
        map_option (\<lambda>i. let buf = show_int (i div small) @ space @ units in if i div small = 1 then butlast buf else buf)
          (age_loop small (3 * big) w 0)
      else None)"

fun age_units :: "(int \<times> int \<times> string) list \<Rightarrow> int \<Rightarrow> string \<Rightarrow> string" where
  "age_units [] w space = ''more than 30 years''"
| "age_units ((small, big, units) # us) w space =
     (case age_doit small big units w space of Some b \<Rightarrow> b | None \<Rightarrow> age_units us w space)"

definition age :: "int \<Rightarrow> string \<Rightarrow> string" where
  "age w space =
     age_units [(1, MINUTE, ''seconds''), (MINUTE, HOUR, ''minutes''), (HOUR, DAY, ''hours''), (DAY, WEEK, ''days''),
       (WEEK, MONTH, ''weeks''), (MONTH, YEAR, ''months''), (YEAR, DECADE, ''years'')] w space"

section \<open>The delta nearest to a date\<close>

definition sccs_prev :: "sccs \<Rightarrow> ser \<Rightarrow> ser option" where
  "sccs_prev s d =
     (if d = 0 then Some 0
      else if d - 1 \<ge> TREE s then (if FLAGS s (d - 1) \<noteq> 0 then Some (d - 1) else None)
      else Some 0)"

datatype rounding = EXACT | ROUNDUP | ROUNDDOWN

text \<open>The walk of \<open>sccs_findDate\<close>, once the date is known; it starts at the newest delta.\<close>

function findDate_loop :: "sccs \<Rightarrow> int \<Rightarrow> ser \<Rightarrow> ser \<Rightarrow> (ser \<times> ser \<times> bool) option" where
  "findDate_loop s date tmp d =
     (if d \<ge> TREE s then
        if TAG s d then (case sccs_prev s d of None \<Rightarrow> None | Some d' \<Rightarrow> findDate_loop s date tmp d')
        else if DATE s d = date then Some (d, tmp, True)
        else if DATE s d < date then Some (d, tmp, False)
        else (case sccs_prev s d of None \<Rightarrow> None | Some d' \<Rightarrow> findDate_loop s date d d')
      else Some (d, tmp, False))"
  by auto
termination by (relation "measure (\<lambda>(s, date, tmp, d). d)") (auto simp: sccs_prev_def TREE_def split: if_splits)

declare findDate_loop.simps [simp del]

definition findDate :: "sccs \<Rightarrow> int \<Rightarrow> rounding \<Rightarrow> ser option" where
  "findDate s date roundup =
     map_option (\<lambda>(d, tmp, exact). if exact then d else
        (case roundup of EXACT \<Rightarrow> 0 | ROUNDDOWN \<Rightarrow> tmp | ROUNDUP \<Rightarrow> d))
       (findDate_loop s date 0 (TABLE s))"

section \<open>The tables\<close>

definition days_before :: "nat \<Rightarrow> nat" where
  "days_before i = sum_list (map year_days [1970..<1970 + i])"

lemma days_before_Suc: "days_before (Suc i) = days_before i + year_days (1970 + i)"
  by (simp only: days_before_def add_Suc_right upt_Suc) simp

lemma year_days_table:
  "list_all (\<lambda>i. yearSecs ! Suc i = yearSecs ! i + DSECS * (if leapYear (1970 + int i) then 366 else 365)) [0..<67]"
  by code_simp

lemma yearSecs_table: "i < 68 \<Longrightarrow> yearSecs ! i = DSECS * int (days_before i)"
proof (induction i)
  case 0
  show ?case by (simp add: yearSecs_def days_before_def)
next
  case (Suc i)
  then have "yearSecs ! Suc i = yearSecs ! i + DSECS * int (year_days (1970 + i))"
    using year_days_table by (simp add: list_all_iff year_days_def del: upt_Suc)
  then show ?case using Suc by (simp add: days_before_Suc distrib_left)
qed

lemma yearSecs_mono: "i < 67 \<Longrightarrow> yearSecs ! Suc i \<noteq> 0"
  using yearSecs_table [of "Suc i"] by (simp add: days_before_Suc year_days_def DSECS_def)

lemma length_yearSecs: "length yearSecs = 69" "yearSecs ! 68 = 0" "yearSecs ! 0 = 0"
  by code_simp+

lemma civil_year_steps:
  "sum_list (map year_days [y..<y + k]) \<le> n \<Longrightarrow> n < sum_list (map year_days [y..<y + Suc k]) \<Longrightarrow>
   civil_year y n = (y + k, n - sum_list (map year_days [y..<y + k]))"
proof (induction k arbitrary: y n)
  case 0
  then show ?case by (simp add: civil_year.simps)
next
  case (Suc k)
  have e: "[y..<y + Suc m] = y # [Suc y..<Suc y + m]" for m by (simp add: upt_rec)
  have "year_days y \<le> n" using Suc.prems(1) unfolding e by simp
  then have "civil_year y n = civil_year (Suc y) (n - year_days y)" by (subst civil_year.simps) simp
  also have "\<dots> = (Suc y + k, n - year_days y - sum_list (map year_days [Suc y..<Suc y + k]))"
    using Suc.prems unfolding e by (intro Suc.IH) (simp_all del: upt_Suc)
  finally show ?case unfolding e by simp
qed

lemma year_index_bounds:
  assumes "k < 68" "yearSecs ! k \<le> t"
  shows "let i = year_index t k (drop k yearSecs) in
    k \<le> i \<and> i < 68 \<and> yearSecs ! i \<le> t \<and> (i < 67 \<longrightarrow> t < yearSecs ! Suc i)"
  using assms
proof (induction "67 - k" arbitrary: k)
  case 0
  then have k: "k = 67" by simp
  have "drop 67 yearSecs = [yearSecs ! 67, 0]" by code_simp
  then show ?case using 0 k by simp
next
  case (Suc j)
  have lt: "k < 67" using Suc by simp
  have d: "drop k yearSecs = yearSecs ! k # yearSecs ! Suc k # drop (Suc (Suc k)) yearSecs"
    using lt by (simp add: Cons_nth_drop_Suc length_yearSecs)
  have d': "yearSecs ! Suc k # drop (Suc (Suc k)) yearSecs = drop (Suc k) yearSecs"
    using lt by (simp add: Cons_nth_drop_Suc length_yearSecs)
  show ?case
  proof (cases "t < yearSecs ! Suc k")
    case True
    then show ?thesis using Suc lt unfolding d by simp
  next
    case False
    have "year_index t k (drop k yearSecs) = year_index t (Suc k) (drop (Suc k) yearSecs)"
      using False yearSecs_mono lt unfolding d d' [symmetric] by simp
    moreover have "j = 67 - Suc k" "Suc k < 68" "yearSecs ! Suc k \<le> t" using Suc(2) False lt by auto
    ultimately show ?thesis using Suc.hyps(1) [of "Suc k"] by (simp add: Let_def)
  qed
qed

lemma cdiv_nonneg: "0 \<le> a \<Longrightarrow> 0 < b \<Longrightarrow> cdiv a b = a div b"
  by (cases "a = 0") (simp_all add: cdiv_def)


lemma div_DSECS_less: "0 \<le> t \<Longrightarrow> t < DSECS * int k \<longleftrightarrow> nat (t div DSECS) < k"
  by (auto simp: DSECS_def)

definition month_before :: "bool \<Rightarrow> nat \<Rightarrow> nat" where
  "month_before leap m = sum_list (take m (month_days leap))"

lemma length_month_days [simp]: "length (month_days leap) = 12"
  by (simp add: month_days_def)

lemma month_secs_table: "list_all (\<lambda>m. month_secs True m = DSECS * int (month_before True m) \<and>
    month_secs False m = DSECS * int (month_before False m)) [0..<13]"
  by code_simp

lemma month_secs_before: "m < 13 \<Longrightarrow> month_secs leap m = DSECS * int (month_before leap m)"
  using month_secs_table by (cases leap) (auto simp: list_all_iff)

lemma month_before_Suc: "m < 12 \<Longrightarrow> month_before leap (Suc m) = month_before leap m + month_days leap ! m"
  by (simp add: month_before_def take_Suc_conv_app_nth)

lemma month_before_12: "month_before leap 12 = (if leap then 366 else 365)"
  by (simp add: month_before_def month_days_def)

lemma month_index_civil:
  assumes "0 \<le> t" "m \<le> 12" "month_before leap m \<le> nat (t div DSECS)" "nat (t div DSECS) < month_before leap 12"
  shows "\<exists>i. month_index leap t [m..<12] = Some i \<and> i < 12 \<and> month_before leap i \<le> nat (t div DSECS) \<and>
    nat (t div DSECS) < month_before leap (Suc i) \<and>
    civil_month m (drop m (month_days leap)) (nat (t div DSECS) - month_before leap m) =
      (i, nat (t div DSECS) - month_before leap i)"
  using assms(2-4)
proof (induction "12 - m" arbitrary: m)
  case 0
  then show ?case by simp
next
  case (Suc j)
  then have m: "m < 12" by simp
  have d: "drop m (month_days leap) = month_days leap ! m # drop (Suc m) (month_days leap)"
    using m by (simp add: Cons_nth_drop_Suc)
  have u: "[m..<12] = m # [Suc m..<12]" using m by (simp add: upt_conv_Cons)
  have c: "t < month_secs leap (Suc m) \<longleftrightarrow> nat (t div DSECS) < month_before leap (Suc m)"
    using m by (simp add: month_secs_before div_DSECS_less assms(1))
  show ?case
  proof (cases "nat (t div DSECS) < month_before leap (Suc m)")
    case True
    then have "nat (t div DSECS) - month_before leap m < month_days leap ! m"
      using Suc.prems m by (simp add: month_before_Suc)
    then show ?thesis using True Suc.prems m c unfolding d u by simp
  next
    case False
    have e: "nat (t div DSECS) - month_before leap m - month_days leap ! m = nat (t div DSECS) - month_before leap (Suc m)"
      using m by (simp add: month_before_Suc)
    have "\<not> nat (t div DSECS) - month_before leap m < month_days leap ! m"
      using False Suc.prems m by (simp add: month_before_Suc)
    then have "civil_month m (drop m (month_days leap)) (nat (t div DSECS) - month_before leap m) =
        civil_month (Suc m) (drop (Suc m) (month_days leap)) (nat (t div DSECS) - month_before leap (Suc m))"
      unfolding d e [symmetric] by simp
    moreover have "month_index leap t [m..<12] = month_index leap t [Suc m..<12]" using False c unfolding u by simp
    moreover have "j = 12 - Suc m" "Suc m \<le> 12" "month_before leap (Suc m) \<le> nat (t div DSECS)"
      using Suc(2) False m by simp_all
    ultimately show ?thesis using Suc.hyps(1) [of "Suc m"] Suc.prems(3) by simp
  qed
qed


lemma civil_parts:
  assumes "0 \<le> t" "t < 2145916800"
  shows "\<exists>i m md. year_index t 0 yearSecs = i \<and> i < 68 \<and>
    civil_year 1970 (nat (t div DSECS)) = (1970 + i, md + month_before (leapYear (1970 + int i)) m) \<and>
    month_index (leapYear (1970 + int i)) (t - yearSecs ! i) [0..<12] = Some m \<and> m < 12 \<and>
    md < month_days (leapYear (1970 + int i)) ! m \<and>
    civil_month 0 (month_days (leapYear (1970 + int i))) (md + month_before (leapYear (1970 + int i)) m) = (m, md) \<and>
    t = yearSecs ! i + month_secs (leapYear (1970 + int i)) m + DSECS * int md + t mod DSECS"
proof -
  define i where "i = year_index t 0 yearSecs"
  have b: "i < 68" "yearSecs ! i \<le> t" "i < 67 \<longrightarrow> t < yearSecs ! Suc i"
    using year_index_bounds [of 0 t] assms by (simp_all add: i_def Let_def length_yearSecs)
  have y: "yearSecs ! i = DSECS * int (days_before i)" using b(1) by (rule yearSecs_table)
  have "DSECS * int (days_before 68) = 2145916800"
    using days_before_Suc [of 67] yearSecs_table [of 67] by (simp add: yearSecs_def DSECS_def year_days_def leapYear_def)
  then have u: "t < DSECS * int (days_before (Suc i))"
    using b assms(2) yearSecs_table [of "Suc i"] by (cases "i < 67") (auto simp: less_Suc_eq numeral_eq_Suc)
  define n where "n = nat (t div DSECS)"
  have n: "days_before i \<le> n" "n < days_before (Suc i)"
    using b(2) u assms(1) unfolding y n_def by (auto simp: div_DSECS_less DSECS_def)
  have cy: "civil_year 1970 n = (1970 + i, n - days_before i)"
    using civil_year_steps [of 1970 i n] n by (simp only: days_before_def) 
  define leap where "leap = leapYear (1970 + int i)"
  define t' where "t' = t - yearSecs ! i"
  have "t = t' + DSECS * int (days_before i)" by (simp add: t'_def y)
  then have "t' mod DSECS = t mod DSECS" "t div DSECS = t' div DSECS + int (days_before i)"
    by (simp_all add: DSECS_def)
  moreover have "0 \<le> t'" using b(2) by (simp add: t'_def)
  moreover have "0 \<le> t' div DSECS" using calculation(3) by (simp add: DSECS_def pos_imp_zdiv_nonneg_iff)
  ultimately have n': "nat (t' div DSECS) = n - days_before i" "0 \<le> t'" "t' mod DSECS = t mod DSECS"
    by (simp_all add: n_def)
  have "nat (t' div DSECS) < month_before leap 12"
    using n unfolding n' by (simp add: month_before_12 leap_def days_before_Suc year_days_def)
  then obtain m where m: "month_index leap t' [0..<12] = Some m" "m < 12" "month_before leap m \<le> nat (t' div DSECS)"
    "nat (t' div DSECS) < month_before leap (Suc m)"
    "civil_month 0 (month_days leap) (nat (t' div DSECS)) = (m, nat (t' div DSECS) - month_before leap m)"
    using month_index_civil [OF n'(2), of 0 leap] by (auto simp: month_before_def)
  define md where "md = n - days_before i - month_before leap m"
  have e: "n - days_before i = md + month_before leap m" using m(3) by (simp add: md_def n')
  have md: "md < month_days leap ! m" using m(4) month_before_Suc [OF m(2), of leap] by (simp add: n' e)
  have "t' = DSECS * int (nat (t' div DSECS)) + t' mod DSECS" using n'(2) by (simp add: DSECS_def pos_imp_zdiv_nonneg_iff)
  then have "t = yearSecs ! i + month_secs leap m + DSECS * int md + t mod DSECS"
    using m(2) unfolding n'(1,3) e by (simp add: t'_def month_secs_before distrib_left)
  then show ?thesis
    using b(1) cy [unfolded e, unfolded n_def] m(1,2) m(5) [unfolded n'(1) e add_diff_cancel_right'] md i_def
    unfolding leap_def t'_def by blast
qed


lemma hms: 
  fixes r :: int
  shows "r - r div 3600 * 3600 = r mod 3600" "r mod 3600 div 60 = r div 60 mod 60" "r mod 3600 - r div 60 mod 60 * 60 = r mod 60"
proof -
  show "r - r div 3600 * 3600 = r mod 3600" by (rule minus_div_mult_eq_mod)
  have e: "r mod 3600 = 60 * (r div 60 mod 60) + r mod 60" using zmod_zmult2_eq [of 60 r 60] by simp
  show "r mod 3600 div 60 = r div 60 mod 60" "r mod 3600 - r div 60 mod 60 * 60 = r mod 60" unfolding e by simp_all
qed

lemma gmtime_fields:
  assumes "0 \<le> t" "t < 2145916800"
  shows "\<exists>i m md. i < 68 \<and> m < 12 \<and> md < month_days (leapYear (1970 + int i)) ! m \<and> 
    t = yearSecs ! i + month_secs (leapYear (1970 + int i)) m + DSECS * int md + t mod DSECS \<and>
    gmtime t = \<lparr>tm_sec = t mod DSECS mod 60, tm_min = t mod DSECS div 60 mod 60, tm_hour = t mod DSECS div 3600,
      tm_mday = int md + 1, tm_mon = int m, tm_year = 70 + int i\<rparr> \<and> utc2tm t = Some (gmtime t)"
proof -
  obtain i m md where p: "year_index t 0 yearSecs = i" "i < 68"
    "civil_year 1970 (nat (t div DSECS)) = (1970 + i, md + month_before (leapYear (1970 + int i)) m)"
    "month_index (leapYear (1970 + int i)) (t - yearSecs ! i) [0..<12] = Some m" "m < 12"
    "md < month_days (leapYear (1970 + int i)) ! m"
    "civil_month 0 (month_days (leapYear (1970 + int i))) (md + month_before (leapYear (1970 + int i)) m) = (m, md)"
    "t = yearSecs ! i + month_secs (leapYear (1970 + int i)) m + DSECS * int md + t mod DSECS"
    using civil_parts [OF assms] by blast
  define r where "r = t mod DSECS"
  have r: "0 \<le> r" "r < DSECS" by (simp_all add: r_def DSECS_def)
  have g: "gmtime t = \<lparr>tm_sec = r mod 60, tm_min = r div 60 mod 60, tm_hour = r div 3600,
      tm_mday = int md + 1, tm_mon = int m, tm_year = 70 + int i\<rparr>"
    using p(3,7) by (simp add: gmtime_def r_def Let_def)
  have t: "t - yearSecs ! i - month_secs (leapYear (1970 + int i)) m = DSECS * int md + r"
    using p(8) by (simp add: r_def)
  have d: "cdiv (DSECS * int md + r) DSECS = int md" "DSECS * int md + r - DSECS * (int md + 1 - 1) = r"
    using r by (simp_all add: cdiv_nonneg DSECS_def)
  have u: "utc2tm t = Some (gmtime t)"
    using r(1) by (simp add: utc2tm_def p(1,4) t d g Let_def cdiv_nonneg hms del: upt_Suc)
  show ?thesis using p(2,5,6,8) g u unfolding r_def by blast
qed

lemma tab_nth: "i < length xs \<Longrightarrow> tab xs (int i) = Some (xs ! i)"
  by (simp add: tab_def)

lemma tm2utc_gmtime:
  assumes "0 \<le> t" "t < 2145916800"
  shows "tm2utc (gmtime t) = Some t"
proof -
  obtain i m md where p: "i < 68" "m < 12" "md < month_days (leapYear (1970 + int i)) ! m"
    "t = yearSecs ! i + month_secs (leapYear (1970 + int i)) m + DSECS * int md + t mod DSECS"
    "gmtime t = \<lparr>tm_sec = t mod DSECS mod 60, tm_min = t mod DSECS div 60 mod 60, tm_hour = t mod DSECS div 3600,
      tm_mday = int md + 1, tm_mon = int m, tm_year = 70 + int i\<rparr>" "utc2tm t = Some (gmtime t)"
    using gmtime_fields [OF assms] by blast
  have s: "(t mod DSECS) div 3600 * 60 * 60 + (t mod DSECS) div 60 mod 60 * 60 + (t mod DSECS) mod 60 = t mod DSECS"
    using hms(1,3) [of "t mod DSECS"] by simp
  have "tab monthSecs (int m) = Some (monthSecs ! m)" using p(2) by (intro tab_nth) (simp add: monthSecs_def)
  moreover have "tab yearSecs (int i) = Some (yearSecs ! i)" using p(1) by (intro tab_nth) (simp add: length_yearSecs)
  moreover have "\<not> 70 + int i < 70" "\<not> 70 + int i \<ge> 138" "1900 + (70 + int i) = 1970 + int i"
    using p(1) by simp_all
  moreover have "1 < int m \<longleftrightarrow> 2 \<le> m" by linarith
  ultimately have g: "tm2utc \<lparr>tm_sec = se, tm_min = mi, tm_hour = h, tm_mday = int md + 1, tm_mon = int m, tm_year = 70 + int i\<rparr> =
      Some (yearSecs ! i + month_secs (leapYear (1970 + int i)) m + DSECS * int md + (h * 60 * 60 + mi * 60 + se))" for se mi h
    by (simp add: tm2utc_def month_secs_def del: add_less_cancel_left)
  have "tm2utc (gmtime t) = Some (yearSecs ! i + month_secs (leapYear (1970 + int i)) m + DSECS * int md + t mod DSECS)"
    unfolding p(5) g s by (rule refl)
  then show ?thesis using p(4) by simp
qed

text \<open>
  C18. For every second from the epoch to the end of 2037, the table-driven \<open>utc2tm\<close> computes the fields of the
  Gregorian calendar and tm2utc is its inverse.
\<close>

theorem utc2tm_calendar:
  assumes "0 \<le> t" "t < 2145916800"
  shows "utc2tm t = Some (gmtime t) \<and> tm2utc (gmtime t) = Some t"
  using gmtime_fields [OF assms] tm2utc_gmtime [OF assms] by blast

theorem utc2tm_calendar_witness:
  "utc2tm 1709164800 = Some (gmtime 1709164800) \<and> tm2utc (gmtime 1709164800) = Some 1709164800"
  by (rule utc2tm_calendar [of 1709164800]) simp_all

section \<open>Printing and reading\<close>

definition zone_ok :: "string \<Rightarrow> bool" where
  "zone_ok z \<longleftrightarrow> z = [] \<or>
     nth_char (dropWhile isdigit (if nth_char z 0 = CHR ''-'' \<or> nth_char z 0 = CHR ''+'' then tl z else z)) 0 = CHR '':''"

lemma snd_atoi_loop [simp]: "snd (atoi_loop v p) = dropWhile isdigit p"
  by (induction p arbitrary: v) auto

lemma char_val_digit_char [simp]: "n < 10 \<Longrightarrow> char_val (digit_char n) = int n"
  by (simp add: char_val_def)

lemma nth_char_Cons [simp]: "nth_char (c # cs) 0 = c" "nth_char (c # cs) (Suc i) = nth_char cs i"
  "nth_char (c # cs) (numeral k) = nth_char cs (pred_numeral k)" "nth_char [] i = NUL"
  by (auto simp: nth_char_def numeral_eq_Suc)

lemma two_digits: "0 \<le> n \<Longrightarrow> n < 100 \<Longrightarrow> show2 n = [digit_char (nat n div 10), digit_char (nat n mod 10)]"
  by (simp add: show2_def)

lemma two_value: "0 \<le> n \<Longrightarrow> int (nat n div 10) * 10 + int (nat n mod 10) = n"
  using div_mult_mod_eq [of "nat n" 10] by linarith

definition tm_ok :: "tm \<Rightarrow> bool" where
  "tm_ok tp \<longleftrightarrow> 70 \<le> tm_year tp \<and> tm_year tp < 138 \<and> 0 \<le> tm_mon tp \<and> tm_mon tp < 12 \<and>
     0 < tm_mday tp \<and> tm_mday tp \<le> int (month_days (leapYear (1900 + tm_year tp)) ! nat (tm_mon tp)) \<and>
     0 \<le> tm_hour tp \<and> tm_hour tp < 24 \<and> 0 \<le> tm_min tp \<and> tm_min tp < 60 \<and> 0 \<le> tm_sec tp \<and> tm_sec tp < 60"

lemma gmtime_ok:
  assumes "0 \<le> t" "t < 2145916800"
  shows "tm_ok (gmtime t)"
proof -
  obtain i m md where p: "i < 68" "m < 12" "md < month_days (leapYear (1970 + int i)) ! m"
    "gmtime t = \<lparr>tm_sec = t mod DSECS mod 60, tm_min = t mod DSECS div 60 mod 60, tm_hour = t mod DSECS div 3600,
      tm_mday = int md + 1, tm_mon = int m, tm_year = 70 + int i\<rparr>"
    using gmtime_fields [OF assms] by blast
  have "0 \<le> t mod DSECS" "t mod DSECS < 86400" by (simp_all add: DSECS_def)
  then have "0 \<le> t mod DSECS div 3600" "t mod DSECS div 3600 < 24" by (simp_all add: pos_imp_zdiv_nonneg_iff)
  then show ?thesis using p(1-3) unfolding p(4) tm_ok_def by simp
qed

lemma digit_char_neq [simp]:
  "n < 10 \<Longrightarrow> digit_char n \<noteq> NUL" "n < 10 \<Longrightarrow> digit_char n \<noteq> CHR ''-''" "n < 10 \<Longrightarrow> digit_char n \<noteq> CHR ''+''"
  using of_char_digit_char [of n] by (auto simp del: of_char_digit_char)

definition sdate_chars :: "nat list \<Rightarrow> string" where
  "sdate_chars ns = (let c = (\<lambda>i. digit_char (ns ! i)) in
     [c 0, c 1, CHR ''/'', c 2, c 3, CHR ''/'', c 4, c 5, CHR '' '', c 6, c 7, CHR '':'', c 8, c 9, CHR '':'', c 10, c 11])"

lemma sep_not_digit [simp]: "\<not> isdigit CHR ''/''" "\<not> isdigit CHR '':''" "\<not> isdigit CHR '' ''"
  by (simp_all add: isdigit_def)

lemma sep_not_NUL [simp]: "CHR ''/'' \<noteq> NUL" "CHR '':'' \<noteq> NUL" "CHR '' '' \<noteq> NUL"
  by (simp_all add: NUL_def)

lemma NUL_not_digit [simp]: "\<not> isdigit NUL"
  using isdigit_not_NUL by blast

lemma skip_digit [simp]: "isdigit (nth_char s i) \<Longrightarrow> skip_nondigits s i = i"
  by (simp add: skip_nondigits.simps)

lemma skip_end [simp]: "nth_char s i = NUL \<Longrightarrow> skip_nondigits s i = i"
  by (simp add: skip_nondigits.simps)

lemma skip_sep [simp]:
  "nth_char s i \<noteq> NUL \<Longrightarrow> \<not> isdigit (nth_char s i) \<Longrightarrow> skip_nondigits s i = skip_nondigits s (Suc i)"
  by (simp add: skip_nondigits.simps [of s i])

lemma sdate_nth:
  "nth_char (sdate_chars ns) 0 = digit_char (ns ! 0)" "nth_char (sdate_chars ns) 1 = digit_char (ns ! 1)"
  "nth_char (sdate_chars ns) 2 = CHR ''/''" "nth_char (sdate_chars ns) 3 = digit_char (ns ! 2)"
  "nth_char (sdate_chars ns) 4 = digit_char (ns ! 3)" "nth_char (sdate_chars ns) 5 = CHR ''/''"
  "nth_char (sdate_chars ns) 6 = digit_char (ns ! 4)" "nth_char (sdate_chars ns) 7 = digit_char (ns ! 5)"
  "nth_char (sdate_chars ns) 8 = CHR '' ''" "nth_char (sdate_chars ns) 9 = digit_char (ns ! 6)"
  "nth_char (sdate_chars ns) 10 = digit_char (ns ! 7)" "nth_char (sdate_chars ns) 11 = CHR '':''"
  "nth_char (sdate_chars ns) 12 = digit_char (ns ! 8)" "nth_char (sdate_chars ns) 13 = digit_char (ns ! 9)"
  "nth_char (sdate_chars ns) 14 = CHR '':''" "nth_char (sdate_chars ns) 15 = digit_char (ns ! 10)"
  "nth_char (sdate_chars ns) 16 = digit_char (ns ! 11)" "nth_char (sdate_chars ns) 17 = NUL"
  by (simp_all add: sdate_chars_def Let_def)

lemma sdate_skip:
  assumes "\<forall>i<12. ns ! i < 10"
  shows "skip_nondigits (sdate_chars ns) 2 = 3" "skip_nondigits (sdate_chars ns) 5 = 6" "skip_nondigits (sdate_chars ns) 8 = 9"
    "skip_nondigits (sdate_chars ns) 11 = 12" "skip_nondigits (sdate_chars ns) 14 = 15" "skip_nondigits (sdate_chars ns) 17 = 17"
  using assms by (simp_all add: sdate_nth)

lemma get_fields_two:
  "nth_char s k = digit_char i \<Longrightarrow> nth_char s k1 = digit_char j \<Longrightarrow> skip_nondigits s k2 = l \<Longrightarrow> i < 10 \<Longrightarrow> j < 10 \<Longrightarrow>
   get_fields n s l = (vs, e) \<Longrightarrow> n' = Suc n \<Longrightarrow> k1 = Suc k \<Longrightarrow> k2 = Suc k1 \<Longrightarrow>
   get_fields n' s k = ((int i * 10 + int j) # vs, e)"
  by (auto simp: gettime_def)

lemma get_fields_sdate:
  assumes "\<forall>i<12. ns ! i < 10"
  shows "get_fields 5 (sdate_chars ns) 3 =
    ([int (ns ! 2) * 10 + int (ns ! 3), int (ns ! 4) * 10 + int (ns ! 5), int (ns ! 6) * 10 + int (ns ! 7),
      int (ns ! 8) * 10 + int (ns ! 9), int (ns ! 10) * 10 + int (ns ! 11)], 17)"
proof -
  have n: "ns ! i < 10" if "i < 12" for i using assms that by blast
  show ?thesis
    by (rule get_fields_two [OF sdate_nth(4,5) sdate_skip(2) [OF assms] n n], simp, simp,
        rule get_fields_two [OF sdate_nth(7,8) sdate_skip(3) [OF assms] n n], simp, simp,
        rule get_fields_two [OF sdate_nth(10,11) sdate_skip(4) [OF assms] n n], simp, simp,
        rule get_fields_two [OF sdate_nth(13,14) sdate_skip(5) [OF assms] n n], simp, simp,
        rule get_fields_two [OF sdate_nth(16,17) sdate_skip(6) [OF assms] n n], simp, simp,
        rule get_fields.simps(1)) simp_all
qed

lemma year_loop_sdate:
  assumes "\<forall>i<12. ns ! i < 10"
  shows "year_loop 4 (sdate_chars ns) 0 0 0 = (int (ns ! 0) * 10 + int (ns ! 1), 2)"
proof -
  have four: "(4 :: nat) = Suc (Suc (Suc 1))" by simp
  have n: "ns ! 0 < 10" "ns ! 1 < 10" using assms by simp_all
  have i: "(0 :: nat) + 1 = 1" "(1 :: nat) + 1 = 2" by simp_all
  show ?thesis
    unfolding four year_loop.simps Let_def i sdate_nth
    using n by (simp del: One_nat_def)
qed

lemma get_year_sdate:
  assumes "\<forall>i<12. ns ! i < 10"
  shows "get_year (sdate_chars ns) = (let y = int (ns ! 0) * 10 + int (ns ! 1) in (if y < 69 then y + 100 else y, 3))"
proof -
  have "ns ! 0 < 10" "ns ! 1 < 10" using assms by simp_all
  then have "int (ns ! 0) * 10 + int (ns ! 1) < 100" by linarith
  then show ?thesis by (simp add: get_year_def year_loop_sdate sdate_skip assms Let_def)
qed

definition sdate_digits :: "tm \<Rightarrow> nat list" where
  "sdate_digits tp = concat (map (\<lambda>v. [nat v div 10, nat v mod 10])
     [tm_year tp mod 100, tm_mon tp + 1, tm_mday tp, tm_hour tp, tm_min tp, tm_sec tp])"

lemma month_days_le: "m < 12 \<Longrightarrow> month_days leap ! m \<le> 31"
proof -
  assume "m < 12"
  moreover have "\<forall>k\<in>set (month_days leap). k \<le> 31" by (simp add: month_days_def)
  ultimately show ?thesis by simp
qed

lemma sdate_digits:
  assumes ok: "tm_ok tp"
  shows "strftime_sdate tp = sdate_chars (sdate_digits tp)" "\<forall>i<12. sdate_digits tp ! i < 10"
proof -
  have b: "0 \<le> tm_year tp mod 100" "tm_year tp mod 100 < 100" "tm_mon tp + 1 < 100" "tm_mday tp < 100" "0 \<le> tm_mday tp"
    using ok month_days_le [of "nat (tm_mon tp)" "leapYear (1900 + tm_year tp)"] by (auto simp: tm_ok_def nat_less_iff)
  have d: "nat v div 10 < 10" if "v < 100" for v using that by (simp add: less_mult_imp_div_less nat_less_iff)
  show "strftime_sdate tp = sdate_chars (sdate_digits tp)"
    using ok b by (simp add: strftime_sdate_def two_digits tm_ok_def sdate_chars_def sdate_digits_def)
  have "\<forall>x\<in>set (sdate_digits tp). x < 10" using ok b d by (simp add: sdate_digits_def tm_ok_def)
  moreover have "length (sdate_digits tp) = 12" by (simp add: sdate_digits_def)
  ultimately show "\<forall>i<12. sdate_digits tp ! i < 10" by (metis nth_mem)
qed

lemma year_mod: "70 \<le> y \<Longrightarrow> y < 138 \<Longrightarrow> (y :: int) mod 100 = (if y < 100 then y else y - 100)"
  using minus_mod_self2 [of y 100] mod_pos_pos_trivial [of "y - 100" 100] by auto

lemma a2tm_strftime:
  assumes ok: "tm_ok tp"
  shows "a2tm (strftime_sdate tp) z False = (case tm_clip tp of None \<Rightarrow> None | Some tp \<Rightarrow> (case z of None \<Rightarrow> Some tp | Some z \<Rightarrow> tm_zone z tp))"
proof -
  let ?ns = "sdate_digits tp"
  note n = sdate_digits(2) [OF ok]
  have v: "int (?ns ! 0) * 10 + int (?ns ! 1) = tm_year tp mod 100" "int (?ns ! 2) * 10 + int (?ns ! 3) = tm_mon tp + 1"
    "int (?ns ! 4) * 10 + int (?ns ! 5) = tm_mday tp" "int (?ns ! 6) * 10 + int (?ns ! 7) = tm_hour tp"
    "int (?ns ! 8) * 10 + int (?ns ! 9) = tm_min tp" "int (?ns ! 10) * 10 + int (?ns ! 11) = tm_sec tp"
    using ok by (simp_all add: sdate_digits_def two_value tm_ok_def)
  have y: "(let y = tm_year tp mod 100 in (if y < 69 then y + 100 else y, 3 :: nat)) = (tm_year tp, 3)"
    using year_mod [of "tm_year tp"] ok by (auto simp: tm_ok_def)
  have c: "nth_char (sdate_chars ?ns) 16 \<noteq> CHR ''-''" "nth_char (sdate_chars ?ns) 16 \<noteq> CHR ''+''"
    using n by (simp_all add: sdate_nth)
  have e: "\<lparr>tm_sec = tm_sec tp, tm_min = tm_min tp, tm_hour = tm_hour tp, tm_mday = tm_mday tp, tm_mon = tm_mon tp,
      tm_year = tm_year tp\<rparr> = tp" by simp
  have "tm_year tp \<noteq> 69" using ok by (simp add: tm_ok_def)
  then show ?thesis
    using c unfolding a2tm_def sdate_digits(1) [OF ok] get_year_sdate [OF n] v y
    by (simp add: get_fields_sdate [OF n] v field_def e)
qed

lemma monthDays_days:
  "m < 12 \<Longrightarrow> monthDays y (int m + 1) = Some (int (month_days (leapYear y) ! m))"
  by (auto simp: monthDays_def tab_def days_def month_days_def less_Suc_eq numeral_eq_Suc)

lemma tm_clip_ok:
  assumes ok: "tm_ok tp"
  shows "tm_clip tp = Some tp"
proof -
  have "monthDays (1900 + tm_year tp) (tm_mon tp + 1) = Some (int (month_days (leapYear (1900 + tm_year tp)) ! nat (tm_mon tp)))"
    using monthDays_days [of "nat (tm_mon tp)" "1900 + tm_year tp"] ok by (simp add: tm_ok_def nat_less_iff)
  then show ?thesis using ok by (simp add: tm_clip_def tm_ok_def)
qed

lemma tm2utc_shift:
  "70 \<le> tm_year tp \<Longrightarrow> tm_year tp < 138 \<Longrightarrow>
   tm2utc (tp\<lparr>tm_hour := tm_hour tp + h, tm_min := tm_min tp + m\<rparr>) = map_option (\<lambda>t. t + h * 3600 + m * 60) (tm2utc tp)"
  by (auto simp: tm2utc_def algebra_simps split: option.splits)

lemma colon_dropWhile:
  "nth_char (dropWhile isdigit p) 0 = CHR '':'' \<Longrightarrow> dropWhile (\<lambda>c. c \<noteq> CHR '':'') p = dropWhile isdigit p"
  by (induction p) (auto simp: NUL_def isdigit_def split: if_splits)

lemma tm_zone_secs:
  assumes z: "zone_ok z" "z \<noteq> []" and y: "70 \<le> tm_year tp" "tm_year tp < 138"
  shows "Option.bind (tm_zone z tp) tm2utc = map_option (\<lambda>t. t - zone_secs z) (tm2utc tp)"
proof -
  define p where "p = (if nth_char z 0 = CHR ''-'' \<or> nth_char z 0 = CHR ''+'' then tl z else z)"
  have r: "nth_char (dropWhile isdigit p) 0 = CHR '':''" using z by (simp add: zone_ok_def p_def)
  have ne: "dropWhile isdigit p \<noteq> []" using r by (cases "dropWhile isdigit p") (simp_all add: NUL_def)
  have np: "nth_char p 0 \<noteq> CHR ''+''" using r by (cases p) (auto simp: NUL_def isdigit_def)
  have a: "atoi_p q = (atoi q, dropWhile isdigit q)" for q by (simp add: atoi_p_def atoi_def prod_eq_iff)
  let ?m = "atoi (tl (dropWhile isdigit p))"
  let ?neg = "nth_char z 0 = CHR ''-''"
  have s: "zone_secs z = (if ?neg then -1 else 1) * (60 * 60 * sint (atoi p) + 60 * sint ?m)"
    using r unfolding zone_secs_def p_def [symmetric] a by (simp add: a)
  have "(let z = (if ?neg then tl z else z) in if nth_char z 0 = CHR ''+'' then tl z else z) = p"
    using np unfolding p_def Let_def by (auto split: if_splits)
  then have "tm_zone z tp = Some (let sg = (if ?neg then 1 else -1) in
      tp\<lparr>tm_hour := tm_hour tp + sint (atoi p) * sg, tm_min := tm_min tp + sint ?m * sg\<rparr>)"
    using ne colon_dropWhile [OF r] unfolding tm_zone_def Let_def by simp
  then show ?thesis using y by (simp add: tm2utc_shift s Let_def algebra_simps)
qed

definition NOFUDGE :: "sccs \<Rightarrow> ser \<Rightarrow> int" where "NOFUDGE s d = DATE s d - DATE_FUDGE s d"

text \<open>
  C19. Reading the date that \<open>delta_strftime\<close> prints for a delta, in the time zone of the delta,
  gives the original date of the delta (without its fudge), for every zone in the documented
  form and every local time up to the end of 2037, although only two digits of the year are
  printed.
\<close>

theorem date2time_delta_sdate:
  assumes z: "zone_ok (ZONE s d)"
    and t: "0 \<le> NOFUDGE s d + zone_secs (ZONE s d)" "NOFUDGE s d + zone_secs (ZONE s d) < 2145916800"
  shows "sccs_date2time (delta_sdate s d) (Some (ZONE s d)) = Some (NOFUDGE s d)"
proof -
  let ?t = "NOFUDGE s d + zone_secs (ZONE s d)"
  note g = gmtime_ok [OF t] tm2utc_gmtime [OF t]
  have s: "delta_sdate s d = strftime_sdate (gmtime ?t)" by (simp add: delta_sdate_def NOFUDGE_def)
  show ?thesis
  proof (cases "ZONE s d = []")
    case True
    then show ?thesis using g by (simp add: sccs_date2time_def date2time_def s a2tm_strftime tm_clip_ok zone_secs_def atoi_p_def)
  next
    case False
    have "date2time (delta_sdate s d) (Some (ZONE s d)) False = Option.bind (tm_zone (ZONE s d) (gmtime ?t)) tm2utc"
      using False g by (simp add: date2time_def s a2tm_strftime tm_clip_ok)
    then show ?thesis using tm_zone_secs [OF z False, of "gmtime ?t"] g by (simp add: tm_ok_def sccs_date2time_def)
  qed
qed

definition ex_dates :: sccs where
  "ex_dates = ex_file
     \<lparr>slist1 := (\<lambda>d. (slist1 ex_file d)\<lparr>d_date := 36000000 + 10 * of_nat d, d_dateFudge := 5, d_zone := 4\<rparr>),
      heap := heap ex_file @ ''-07:30'' @ [NUL]\<rparr>"

lemma ex_dates_zone: "ZONE ex_dates 2 = ''-07:30''"
  by code_simp

theorem date2time_delta_sdate_witness:
  "delta_sdate ex_dates 2 = ''71/02/21 08:30:15'' \<and>
   sccs_date2time (delta_sdate ex_dates 2) (Some (ZONE ex_dates 2)) = Some (NOFUDGE ex_dates 2)"
proof
  show "delta_sdate ex_dates 2 = ''71/02/21 08:30:15''" by code_simp
  have "zone_ok (ZONE ex_dates 2)" by code_simp
  moreover have "0 \<le> NOFUDGE ex_dates 2 + zone_secs (ZONE ex_dates 2)" by code_simp
  moreover have "NOFUDGE ex_dates 2 + zone_secs (ZONE ex_dates 2) < 2145916800" by code_simp
  ultimately show "sccs_date2time (delta_sdate ex_dates 2) (Some (ZONE ex_dates 2)) = Some (NOFUDGE ex_dates 2)"
    by (rule date2time_delta_sdate)
qed

section \<open>Repairing and searching dates\<close>

lemma DATE_DATE_SET: "0 \<le> v \<Longrightarrow> v < 2 ^ 32 \<Longrightarrow> DATE (DATE_SET s d v) e = (if e = d then v else DATE s e)"
  by (simp add: DATE_def DATE_SET_def uint_word_of_int take_bit_int_eq_self)

lemma DATE_FUDGE_other [simp]: "DATE (DATE_FUDGE_SET s d v) e = DATE s e"
  by (simp add: DATE_def DATE_FUDGE_SET_def)

lemma DATE_nonneg: "0 \<le> DATE s d"
  by (simp add: DATE_def)

lemma fix_dates_upto:
  assumes "\<forall>d\<le>k. DATE s d + 1 < 2 ^ 32"
  shows "snd (fold fix_date [1..<Suc k] (s, 0)) = k \<and>
    (\<forall>d. DATE (fst (fold fix_date [1..<Suc k] (s, 0))) d =
       (if 1 \<le> d \<and> d < k then max (DATE s d) (DATE s (Suc d) + 1) else DATE s d))"
  using assms
proof (induction k)
  case 0
  then show ?case by simp
next
  case (Suc k)
  obtain s' where s': "fold fix_date [1..<Suc k] (s, 0) = (s', k)"
    using Suc by (metis le_SucI prod.collapse)
  have D: "DATE s' d = (if 1 \<le> d \<and> d < k then max (DATE s d) (DATE s (Suc d) + 1) else DATE s d)" for d
    using Suc s' by auto
  have b: "0 \<le> DATE s (Suc k) + 1" "DATE s (Suc k) + 1 < 2 ^ 32" using Suc.prems DATE_nonneg [of s "Suc k"] by auto
  have f: "fold fix_date [1..<Suc (Suc k)] (s, 0) = fix_date (Suc k) (s', k)" using s' by simp
  show ?case
    unfolding f using b by (auto simp: fix_date_def D DATE_DATE_SET Let_def less_Suc_eq)
qed

text \<open>
  C20. \<open>sccs_fixDates\<close>, documented to make the dates increase in serial order, does the reverse:
  it raises every delta that is older than its successor above it.  Whatever the dates are, the
  last delta of a file with two or more deltas ends up older than the one before it.
\<close>

theorem sccs_fixDates_order:
  assumes "2 \<le> TABLE s" "\<forall>d\<le>TABLE s. DATE s d + 1 < 2 ^ 32"
  shows "(\<forall>d. DATE (sccs_fixDates s) d = (if 1 \<le> d \<and> d < TABLE s then max (DATE s d) (DATE s (Suc d) + 1) else DATE s d)) \<and>
    DATE (sccs_fixDates s) (TABLE s) < DATE (sccs_fixDates s) (TABLE s - 1)"
proof -
  have "\<forall>d. DATE (sccs_fixDates s) d = (if 1 \<le> d \<and> d < TABLE s then max (DATE s d) (DATE s (Suc d) + 1) else DATE s d)"
    using fix_dates_upto [OF assms(2)] by (simp add: sccs_fixDates_def TREE_def)
  then show ?thesis using assms(1) by (auto simp: less_max_iff_disj)
qed

theorem sccs_fixDates_order_witness:
  "DATE ex_dates 4 < DATE ex_dates 5 \<and> DATE (sccs_fixDates ex_dates) 5 < DATE (sccs_fixDates ex_dates) 4"
proof -
  have "list_all (\<lambda>d. DATE ex_dates d + 1 < 2 ^ 32) [0..<6]" by code_simp
  then have b: "\<forall>d\<le>TABLE ex_dates. DATE ex_dates d + 1 < 2 ^ 32"
    by (auto simp: list_all_iff TABLE_def ex_dates_def ex_file_def)
  have t: "TABLE ex_dates = 5" by code_simp
  have "DATE ex_dates 4 < DATE ex_dates 5" by code_simp
  then show ?thesis using sccs_fixDates_order [OF _ b] unfolding t by simp
qed

definition dated :: "sccs \<Rightarrow> (int \<Rightarrow> bool) \<Rightarrow> ser list" where
  "dated s P = filter (\<lambda>d. \<not> TAG s d \<and> P (DATE s d)) [TREE s..<Suc (TABLE s)]"

definition hd0 :: "ser list \<Rightarrow> ser" where "hd0 ds = (if ds = [] then 0 else hd ds)"
definition last0 :: "ser list \<Rightarrow> ser" where "last0 ds = (if ds = [] then 0 else last ds)"

definition dates_increase :: "sccs \<Rightarrow> bool" where
  "dates_increase s \<longleftrightarrow> (\<forall>e\<in>set [1..<Suc (TABLE s)]. FLAGS s e \<noteq> 0 \<and>
     (\<forall>d\<in>set [1..<e]. \<not> TAG s d \<longrightarrow> \<not> TAG s e \<longrightarrow> DATE s d < DATE s e))"

definition find_result :: "sccs \<Rightarrow> int \<Rightarrow> ser \<Rightarrow> ser list \<Rightarrow> ser \<times> ser \<times> bool \<Rightarrow> bool" where
  "find_result s date tmp ds = (\<lambda>(x, tmp', ex).
     let A = filter (\<lambda>e. \<not> TAG s e \<and> DATE s e \<le> date) ds;
         B = filter (\<lambda>e. \<not> TAG s e \<and> DATE s e \<ge> date) ds;
         E = filter (\<lambda>e. \<not> TAG s e \<and> DATE s e = date) ds
     in x = last0 A \<and> (if ex then B \<noteq> [] \<and> x = hd B \<and> E = [x] else tmp' = (if B = [] then tmp else hd B) \<and> E = []))"

lemma find_result_tag: "TAG s d \<Longrightarrow> find_result s date tmp (ds @ [d]) = find_result s date tmp ds"
  by (simp add: find_result_def)

lemma find_result_newer:
  "\<not> TAG s d \<Longrightarrow> DATE s d > date \<Longrightarrow> find_result s date d ds r \<Longrightarrow> find_result s date tmp (ds @ [d]) r"
  by (auto simp: find_result_def Let_def hd0_def split: if_splits)

lemma find_result_stop:
  assumes "\<not> TAG s d" "DATE s d \<le> date" "\<forall>e\<in>set ds. \<not> TAG s e \<longrightarrow> DATE s e < DATE s d"
  shows "find_result s date tmp (ds @ [d]) (d, tmp, DATE s d = date)"
proof -
  have "filter (\<lambda>e. \<not> TAG s e \<and> DATE s e \<ge> date) ds = []" "filter (\<lambda>e. \<not> TAG s e \<and> DATE s e = date) ds = []"
    using assms by (fastforce simp: filter_empty_conv)+
  then show ?thesis using assms(1,2) by (simp add: find_result_def last0_def hd0_def)
qed

lemma findDate_loop_finds:
  assumes "dates_increase s" "d \<le> TABLE s"
  shows "\<exists>r. findDate_loop s date tmp d = Some r \<and> find_result s date tmp [1..<Suc d] r"
  using assms(2)
proof (induction d arbitrary: tmp)
  case 0
  then show ?case by (subst findDate_loop.simps) (simp add: TREE_def last0_def find_result_def)
next
  case (Suc k)
  have u: "[1..<Suc (Suc k)] = [1..<Suc k] @ [Suc k]" by simp
  have i: "Suc k \<in> set [1..<Suc (TABLE s)]" using Suc.prems by auto
  have p: "sccs_prev s (Suc k) = Some k"
    using assms(1) Suc.prems by (cases k) (auto simp: sccs_prev_def TREE_def dates_increase_def)
  have o: "DATE s e < DATE s (Suc k)" if "e \<in> set [1..<Suc k]" "\<not> TAG s e" "\<not> TAG s (Suc k)" for e
    using assms(1) i that unfolding dates_increase_def by blast
  have l: "findDate_loop s date tmp (Suc k) =
     (if TAG s (Suc k) then findDate_loop s date tmp k else if DATE s (Suc k) = date then Some (Suc k, tmp, True)
      else if DATE s (Suc k) < date then Some (Suc k, tmp, False) else findDate_loop s date (Suc k) k)"
    by (subst findDate_loop.simps) (simp add: p TREE_def)
  consider "TAG s (Suc k)" | "\<not> TAG s (Suc k)" "DATE s (Suc k) \<le> date" | "\<not> TAG s (Suc k)" "DATE s (Suc k) > date" by linarith
  then show ?case
  proof cases
    case 1
    then show ?thesis unfolding u l find_result_tag [OF 1] using Suc by simp
  next
    case 2
    have "\<forall>e\<in>set [1..<Suc k]. \<not> TAG s e \<longrightarrow> DATE s e < DATE s (Suc k)" using o 2(1) by blast
    from find_result_stop [OF 2 this, of tmp] show ?thesis
      unfolding u l using 2 by (cases "DATE s (Suc k) = date") (simp_all del: upt_Suc One_nat_def)
  next
    case 3
    obtain r where "findDate_loop s date (Suc k) k = Some r" "find_result s date (Suc k) [1..<Suc k] r"
      using Suc.IH [of "Suc k"] Suc.prems by auto
    then show ?thesis unfolding u l using 3 find_result_newer [OF 3] by simp
  qed
qed

text \<open>
  C21. When the dates increase, the walk of \<open>sccs_findDate\<close> finds the newest delta up to the date
  when it rounds up, the oldest delta from the date on when it rounds down, and only a delta
  with exactly that date otherwise; tags are skipped and 0 means that there is none.
\<close>

theorem findDate_nearest:
  assumes "dates_increase s"
  shows "findDate s date ROUNDUP = Some (last0 (dated s (\<lambda>t. t \<le> date))) \<and>
    findDate s date ROUNDDOWN = Some (hd0 (dated s (\<lambda>t. date \<le> t))) \<and>
    findDate s date EXACT = Some (hd0 (dated s (\<lambda>t. t = date)))"
proof -
  obtain x tmp ex where l: "findDate_loop s date 0 (TABLE s) = Some (x, tmp, ex)"
    and r: "find_result s date 0 [1..<Suc (TABLE s)] (x, tmp, ex)"
    using findDate_loop_finds [OF assms order_refl, of date 0] by auto
  from r show ?thesis
    by (auto simp: l findDate_def find_result_def dated_def TREE_def hd0_def Let_def simp del: upt_Suc split: if_splits)
qed

theorem findDate_nearest_witness:
  "findDate ex_dates 36000025 ROUNDUP = Some 2 \<and> findDate ex_dates 36000025 ROUNDDOWN = Some 3"
proof -
  have i: "dates_increase ex_dates" by code_simp
  have "last0 (dated ex_dates (\<lambda>t. t \<le> 36000025)) = 2" by code_simp
  moreover have "hd0 (dated ex_dates (\<lambda>t. 36000025 \<le> t)) = 3" by code_simp
  ultimately show ?thesis using findDate_nearest [OF i, of 36000025] by simp
qed

end
