(* ===== verification/BK_Glob.thy ===== *)
theory BK_Glob
  imports BK_Prelude
begin

text \<open>
  Matching of file names against shell patterns (\<open>libc/utils/glob.c\<close>).  A pointer into a C
  string is the rest of the string from there; \<open>None\<close> is a pointer beyond the terminating NUL,
  and reading through it makes the whole match \<open>None\<close>.  The cached answer of \<open>glob_equals\<close> (the
  environment variable \<open>BK_GLOB_EQUAL\<close>) is the argument \<open>eqs\<close>.
\<close>

section \<open>Model\<close>

type_synonym ptr = "string option"

fun rd :: "ptr \<Rightarrow> char option" where
  "rd None = None"
| "rd (Some []) = Some NUL"
| "rd (Some (c # cs)) = Some c"

fun inc :: "ptr \<Rightarrow> ptr" where
  "inc (Some (c # cs)) = Some cs"
| "inc _ = None"

definition tolower :: "char \<Rightarrow> char" where
  "tolower c = (if 65 \<le> (of_char c :: nat) \<and> (of_char c :: nat) \<le> 90 then char_of ((of_char c :: nat) + 32) else c)"

definition C :: "bool \<Rightarrow> char \<Rightarrow> nat" where
  "C ignorecase c = of_char (if ignorecase then tolower c else c)"

fun is_glob_loop :: "bool \<Rightarrow> bool \<Rightarrow> string \<Rightarrow> string \<Rightarrow> string option" where
  "is_glob_loop eqs escape p [] = None"
| "is_glob_loop eqs escape p (c # glob) =
     (if c = CHR ''/'' then is_glob_loop eqs escape (c # glob) glob
      else if c = CHR 0x5C then is_glob_loop eqs (\<not> escape) p glob
      else if escape then is_glob_loop eqs False p glob
      else if c = CHR ''='' \<and> eqs \<or> c = CHR ''?'' \<or> c = CHR ''*'' \<or> c = CHR ''['' then Some p
      else is_glob_loop eqs escape p glob)"

definition is_glob :: "bool \<Rightarrow> string option \<Rightarrow> string option" where
  "is_glob eqs glob = (case glob of None \<Rightarrow> None | Some g \<Rightarrow> is_glob_loop eqs False g g)"

text \<open>
  The loop over the members of a set; \<open>x\<close> is the character to match.  The result is the outcome
  and the pattern after the closing bracket.
\<close>

fun set_loop :: "bool \<Rightarrow> char \<Rightarrow> bool \<Rightarrow> string \<Rightarrow> (bool \<times> string) option" where
  "set_loop ic x match [] = None"
| "set_loop ic x match [a] = None"
| "set_loop ic x match (a # b # g) =
     (if b = CHR ''-'' then
        (case g of
           [] \<Rightarrow> None
         | [h] \<Rightarrow> None
         | h # c # g' \<Rightarrow>
             (let match = match \<or> C ic a \<le> C ic x \<and> C ic x \<le> C ic h
              in if c = CHR '']'' then Some (match, g') else set_loop ic x match (c # g')))
      else
        (let match = match \<or> C ic a = C ic x
         in if b = CHR '']'' then Some (match, g) else set_loop ic x match (b # g)))"

text \<open>\<open>while (*p && C(*p) != C(*g)) p++;\<close>\<close>

definition seek :: "bool \<Rightarrow> char \<Rightarrow> string \<Rightarrow> string" where
  "seek ic c p = dropWhile (\<lambda>x. C ic x \<noteq> C ic c) p"

definition seekable :: "char \<Rightarrow> bool" where
  "seekable c \<longleftrightarrow> \<not> (c = CHR 0x5C \<or> c = CHR ''['' \<or> c = CHR ''?'' \<or> c = CHR ''*'')"

lemma set_loop_shorter: "set_loop ic x m g = Some (r, g') \<Longrightarrow> length g' < length g"
  by (induction ic x m g rule: set_loop.induct)
     (auto 0 4 simp: Let_def intro: less_SucI split: list.splits if_splits)

lemma seek_shorter: "seek ic c p = y # ys \<Longrightarrow> length ys < length p"
  unfolding seek_def using length_dropWhile_le [of "\<lambda>x. C ic x \<noteq> C ic c" p] by simp

function (sequential) match_one :: "bool \<Rightarrow> bool \<Rightarrow> ptr \<Rightarrow> string \<Rightarrow> bool option"
  and star :: "bool \<Rightarrow> bool \<Rightarrow> ptr \<Rightarrow> string \<Rightarrow> bool option" where
  "match_one ic eqs p [] = map_option (\<lambda>c. c = NUL) (rd p)"
| "match_one ic eqs p (c # g) =
     (if c = CHR ''?'' then
        (case rd p of None \<Rightarrow> None | Some x \<Rightarrow> if x \<noteq> NUL then match_one ic eqs (inc p) g else Some False)
      else if c = CHR ''['' then
        (let invert = (g \<noteq> [] \<and> hd g = CHR ''^'');
             g = (if invert then tl g else g)
         in if CHR '']'' \<notin> set g then Some False
            else
              (case rd p of
                 None \<Rightarrow> None
               | Some x \<Rightarrow>
                   (case set_loop ic x False g of
                      None \<Rightarrow> None
                    | Some (match, g') \<Rightarrow> if match \<noteq> invert then match_one ic eqs (inc p) g' else Some False)))
      else if c = CHR ''*'' \<or> c = CHR ''='' \<and> eqs then if g = [] then Some True else star ic eqs p g
      else if c = CHR 0x5C then
        (case rd p of
           None \<Rightarrow> None
         | Some x \<Rightarrow>
             (case g of
                [] \<Rightarrow> if C ic x = C ic NUL then None else Some False
              | c' # g' \<Rightarrow> if C ic x = C ic c' then match_one ic eqs (inc p) g' else Some False))
      else (case rd p of None \<Rightarrow> None | Some x \<Rightarrow> if C ic x = C ic c then match_one ic eqs (inc p) g else Some False))"
| "star ic eqs None g = None"
| "star ic eqs (Some []) g = Some False"
| "star ic eqs (Some (x # xs)) g =
     (case (if seekable (hd g) then seek ic (hd g) (x # xs) else x # xs) of
        [] \<Rightarrow> Some False
      | y # ys \<Rightarrow>
          (case match_one ic eqs (Some (y # ys)) g of
             None \<Rightarrow> None
           | Some True \<Rightarrow> Some True
           | Some False \<Rightarrow> star ic eqs (Some ys) g))"
  by pat_completeness auto
termination
  by (relation "measures [\<lambda>a. case a of Inl (ic, eqs, p, g) \<Rightarrow> 2 * length g | Inr (ic, eqs, p, g) \<Rightarrow> 2 * length g + 1,
      \<lambda>a. case a of Inl _ \<Rightarrow> 0 | Inr (ic, eqs, p, g) \<Rightarrow> (case p of None \<Rightarrow> 0 | Some q \<Rightarrow> length q)]")
     (auto dest: set_loop_shorter seek_shorter split: if_splits simp: less_Suc_eq_le)

text \<open>The first pattern of the list that matches.\<close>

fun match_globs :: "bool \<Rightarrow> bool \<Rightarrow> string \<Rightarrow> string list \<Rightarrow> string option option" where
  "match_globs ic eqs s [] = Some None"
| "match_globs ic eqs s (g # gs) =
     (case match_one ic eqs (Some s) g of
        None \<Rightarrow> None
      | Some True \<Rightarrow> Some (Some g)
      | Some False \<Rightarrow> match_globs ic eqs s gs)"

section \<open>What a pattern means\<close>

datatype gtok = Lit char | Any | Members bool "(char \<times> char) list" | Star

definition glob_special :: "char \<Rightarrow> bool" where
  "glob_special c \<longleftrightarrow> c = CHR ''?'' \<or> c = CHR ''*'' \<or> c = CHR ''['' \<or> c = CHR ''='' \<or> c = CHR 0x5C"

fun range_text :: "char \<times> char \<Rightarrow> string" where
  "range_text (a, b) = (if a = b then [a] else [a, CHR ''-'', b])"

fun tok_text :: "gtok \<Rightarrow> string" where
  "tok_text (Lit c) = (if glob_special c then [CHR 0x5C, c] else [c])"
| "tok_text Any = ''?''"
| "tok_text (Members neg ms) = ''['' @ (if neg then ''^'' else '''') @ concat (map range_text ms) @ '']''"
| "tok_text Star = ''*''"

definition glob_text :: "gtok list \<Rightarrow> string" where
  "glob_text ts = concat (map tok_text ts)"

definition set_char :: "char \<Rightarrow> bool" where
  "set_char c \<longleftrightarrow> c \<noteq> CHR '']'' \<and> c \<noteq> CHR ''-'' \<and> c \<noteq> CHR ''^'' \<and> c \<noteq> NUL"

fun tok_ok :: "gtok \<Rightarrow> bool" where
  "tok_ok (Lit c) \<longleftrightarrow> c \<noteq> NUL"
| "tok_ok (Members neg ms) \<longleftrightarrow> ms \<noteq> [] \<and> list_all (\<lambda>(a, b). set_char a \<and> set_char b) ms"
| "tok_ok _ \<longleftrightarrow> True"

fun glob_ok :: "gtok list \<Rightarrow> bool" where
  "glob_ok [] \<longleftrightarrow> True"
| "glob_ok (t # ts) \<longleftrightarrow> tok_ok t \<and> glob_ok ts \<and> \<not> (t = Star \<and> ts \<noteq> [] \<and> hd ts = Star) \<and>
     (case t of Members neg ms \<Rightarrow> \<not> (neg \<and> ts = [Star]) | _ \<Rightarrow> True)"

definition inverted :: "gtok \<Rightarrow> bool" where
  "inverted t \<longleftrightarrow> (case t of Members neg ms \<Rightarrow> neg | _ \<Rightarrow> False)"

definition in_members :: "bool \<Rightarrow> char \<Rightarrow> (char \<times> char) list \<Rightarrow> bool" where
  "in_members ic x ms \<longleftrightarrow> list_ex (\<lambda>(a, b). C ic a \<le> C ic x \<and> C ic x \<le> C ic b) ms"

fun tok_matches :: "bool \<Rightarrow> gtok \<Rightarrow> char \<Rightarrow> bool" where
  "tok_matches ic (Lit c) x \<longleftrightarrow> C ic x = C ic c"
| "tok_matches ic (Members neg ms) x \<longleftrightarrow> in_members ic x ms \<noteq> neg"
| "tok_matches ic _ x \<longleftrightarrow> True"

fun gmatch :: "bool \<Rightarrow> gtok list \<Rightarrow> string \<Rightarrow> bool" where
  "gmatch ic [] s \<longleftrightarrow> s = []"
| "gmatch ic (t # ts) s \<longleftrightarrow>
     (if t = Star then list_ex (\<lambda>k. gmatch ic ts (drop k s)) [0..<Suc (length s)]
      else s \<noteq> [] \<and> tok_matches ic t (hd s) \<and> gmatch ic ts (tl s))"

section \<open>The matcher follows the meaning\<close>

lemma set_loop_members:
  "ms \<noteq> [] \<Longrightarrow> list_all (\<lambda>(a, b). set_char a \<and> set_char b) ms \<Longrightarrow>
   set_loop ic x m (concat (map range_text ms) @ CHR '']'' # g) = Some (m \<or> in_members ic x ms, g)"
proof (induction ms arbitrary: m)
  case (Cons r ms)
  obtain a b where r: "r = (a, b)" by fastforce
  show ?case
  proof (cases ms)
    case Nil
    then show ?thesis using Cons.prems by (auto simp: r set_char_def in_members_def Let_def)
  next
    case (Cons r' ms')
    obtain a' b' where r': "r' = (a', b')" by fastforce
    define cs where "cs = tl (concat (map range_text ms))"
    have c: "concat (map range_text ms) = a' # cs" by (simp add: Cons r' cs_def)
    have "ms \<noteq> []" by (simp add: Cons)
    then have "set_loop ic x m' ((a' # cs) @ CHR '']'' # g) = Some (m' \<or> in_members ic x ms, g)" for m'
      unfolding c [symmetric] using Cons.IH [of m'] Cons.prems(2) by simp
    moreover have "set_char a" "set_char b" "set_char a'" using Cons.prems Cons by (simp_all add: r r')
    ultimately show ?thesis
      by (auto simp: r c set_char_def in_members_def [of _ _ "(a, b) # ms"] in_members_def [of _ _ ms] Let_def)
  qed
qed simp

lemma of_char_eq_0: "(of_char c :: nat) = 0 \<longleftrightarrow> c = NUL"
proof -
  have "(of_char NUL :: nat) = 0" by (simp add: NUL_def)
  then show ?thesis using of_char_eq_iff [of c NUL, where ?'a = nat] by metis
qed

lemma C_NUL: "C ic c = 0 \<longleftrightarrow> c = NUL"
proof -
  have "(of_char (tolower c) :: nat) = 0 \<longleftrightarrow> (of_char c :: nat) = 0"
    by (simp add: tolower_def)
  then show ?thesis by (simp add: C_def of_char_eq_0)
qed

lemma range_text_hd: "ms \<noteq> [] \<Longrightarrow> concat (map range_text ms) @ g \<noteq> [] \<and> hd (concat (map range_text ms) @ g) = fst (hd ms)"
  by (cases ms) (auto split: if_splits)

lemma match_members:
  assumes "tok_ok (Members neg ms)"
  shows "match_one ic eqs p (tok_text (Members neg ms) @ g) =
    (case rd p of None \<Rightarrow> None | Some x \<Rightarrow> if in_members ic x ms \<noteq> neg then match_one ic eqs (inc p) g else Some False)"
proof -
  have h: "hd (concat (map range_text ms) @ CHR '']'' # g) \<noteq> CHR ''^''"
    using assms range_text_hd [of ms "CHR '']'' # g"] by (cases ms) (auto simp: set_char_def)
  show ?thesis
    using assms set_loop_members [of ms ic _ False g] h by (simp split: option.split)
qed

lemma in_members_NUL: "tok_ok (Members n ms) \<Longrightarrow> \<not> in_members ic NUL ms"
proof
  assume ok: "tok_ok (Members n ms)" and "in_members ic NUL ms"
  then obtain a b where "(a, b) \<in> set ms" "C ic a \<le> C ic NUL" by (auto simp: in_members_def list_ex_iff)
  moreover have "a \<noteq> NUL" using ok calculation by (auto simp: list_all_iff set_char_def)
  ultimately show False using C_NUL [of ic a] C_NUL [of ic NUL] by simp
qed

lemma match_tok:
  assumes "tok_ok t" "t \<noteq> Star"
  shows "match_one ic eqs None (tok_text t @ g) = None"
    and "x \<noteq> NUL \<Longrightarrow> match_one ic eqs (Some (x # xs)) (tok_text t @ g) = (if tok_matches ic t x then match_one ic eqs (Some xs) g else Some False)"
    and "match_one ic eqs (Some []) (tok_text t @ g) = (if inverted t then match_one ic eqs None g else Some False)"
proof -
  have c: "c \<noteq> NUL \<Longrightarrow> C ic NUL \<noteq> C ic c" for c using C_NUL [of ic] by metis
  show "match_one ic eqs None (tok_text t @ g) = None"
    using assms match_members [of _ _ ic eqs None g] by (cases t) (auto simp: glob_special_def simp del: tok_ok.simps(2) tok_text.simps(3))
  show "x \<noteq> NUL \<Longrightarrow> match_one ic eqs (Some (x # xs)) (tok_text t @ g) = (if tok_matches ic t x then match_one ic eqs (Some xs) g else Some False)"
    using assms match_members [of _ _ ic eqs "Some (x # xs)" g] 
    by (cases t) (auto simp: glob_special_def simp del: tok_ok.simps(2) tok_text.simps(3))
  show "match_one ic eqs (Some []) (tok_text t @ g) = (if inverted t then match_one ic eqs None g else Some False)"
    using assms match_members [of _ _ ic eqs "Some []" g] in_members_NUL c
    by (cases t) (auto simp: glob_special_def inverted_def simp del: tok_ok.simps(2) tok_text.simps(3))
qed

lemma glob_text_Cons: "glob_text (t # ts) = tok_text t @ glob_text ts"
  by (simp add: glob_text_def)

lemma glob_text_Nil [simp]: "glob_text [] = []"
  by (simp add: glob_text_def)

lemma tok_text_not_Nil [simp]: "tok_text t \<noteq> []"
  by (cases t) auto

lemma glob_text_empty [simp]: "glob_text ts = [] \<longleftrightarrow> ts = []"
  by (cases ts) (auto simp: glob_text_Cons)

lemma match_past_end:
  assumes "glob_ok ts" "ts \<noteq> [Star]"
  shows "match_one ic eqs None (glob_text ts) = None"
proof (cases ts)
  case (Cons t ts')
  then show ?thesis using assms match_tok(1) [of t ic eqs] by (cases "t = Star") (auto simp: glob_text_Cons)
qed simp

definition agrees :: "bool option \<Rightarrow> bool \<Rightarrow> gtok list \<Rightarrow> bool" where
  "agrees r b ts \<longleftrightarrow> r = Some b \<or> r = None \<and> list_ex inverted ts"

lemma gmatch_Star: "gmatch ic (Star # ts) s \<longleftrightarrow> (\<exists>k\<le>length s. gmatch ic ts (drop k s))"
  by (auto simp: list_ex_iff less_Suc_eq_le simp del: upt_Suc)

lemma gmatch_Star_Cons: "gmatch ic (Star # ts) (x # xs) \<longleftrightarrow> gmatch ic ts (x # xs) \<or> gmatch ic (Star # ts) xs"
  unfolding gmatch_Star by (auto simp: less_Suc_eq_le Suc_le_eq) (metis drop0 drop_Suc_Cons not0_implies_Suc Suc_le_mono le_zero_eq zero_le)+

lemma gmatch_tok_Nil: "t \<noteq> Star \<Longrightarrow> \<not> gmatch ic (t # ts) []"
  by simp

lemma gmatch_seek: "gmatch ic (Star # Lit c # ts) (seek ic c s) = gmatch ic (Star # Lit c # ts) s"
proof (induction s)
  case (Cons x xs)
  then show ?case using gmatch_Star_Cons [of ic "Lit c # ts" x xs] by (simp add: seek_def del: gmatch.simps) simp
qed (simp add: seek_def)

lemma seekable_tok: "seekable (hd (tok_text t @ g)) \<Longrightarrow> t \<noteq> Star \<Longrightarrow> \<exists>c. t = Lit c \<and> hd (tok_text t @ g) = c"
  by (cases t) (auto simp: seekable_def)

lemma star_agrees:
  assumes IH: "\<And>s. NUL \<notin> set s \<Longrightarrow> agrees (match_one ic eqs (Some s) (glob_text (t # ts))) (gmatch ic (t # ts) s) (t # ts)"
    and t: "t \<noteq> Star" and s: "NUL \<notin> set s"
  shows "agrees (star ic eqs (Some s) (glob_text (t # ts))) (gmatch ic (Star # t # ts) s) (t # ts)"
  using s
proof (induction s rule: length_induct)
  case (1 s)
  let ?g = "glob_text (t # ts)"
  show ?case
  proof (cases s)
    case Nil
    then show ?thesis using t by (simp add: agrees_def)
  next
    case (Cons x xs)
    define q where "q = (if seekable (hd ?g) then seek ic (hd ?g) s else s)"
    have q: "gmatch ic (Star # t # ts) s = gmatch ic (Star # t # ts) q"
    proof (cases "seekable (hd ?g)")
      case True
      then obtain c where "t = Lit c" "hd ?g = c" using seekable_tok [of t "glob_text ts"] t unfolding glob_text_Cons by blast
      then show ?thesis using True gmatch_seek [of ic c ts s] by (simp add: q_def del: gmatch.simps)
    qed (simp add: q_def)
    have sub: "set q \<subseteq> set s" by (auto simp: q_def seek_def dest: set_dropWhileD)
    have l: "length q \<le> length s" by (simp add: q_def seek_def length_dropWhile_le)
    have st: "star ic eqs (Some s) ?g = (case q of [] \<Rightarrow> Some False | y # ys \<Rightarrow>
        (case match_one ic eqs (Some (y # ys)) ?g of None \<Rightarrow> None | Some True \<Rightarrow> Some True | Some False \<Rightarrow> star ic eqs (Some ys) ?g))"
      unfolding Cons q_def by simp
    show ?thesis
    proof (cases q)
      case Nil
      then show ?thesis using t q st by (simp add: agrees_def)
    next
      case (Cons y ys)
      have n: "NUL \<notin> set (y # ys)" "length ys < length s" using sub l 1(2) Cons by auto
      have a: "agrees (match_one ic eqs (Some (y # ys)) ?g) (gmatch ic (t # ts) (y # ys)) (t # ts)" using n(1) by (rule IH)
      have b: "agrees (star ic eqs (Some ys) ?g) (gmatch ic (Star # t # ts) ys) (t # ts)" using 1(1) n by simp
      show ?thesis using a b unfolding st q Cons gmatch_Star_Cons agrees_def
        by (auto split: option.splits bool.splits simp del: gmatch.simps)
    qed
  qed
qed

lemma match_agrees:
  "glob_ok ts \<Longrightarrow> NUL \<notin> set s \<Longrightarrow> agrees (match_one ic eqs (Some s) (glob_text ts)) (gmatch ic ts s) ts"
proof (induction ts arbitrary: s)
  case Nil
  then show ?case by (cases s) (auto simp: agrees_def)
next
  case (Cons t ts)
  show ?case
  proof (cases "t = Star")
    case True
    then show ?thesis
    proof (cases ts)
      case Nil
      moreover have "gmatch ic [Star] s" unfolding gmatch_Star by (rule exI [of _ "length s"]) simp
      ultimately show ?thesis using True by (simp add: agrees_def glob_text_Cons del: gmatch.simps)
    next
      case (Cons t' ts')
      then have "t' \<noteq> Star" using Cons.prems True by simp
      then have "agrees (star ic eqs (Some s) (glob_text ts)) (gmatch ic (Star # ts) s) ts"
        unfolding Cons using Cons.IH Cons.prems by (intro star_agrees) (simp_all add: Cons del: gmatch.simps)
      then show ?thesis using True Cons by (simp add: agrees_def glob_text_Cons inverted_def del: gmatch.simps)
    qed
  next
    case False
    have "glob_ok ts" "tok_ok t" using Cons.prems by simp_all
    then show ?thesis 
    proof (cases s)
      case Nil
      have "inverted t \<Longrightarrow> match_one ic eqs None (glob_text ts) = None"
        using Cons.prems match_past_end [of ts] by (cases t) (auto simp: inverted_def)
      then show ?thesis using match_tok(3) [OF \<open>tok_ok t\<close> False] False Nil by (simp add: agrees_def glob_text_Cons)
    next
      case (Cons x xs)
      then show ?thesis
        using match_tok(2) [OF \<open>tok_ok t\<close> False, of x ic eqs xs] Cons.IH [of xs] Cons.prems False
        by (cases "tok_matches ic t x") (auto simp: agrees_def glob_text_Cons)
    qed
  qed
qed

text \<open>
  C22. \<open>match_one\<close> gives the declarative meaning of the pattern, with both settings of
  \<open>BK_GLOB_EQUAL\<close>; the quick search for the character after a star loses no match.  The patterns
  are those of \<open>glob_ok\<close>: no two stars in a row, no inverted set directly before a final star, and
  none of the characters \<open>] - ^\<close> as a member of a set.  Only an inverted set can make the matcher read
  beyond the end of the string.
\<close>

theorem match_one_meaning:
  assumes "glob_ok ts" "NUL \<notin> set s"
  shows "match_one ic eqs (Some s) (glob_text ts) = Some (gmatch ic ts s) \<or>
    match_one ic eqs (Some s) (glob_text ts) = None \<and> list_ex inverted ts"
  using match_agrees [OF assms] by (simp add: agrees_def)

theorem match_one_meaning_witness:
  "match_one False False (Some ''a/s.x'') ''*/s.[a-z]'' = Some True"
proof -
  let ?s = "''a/s.x''"
  let ?ts = "[Star, Lit CHR ''/'', Lit CHR ''s'', Lit CHR ''.'', Members False [(CHR ''a'', CHR ''z'')]]"
  have g: "glob_ok ?ts" "NUL \<notin> set ?s" by code_simp+
  have "glob_text ?ts = ''*/s.[a-z]''" "gmatch False ?ts ?s" "\<not> list_ex inverted ?ts" by code_simp+
  then show ?thesis using match_one_meaning [OF g, of False False] by simp
qed

text \<open>A pattern without stars that matches a string leaves the matcher at the end of the string.\<close>

definition starless :: "gtok list \<Rightarrow> bool" where
  "starless ts \<longleftrightarrow> (\<forall>t\<in>set ts. tok_ok t \<and> t \<noteq> Star)"

lemma match_prefix:
  "starless ts \<Longrightarrow> gmatch ic ts s \<Longrightarrow> NUL \<notin> set s \<Longrightarrow> match_one ic eqs (Some s) (glob_text ts @ g) = match_one ic eqs (Some []) g"
proof (induction ts arbitrary: s)
  case (Cons t ts)
  then obtain x xs where s: "s = x # xs" "tok_matches ic t x" "gmatch ic ts xs" by (cases s) (auto simp: starless_def)
  have "match_one ic eqs (Some (x # xs)) (tok_text t @ glob_text ts @ g) = match_one ic eqs (Some xs) (glob_text ts @ g)"
    using match_tok(2) [of t x ic eqs xs "glob_text ts @ g"] Cons.prems s by (auto simp: starless_def)
  then show ?case using Cons s by (simp add: glob_text_Cons starless_def)
qed simp

lemma gmatch_prefix: "starless ts \<Longrightarrow> gmatch ic ts s \<Longrightarrow> gmatch ic (ts @ us) s = gmatch ic us []"
proof (induction ts arbitrary: s)
  case (Cons t ts)
  then show ?case by (cases s) (auto simp: starless_def)
qed simp

lemma glob_text_append: "glob_text (ts @ us) = glob_text ts @ glob_text us"
  by (simp add: glob_text_def)

lemma gmatch_stars: "gmatch ic (replicate n Star) []"
  by (induction n) auto

text \<open>
  C23. The ends of strings and patterns are not handled.  Let a part of the pattern without stars
  match the whole string.  An inverted set that comes next matches the terminating NUL: with a
  final star after it the pattern matches although its meaning is another, and with anything else
  after it, or nothing, the matcher reads beyond the string.  A final backslash that comes next reads
  beyond the pattern.  Two or more stars that come next do not match, although their meaning does.
\<close>

theorem match_one_ends:
  assumes pre: "starless ts" "gmatch ic ts s" "NUL \<notin> set s" and set: "tok_ok (Members True ms)" and rest: "glob_ok us" "us \<noteq> [Star]"
  shows "match_one ic eqs (Some s) (glob_text (ts @ [Members True ms, Star])) = Some True \<and> \<not> gmatch ic (ts @ [Members True ms, Star]) s \<and>
    match_one ic eqs (Some s) (glob_text (ts @ Members True ms # us)) = None \<and>
    match_one ic eqs (Some s) (glob_text ts @ [CHR 0x5C]) = None \<and>
    match_one ic eqs (Some s) (glob_text (ts @ replicate (n + 2) Star)) = Some False \<and> gmatch ic (ts @ replicate (n + 2) Star) s"
proof -
  let ?t = "Members True ms"
  have past: "match_one ic eqs (Some []) (tok_text ?t @ g) = match_one ic eqs None g" for g
    using match_tok(3) [OF set, of ic eqs g] by (simp add: inverted_def del: tok_text.simps)
  note at_end = match_prefix [OF pre] and means = gmatch_prefix [OF pre(1,2)]
  have "match_one ic eqs (Some s) (glob_text (ts @ [?t, Star])) = match_one ic eqs None (glob_text [Star])"
    unfolding glob_text_append at_end glob_text_Cons [of ?t] past ..
  then have a: "match_one ic eqs (Some s) (glob_text (ts @ [?t, Star])) = Some True" by (simp add: glob_text_Cons)
  have b: "\<not> gmatch ic (ts @ [?t, Star]) s" unfolding means by simp
  have c: "match_one ic eqs (Some s) (glob_text (ts @ ?t # us)) = None"
    unfolding glob_text_append at_end glob_text_Cons past by (rule match_past_end [OF rest])
  have d: "match_one ic eqs (Some s) (glob_text ts @ [CHR 0x5C]) = None" unfolding at_end by simp
  have "match_one ic eqs (Some []) (glob_text (Star # Star # us')) = Some False" for us' by (simp add: glob_text_Cons)
  then have e: "match_one ic eqs (Some s) (glob_text (ts @ replicate (n + 2) Star)) = Some False"
    unfolding glob_text_append at_end by simp
  have f: "gmatch ic (ts @ replicate (n + 2) Star) s" unfolding means by (rule gmatch_stars)
  from a b c d e f show ?thesis by blast
qed

theorem match_one_ends_witness:
  "match_one False False (Some ''x'') ''x[^a]*'' = Some True \<and> match_one False False (Some ''x'') ''x[^a]'' = None \<and>
   match_one False False (Some ''x'') ''x**'' = Some False"
proof -
  have h: "starless [Lit CHR ''x'']" "gmatch False [Lit CHR ''x''] ''x''" "NUL \<notin> set ''x''" "tok_ok (Members True [(CHR ''a'', CHR ''a'')])" "glob_ok []"
    by (code_simp | simp add: starless_def NUL_def)+
  have t: "glob_text ([Lit CHR ''x''] @ [Members True [(CHR ''a'', CHR ''a'')], Star]) = ''x[^a]*''"
    "glob_text ([Lit CHR ''x''] @ Members True [(CHR ''a'', CHR ''a'')] # []) = ''x[^a]''" "glob_text ([Lit CHR ''x''] @ replicate (0 + 2) Star) = ''x**''"
    by code_simp+
  from match_one_ends [OF h, of False 0, unfolded t] show ?thesis by simp
qed

end
