(* ===== verification/BK_Getopt.thy ===== *)
theory BK_Getopt
  imports BK_Prelude
begin

text \<open>
  The option parser (\<open>libc/utils/getopt.c\<close>).  Its global variables are a record.  A call returns
  the new state and the returned integer, ends the program (\<open>--usage\<close>), or faults: a failing
  assertion or a read outside the argument vector or beyond the end of an argument.  An option letter
  is returned as the value of a signed \<open>char\<close>.
\<close>

section \<open>Model\<close>

record getopt_st =
  optopt :: char
  optind :: int
  optarg :: "string option"
  pos :: nat
  lastn :: nat

record longopt =
  lname :: string
  lret :: int

datatype outcome = Ret getopt_st int | Exits | Fault

definition EOF :: int where "EOF = -1"
definition GETOPT_ERR :: int where "GETOPT_ERR = 256"
definition GETOPT_NOARG :: int where "GETOPT_NOARG = 257"

definition getoptReset :: "getopt_st \<Rightarrow> getopt_st" where
  "getoptReset st = st\<lparr>optopt := NUL, optind := 0, optarg := None\<rparr>"

definition getoptConsumed :: "nat \<Rightarrow> getopt_st \<Rightarrow> getopt_st" where
  "getoptConsumed n1 st =
     (let i = optind st - 1
      in st\<lparr>optind := (if i = 0 then 1 else i), pos := lastn st + n1\<rparr>)"

definition opt_suffix :: "char \<Rightarrow> bool" where
  "opt_suffix c \<longleftrightarrow> c = CHR '':'' \<or> c = CHR '';'' \<or> c = CHR ''|''"

definition opt_char :: "char \<Rightarrow> int" where
  "opt_char c = schar c"

text \<open>The length of an option word without its value, and of a name without its suffix.\<close>

definition word_len :: "string \<Rightarrow> nat" where
  "word_len s =
     (if CHR ''='' \<in> set s then length (takeWhile (\<lambda>c. c \<noteq> CHR ''='') s)
      else length (takeWhile (\<lambda>c. c \<noteq> CHR '':'') s))"

definition name_len :: "string \<Rightarrow> nat" where
  "name_len t = (if opt_suffix (last t) then length t - 1 else length t)"

text \<open>The search for the name; an empty name makes it read before the name.\<close>

fun find_long :: "string \<Rightarrow> longopt list \<Rightarrow> longopt option option" where
  "find_long s [] = Some None"
| "find_long s (l # ls) =
     (if lname l = [] then None
      else if word_len s = name_len (lname l) \<and> take (word_len s) s = take (word_len s) (lname l) then Some (Some l)
      else find_long s ls)"

definition missing_word :: "string list \<Rightarrow> nat \<Rightarrow> bool" where
  "missing_word av i \<longleftrightarrow> i + 1 = length av \<or> nth_char (av ! (i + 1)) 0 = CHR ''-''"

definition long_err :: "int \<Rightarrow> getopt_st \<Rightarrow> outcome" where
  "long_err err st = Ret (st\<lparr>pos := 1, optind := optind st + 1, optopt := NUL\<rparr>) err"

definition doLong :: "string list \<Rightarrow> longopt list option \<Rightarrow> getopt_st \<Rightarrow> outcome" where
  "doLong av lopts st =
     (case lopts of
        None \<Rightarrow> long_err GETOPT_ERR st
      | Some ls \<Rightarrow>
          (let i = nat (optind st); s = drop 2 (av ! i)
           in case find_long s ls of
                None \<Rightarrow> Fault
              | Some None \<Rightarrow> long_err GETOPT_ERR st
              | Some (Some l) \<Rightarrow>
                  (let s = drop (word_len s) s;
                       t = nth_char (lname l) (name_len (lname l));
                       joined = (nth_char s 0 = CHR ''='' \<or> nth_char s 0 = CHR '':'')
                   in if t = NUL then
                        if joined then long_err GETOPT_ERR st
                        else Ret (st\<lparr>optind := optind st + 1, pos := 1\<rparr>) (lret l)
                      else if joined then Ret (st\<lparr>optarg := Some (tl s), optind := optind st + 1, pos := 1\<rparr>) (lret l)
                      else if t = CHR ''|'' then Ret (st\<lparr>optind := optind st + 1, pos := 1\<rparr>) (lret l)
                      else if t = CHR '';'' then long_err GETOPT_NOARG st
                      else if missing_word av i then long_err GETOPT_NOARG st
                      else Ret (st\<lparr>optarg := Some (av ! (i + 1)), optind := optind st + 2, pos := 1\<rparr>) (lret l))))"

text \<open>\<open>for (t = opts; *t; t++) if (*t == av[optind][n]) break;\<close>: the options from there on.\<close>

definition find_opt :: "string \<Rightarrow> char \<Rightarrow> string" where
  "find_opt opts c = dropWhile (\<lambda>t. t \<noteq> c) opts"

text \<open>The next letter of the same word, or the next word.\<close>

definition advance :: "string \<Rightarrow> getopt_st \<Rightarrow> getopt_st" where
  "advance w st =
     (if nth_char w (pos st + 1) \<noteq> NUL then st\<lparr>lastn := pos st, pos := pos st + 1\<rparr>
      else st\<lparr>lastn := pos st, pos := 1, optind := optind st + 1\<rparr>)"

definition doShort :: "string list \<Rightarrow> string \<Rightarrow> getopt_st \<Rightarrow> outcome" where
  "doShort av opts st =
     (let i = nat (optind st); w = av ! i; n = pos st; c = nth_char w n
      in if n \<ge> length w then Fault
         else
           (let t = find_opt opts c; sfx = nth_char t 1; next = st\<lparr>optind := optind st + 1, lastn := n, pos := 1\<rparr>
            in if t = [] then Ret (advance w (st\<lparr>optopt := c\<rparr>)) GETOPT_ERR
               else if \<not> opt_suffix sfx then Ret (advance w st) (opt_char (hd t))
               else if nth_char w (n + 1) \<noteq> NUL then Ret (next\<lparr>optarg := Some (drop (n + 1) w)\<rparr>) (opt_char (hd t))
               else if sfx = CHR ''|'' then Ret next (opt_char (hd t))
               else if sfx = CHR '';'' then Ret (st\<lparr>optind := optind st + 1, optopt := hd t\<rparr>) GETOPT_NOARG
               else if missing_word av i then Ret (st\<lparr>optopt := c\<rparr>) GETOPT_NOARG
               else Ret (st\<lparr>optarg := Some (av ! (i + 1)), optind := optind st + 2, lastn := n, pos := 1\<rparr>) (opt_char (hd t))))"

definition getopt :: "string list \<Rightarrow> string \<Rightarrow> longopt list option \<Rightarrow> getopt_st \<Rightarrow> outcome" where
  "getopt av opts lopts st =
     (let st = st\<lparr>optarg := None, optopt := NUL\<rparr>;
          st = (if optind st = 0 then st\<lparr>optind := 1, lastn := pos st, pos := 1\<rparr> else st)
      in if optind st \<ge> int (length av) then Ret st EOF
         else if optind st < 0 then Fault
         else
           (let w = av ! nat (optind st)
            in if nth_char w 0 \<noteq> CHR ''-'' \<or> nth_char w 1 = NUL then Ret st EOF
               else if w = ''--'' then Ret (st\<lparr>optind := optind st + 1, lastn := pos st, pos := 1\<rparr>) EOF
               else if w = ''--usage'' then Exits
               else if take 2 w = ''--'' then doLong av lopts st
               else doShort av opts st))"

text \<open>
  The loop of the callers, \<open>while ((c = getopt(...)) != -1)\<close>, that leaves it on a missing
  argument: the options with their arguments, and the state at the end.
\<close>

partial_function (option) scan ::
  "string list \<Rightarrow> string \<Rightarrow> longopt list option \<Rightarrow> getopt_st \<Rightarrow> ((int \<times> string option) list \<times> outcome) option" where
  "scan av opts lopts st =
     (case getopt av opts lopts st of
        Ret st' c \<Rightarrow>
          if c = EOF \<or> c = GETOPT_NOARG then Some ([], Ret st' c)
          else
            Option.bind (scan av opts lopts st') (\<lambda>(os, r). Some ((c, optarg st') # os, r))
      | Exits \<Rightarrow> Some ([], Exits)
      | Fault \<Rightarrow> Some ([], Fault))"

section \<open>Progress\<close>

definition opt_room :: "string list \<Rightarrow> getopt_st \<Rightarrow> nat" where
  "opt_room av st = sum_list (map (\<lambda>w. length w + 1) (drop (nat (optind st)) av)) - pos st"

definition short_word :: "string \<Rightarrow> bool" where
  "short_word w \<longleftrightarrow> 2 \<le> length w \<and> w ! 0 = CHR ''-'' \<and> w ! 1 \<noteq> CHR ''-''"

definition opt_ok :: "string list \<Rightarrow> getopt_st \<Rightarrow> bool" where
  "opt_ok av st \<longleftrightarrow> 1 \<le> optind st \<and>
     (pos st = 1 \<or> 1 \<le> pos st \<and> optind st < int (length av) \<and> short_word (av ! nat (optind st)) \<and> pos st < length (av ! nat (optind st)))"

definition args_ok :: "string list \<Rightarrow> longopt list option \<Rightarrow> bool" where
  "args_ok av lopts \<longleftrightarrow> list_all (\<lambda>w. NUL \<notin> set w) av \<and> (case lopts of None \<Rightarrow> True | Some ls \<Rightarrow> list_all (\<lambda>l. lname l \<noteq> []) ls)"

lemma opt_room_word:
  assumes "0 \<le> optind st" "optind st < int (length av)"
  shows "sum_list (map (\<lambda>w. length w + 1) (drop (nat (optind st)) av)) =
    length (av ! nat (optind st)) + 1 + sum_list (map (\<lambda>w. length w + 1) (drop (Suc (nat (optind st))) av))"
  using assms by (subst Cons_nth_drop_Suc [symmetric]) auto

lemma next_room:
  assumes "0 \<le> optind st" "optind st < int (length av)" "pos st < length (av ! nat (optind st))"
    "optind st < optind st'" "pos st' = 1"
  shows "opt_room av st' < opt_room av st"
proof -
  have "drop (nat (optind st')) av = drop (nat (optind st') - Suc (nat (optind st))) (drop (Suc (nat (optind st))) av)"
    using assms(1,4) by simp
  then have "sum_list (map (\<lambda>w. length w + 1) (drop (nat (optind st')) av)) \<le> sum_list (map (\<lambda>w. length w + 1) (drop (Suc (nat (optind st))) av))"
    by (metis (no_types, lifting) append_take_drop_id le_add2 map_append sum_list_append)
  then show ?thesis using opt_room_word [OF assms(1,2)] assms(3,5) unfolding opt_room_def by linarith
qed

lemma same_word_room:
  assumes "0 \<le> optind st" "optind st < int (length av)" "pos st < length (av ! nat (optind st))"
    "optind st' = optind st" "pos st' = pos st + 1"
  shows "opt_room av st' < opt_room av st"
  using opt_room_word [OF assms(1,2)] assms(3) unfolding opt_room_def assms(4,5) by linarith

lemma nth_char_end: "NUL \<notin> set w \<Longrightarrow> nth_char w n = NUL \<longleftrightarrow> length w \<le> n"
  by (auto simp: nth_char_def) (metis nth_mem not_le)

lemma find_long_total: "list_all (\<lambda>l. lname l \<noteq> []) ls \<Longrightarrow> find_long s ls \<noteq> None"
  by (induction ls) auto

definition steps_to :: "string list \<Rightarrow> getopt_st \<Rightarrow> outcome \<Rightarrow> bool" where
  "steps_to av st r \<longleftrightarrow> (case r of Ret st' c \<Rightarrow> c = EOF \<or> c = GETOPT_NOARG \<or> opt_ok av st' \<and> opt_room av st' < opt_room av st
     | Exits \<Rightarrow> True | Fault \<Rightarrow> False)"

lemma doLong_steps:
  assumes "args_ok av lopts" "1 \<le> optind st" "optind st < int (length av)" "pos st < length (av ! nat (optind st))"
  shows "steps_to av st (doLong av lopts st)"
proof -
  have n: "steps_to av st (Ret st' c)" if "optind st < optind st'" "pos st' = 1" for st' c
    using next_room [of st av st'] assms(2-4) that by (auto simp: steps_to_def opt_ok_def)
  show ?thesis
  proof (cases lopts)
    case (Some ls)
    obtain m where "find_long (drop 2 (av ! nat (optind st))) ls = Some m"
      using assms(1) Some find_long_total by (fastforce simp: args_ok_def)
    then show ?thesis unfolding doLong_def long_err_def Let_def Some by (auto intro: n split: option.split)
  qed (auto simp: doLong_def long_err_def intro: n)
qed

lemma advance_steps:
  assumes "args_ok av lopts" "1 \<le> optind st" "optind st < int (length av)" "1 \<le> pos st" "pos st < length (av ! nat (optind st))"
    "short_word (av ! nat (optind st))"
  shows "steps_to av st (Ret (advance (av ! nat (optind st)) (st\<lparr>optopt := o'\<rparr>)) c)"
proof -
  have w: "NUL \<notin> set (av ! nat (optind st))" using assms(1-3) by (simp add: args_ok_def list_all_length)
  show ?thesis
    using assms next_room [of st av] same_word_room [of st av] nth_char_end [OF w]
    by (auto simp: steps_to_def advance_def opt_ok_def)
qed

lemma doShort_steps:
  assumes "args_ok av lopts" "1 \<le> optind st" "optind st < int (length av)" "1 \<le> pos st" "pos st < length (av ! nat (optind st))"
    "short_word (av ! nat (optind st))"
  shows "steps_to av st (doShort av opts st)"
proof -
  have n: "steps_to av st (Ret st' c)" if "optind st < optind st'" "pos st' = 1" for st' c
    using next_room [of st av st'] assms that by (auto simp: steps_to_def opt_ok_def)
  have a: "steps_to av st (Ret (advance (av ! nat (optind st)) st) c)" for c
    using advance_steps [OF assms, of "optopt st"] by simp
  show ?thesis
    unfolding doShort_def Let_def using assms(5)
    by (auto intro: n a advance_steps [OF assms] simp: steps_to_def [of _ _ "Ret _ GETOPT_NOARG"])
qed


lemma getopt_steps:
  assumes "args_ok av lopts" "opt_ok av st"
  shows "steps_to av st (getopt av opts lopts st)"
proof -
  let ?st = "st\<lparr>optarg := None, optopt := NUL\<rparr>"
  let ?w = "av ! nat (optind st)"
  have i: "1 \<le> optind st" "1 \<le> pos st" using assms(2) by (auto simp: opt_ok_def)
  have "opt_room av ?st = opt_room av st" by (simp add: opt_room_def)
  then have r: "steps_to av ?st = steps_to av st" by (simp add: steps_to_def fun_eq_iff split: outcome.split)
  show ?thesis
  proof (cases "optind st < int (length av)")
    case True
    have nul: "NUL \<notin> set ?w" using assms(1) True i by (simp add: args_ok_def list_all_length)
    have p: "pos st < length ?w" if "nth_char ?w 0 = CHR ''-''" "nth_char ?w 1 \<noteq> NUL"
      using assms(2) that by (auto simp: opt_ok_def nth_char_end [OF nul])
    have s: "short_word ?w" if "nth_char ?w 0 = CHR ''-''" "nth_char ?w 1 \<noteq> NUL" "take 2 ?w \<noteq> ''--''"
    proof -
      from that(2) obtain a b w' where "?w = a # b # w'"
        by (cases ?w rule: remdups_adj.cases) (auto simp: nth_char_def)
      then show ?thesis using that by (auto simp: short_word_def nth_char_def)
    qed
    show ?thesis
      unfolding getopt_def Let_def
      using i True p s doLong_steps [OF assms(1), of ?st] doShort_steps [OF assms(1), of ?st opts]
      by (auto simp: r steps_to_def [of _ _ "Ret _ EOF"] steps_to_def [of _ _ Exits])
  next
    case False
    then show ?thesis using i by (simp add: getopt_def steps_to_def)
  qed
qed

lemma getopt_start:
  "optind st = 0 \<Longrightarrow> getopt av opts lopts st = getopt av opts lopts (st\<lparr>optind := 1, lastn := pos st, pos := 1\<rparr>)"
  by (cases st) (simp add: getopt_def)

lemma scan_start:
  "optind st = 0 \<Longrightarrow> scan av opts lopts st = scan av opts lopts (st\<lparr>optind := 1, lastn := pos st, pos := 1\<rparr>)"
  by (simp only: scan.simps [of av opts lopts st] scan.simps [of av opts lopts "st\<lparr>optind := 1, lastn := pos st, pos := 1\<rparr>"] getopt_start)

lemma scan_total:
  assumes "args_ok av lopts"
  shows "opt_ok av st \<Longrightarrow> \<exists>os r. scan av opts lopts st = Some (os, r) \<and> r \<noteq> Fault \<and> length os \<le> opt_room av st"
proof (induction "opt_room av st" arbitrary: st rule: less_induct)
  case less
  have s: "steps_to av st (getopt av opts lopts st)" using assms less.prems by (rule getopt_steps)
  show ?case
  proof (cases "getopt av opts lopts st")
    case (Ret st' c)
    show ?thesis
    proof (cases "c = EOF \<or> c = GETOPT_NOARG")
      case True
      then show ?thesis using Ret by (subst scan.simps) simp
    next
      case False
      then have "opt_ok av st'" "opt_room av st' < opt_room av st" using s Ret by (auto simp: steps_to_def)
      moreover from this obtain os r where "scan av opts lopts st' = Some (os, r)" "r \<noteq> Fault" "length os \<le> opt_room av st'"
        using less.hyps by blast
      ultimately show ?thesis using Ret False by (subst scan.simps) simp
    qed
  next
    case Exits
    then show ?thesis by (subst scan.simps) simp
  next
    case Fault
    then show ?thesis using s by (simp add: steps_to_def)
  qed
qed

text \<open>
  C24. Scanning the arguments ends, without a failing assertion and without reading outside the arguments:
  every call that returns an option or an unknown option moves forward, so there are at most as many as
  the words after the first have characters.
\<close>

theorem scan_ends:
  assumes "args_ok av lopts" "optind st = 0"
  shows "\<exists>os r. scan av opts lopts st = Some (os, r) \<and> r \<noteq> Fault \<and>
    length os \<le> sum_list (map (\<lambda>w. length w + 1) (drop 1 av))"
proof -
  have "opt_ok av (st\<lparr>optind := 1, lastn := pos st, pos := 1\<rparr>)" by (simp add: opt_ok_def)
  from scan_total [OF assms(1) this, of opts] show ?thesis
    unfolding scan_start [OF assms(2)] by (auto simp: opt_room_def)
qed

section \<open>The documented forms\<close>

text \<open>
  The forms of options in the comment of the source: letters without arguments in one word, the
  same with a last letter that takes the rest of the word or the next word as its argument or whose
  optional argument is absent, and long options without an argument, with one after an equal sign
  or a colon, or in the next word.
\<close>

datatype item =
  Letters string
| Joined string char string
| Separate string char string
| Bare string char
| LongFlag longopt
| LongJoined longopt string
| LongColon longopt string
| LongSeparate longopt string

definition base_name :: "longopt \<Rightarrow> string" where
  "base_name l = take (name_len (lname l)) (lname l)"

fun item_words :: "item \<Rightarrow> string list" where
  "item_words (Letters fs) = [CHR ''-'' # fs]"
| "item_words (Joined fs c a) = [CHR ''-'' # fs @ c # a]"
| "item_words (Separate fs c a) = [CHR ''-'' # fs @ [c], a]"
| "item_words (Bare fs c) = [CHR ''-'' # fs @ [c]]"
| "item_words (LongFlag l) = [''--'' @ base_name l]"
| "item_words (LongJoined l a) = [''--'' @ base_name l @ ''='' @ a]"
| "item_words (LongColon l a) = [''--'' @ base_name l @ '':'' @ a]"
| "item_words (LongSeparate l a) = [''--'' @ base_name l, a]"

definition letters_result :: "string \<Rightarrow> (int \<times> string option) list" where
  "letters_result fs = map (\<lambda>f. (opt_char f, None)) fs"

fun item_result :: "item \<Rightarrow> (int \<times> string option) list" where
  "item_result (Letters fs) = letters_result fs"
| "item_result (Joined fs c a) = letters_result fs @ [(opt_char c, Some a)]"
| "item_result (Separate fs c a) = letters_result fs @ [(opt_char c, Some a)]"
| "item_result (Bare fs c) = letters_result fs @ [(opt_char c, None)]"
| "item_result (LongFlag l) = [(lret l, None)]"
| "item_result (LongJoined l a) = [(lret l, Some a)]"
| "item_result (LongColon l a) = [(lret l, Some a)]"
| "item_result (LongSeparate l a) = [(lret l, Some a)]"

definition opt_kind :: "string \<Rightarrow> char \<Rightarrow> char option" where
  "opt_kind opts c = (if find_opt opts c = [] then None else Some (nth_char (find_opt opts c) 1))"

definition plain_opt :: "string \<Rightarrow> char \<Rightarrow> bool" where
  "plain_opt opts c \<longleftrightarrow> (case opt_kind opts c of None \<Rightarrow> False | Some k \<Rightarrow> \<not> opt_suffix k)"

definition long_ok :: "longopt list option \<Rightarrow> longopt \<Rightarrow> bool" where
  "long_ok lopts l \<longleftrightarrow> (case lopts of None \<Rightarrow> False
     | Some ls \<Rightarrow> base_name l \<noteq> [] \<and> base_name l \<noteq> ''usage'' \<and> CHR ''='' \<notin> set (base_name l) \<and> CHR '':'' \<notin> set (base_name l) \<and>
         find_long (base_name l) ls = Some (Some l) \<and> lret l \<noteq> EOF \<and> lret l \<noteq> GETOPT_NOARG)"

definition long_kind :: "longopt \<Rightarrow> char" where
  "long_kind l = nth_char (lname l) (name_len (lname l))"

text \<open>
  The letter 0xFF is returned as -1, which is \<open>EOF\<close>; it cannot be an option.  An argument after a
  colon has no equal sign, because the parser looks for that first.
\<close>

definition letters_ok :: "string \<Rightarrow> string \<Rightarrow> bool" where
  "letters_ok opts fs \<longleftrightarrow> list_all (\<lambda>c. plain_opt opts c \<and> c \<noteq> CHR 0xFF) fs"

definition last_ok :: "string \<Rightarrow> string \<Rightarrow> char \<Rightarrow> bool" where
  "last_ok opts fs c \<longleftrightarrow> letters_ok opts fs \<and> hd (fs @ [c]) \<noteq> CHR ''-'' \<and> c \<noteq> CHR 0xFF"

fun item_ok :: "string \<Rightarrow> longopt list option \<Rightarrow> item \<Rightarrow> bool" where
  "item_ok opts lopts (Letters fs) \<longleftrightarrow> fs \<noteq> [] \<and> hd fs \<noteq> CHR ''-'' \<and> letters_ok opts fs"
| "item_ok opts lopts (Joined fs c a) \<longleftrightarrow> a \<noteq> [] \<and> last_ok opts fs c \<and>
     opt_kind opts c \<in> {Some CHR '':'', Some CHR '';'', Some CHR ''|''}"
| "item_ok opts lopts (Separate fs c a) \<longleftrightarrow> nth_char a 0 \<noteq> CHR ''-'' \<and> last_ok opts fs c \<and> opt_kind opts c = Some CHR '':''"
| "item_ok opts lopts (Bare fs c) \<longleftrightarrow> last_ok opts fs c \<and> opt_kind opts c = Some CHR ''|''"
| "item_ok opts lopts (LongFlag l) \<longleftrightarrow> long_ok lopts l \<and> long_kind l \<in> {NUL, CHR ''|''}"
| "item_ok opts lopts (LongJoined l a) \<longleftrightarrow> long_ok lopts l \<and> long_kind l \<noteq> NUL"
| "item_ok opts lopts (LongColon l a) \<longleftrightarrow> long_ok lopts l \<and> long_kind l \<noteq> NUL \<and> CHR ''='' \<notin> set a"
| "item_ok opts lopts (LongSeparate l a) \<longleftrightarrow> long_ok lopts l \<and> long_kind l = CHR '':'' \<and> nth_char a 0 \<noteq> CHR ''-''"

definition operand :: "string \<Rightarrow> bool" where
  "operand w \<longleftrightarrow> nth_char w 0 \<noteq> CHR ''-'' \<or> w = ''-''"

definition goes :: "string list \<Rightarrow> string \<Rightarrow> longopt list option \<Rightarrow> getopt_st \<Rightarrow> (int \<times> string option) list \<Rightarrow> getopt_st \<Rightarrow> bool" where
  "goes av opts lopts st os st' \<longleftrightarrow> scan av opts lopts st = map_option (\<lambda>(os', r). (os @ os', r)) (scan av opts lopts st')"

lemma goes_refl: "goes av opts lopts st [] st"
  by (cases "scan av opts lopts st") (auto simp: goes_def)

lemma goes_trans: "goes av opts lopts st os st' \<Longrightarrow> goes av opts lopts st' os' st'' \<Longrightarrow> goes av opts lopts st (os @ os') st''"
  by (cases "scan av opts lopts st''") (auto simp: goes_def)

lemma goes_step:
  "getopt av opts lopts st = Ret st' c \<Longrightarrow> c \<noteq> EOF \<Longrightarrow> c \<noteq> GETOPT_NOARG \<Longrightarrow> goes av opts lopts st [(c, optarg st')] st'"
  by (cases "scan av opts lopts st'") (auto simp: goes_def scan.simps [of av opts lopts st])

definition opt_at :: "getopt_st \<Rightarrow> nat \<Rightarrow> nat \<Rightarrow> bool" where
  "opt_at st i n \<longleftrightarrow> optind st = int i \<and> pos st = n \<and> 1 \<le> i"

lemma getopt_short:
  assumes "opt_at st i n" "i < length av" "short_word (av ! i)" "NUL \<notin> set (av ! i)"
  shows "getopt av opts lopts st = doShort av opts (st\<lparr>optarg := None, optopt := NUL\<rparr>)"
proof -
  obtain a b w where w: "av ! i = a # b # w" "a = CHR ''-''" "b \<noteq> CHR ''-''" "b \<noteq> NUL"
    using assms(3,4) by (cases "av ! i" rule: remdups_adj.cases) (auto simp: short_word_def)
  then show ?thesis using assms(1,2) by (simp add: getopt_def opt_at_def nth_char_def)
qed

lemma of_char_less_256: "(of_char c :: nat) < 256"
  using of_char_mod_256 [of c, where ?'a = nat] mod_less_divisor [of 256 "of_char c :: nat"] by simp

lemma of_char_bounds: "0 \<le> (of_char c :: int)" "(of_char c :: int) < 256"
proof -
  have "(of_char c :: int) = int (of_char c)" by (simp add: of_nat_of_char)
  moreover have "int (of_char c) < int 256" using of_char_less_256 [of c] by (simp only: of_nat_less_iff)
  ultimately show "0 \<le> (of_char c :: int)" "(of_char c :: int) < 256" by (simp_all del: of_nat_of_char)
qed

lemma opt_char_value: "opt_char c = (if (of_char c :: int) < 128 then of_char c else of_char c - 256)"
proof -
  note r = of_char_bounds [of c]
  show ?thesis
  proof (cases "(of_char c :: int) < 128")
    case True
    then show ?thesis using r unfolding opt_char_def schar_def by (simp add: signed_take_bit_int_eq_self)
  next
    case False
    then have "((of_char c :: int) + 128) mod 256 = of_char c - 128"
      using r mod_pos_pos_trivial [of "(of_char c :: int) - 128" 256] minus_mod_self2 [of "(of_char c :: int) + 128" 256] by simp
    then show ?thesis using False unfolding opt_char_def schar_def signed_take_bit_eq_take_bit_shift take_bit_eq_mod by simp
  qed
qed

lemma opt_char_EOF: "opt_char c = EOF \<longleftrightarrow> c = CHR 0xFF"
proof -
  have "c = CHR 0xFF \<longleftrightarrow> (of_char c :: int) = of_char CHR 0xFF" by (simp only: of_char_eq_iff)
  then have "c = CHR 0xFF \<longleftrightarrow> (of_char c :: int) = 255" by simp
  then show ?thesis using of_char_bounds(1) [of c] unfolding opt_char_value EOF_def by auto
qed

lemma opt_char_range: "c \<noteq> CHR 0xFF \<Longrightarrow> opt_char c \<noteq> EOF" "opt_char c \<noteq> GETOPT_NOARG"
  using of_char_bounds [of c] by (simp add: opt_char_EOF, simp add: opt_char_value GETOPT_NOARG_def)

lemma find_opt_hd: "find_opt opts c \<noteq> [] \<Longrightarrow> hd (find_opt opts c) = c"
  unfolding find_opt_def using hd_dropWhile [of "\<lambda>t. t \<noteq> c" opts] by simp

lemma drop_Cons_char:
  assumes "drop n s = c # w"
  shows "n < length s" "nth_char s n = c" "drop (Suc n) s = w" "length s = Suc n + length w"
proof -
  show n: "n < length s" using assms by (metis drop_all list.distinct(1) not_le)
  then show "nth_char s n = c" "drop (Suc n) s = w" using assms by (simp_all add: nth_char_def flip: Cons_nth_drop_Suc)
  then show "length s = Suc n + length w" using n by auto
qed

lemma advance_optarg [simp]: "optarg (advance w st) = optarg st"
  by (simp add: advance_def)

lemma letter_step:
  assumes "opt_at st i n" "i < length av" "short_word (av ! i)" "NUL \<notin> set (av ! i)" "1 \<le> n" "drop n (av ! i) = c # w" "plain_opt opts c" "c \<noteq> CHR 0xFF"
  shows "\<exists>st'. goes av opts lopts st [(opt_char c, None)] st' \<and> (if w = [] then opt_at st' (Suc i) 1 else opt_at st' i (Suc n))"
proof -
  let ?st = "st\<lparr>optarg := None, optopt := NUL\<rparr>"
  have n: "n < length (av ! i)" "nth_char (av ! i) n = c" "nth_char (av ! i) (n + 1) = NUL \<longleftrightarrow> w = []"
    using drop_Cons_char [OF assms(6)] nth_char_end [OF assms(4), of "n + 1"] by auto
  have f: "find_opt opts c \<noteq> []" "\<not> opt_suffix (nth_char (find_opt opts c) 1)"
    using assms(7) by (auto simp: plain_opt_def opt_kind_def split: if_splits)
  have "getopt av opts lopts st = Ret (advance (av ! i) ?st) (opt_char c)"
    using n f assms(1) find_opt_hd [OF f(1)] unfolding getopt_short [OF assms(1-4)]
    by (simp add: doShort_def opt_at_def Let_def)
  from goes_step [OF this opt_char_range(1) [OF assms(8)] opt_char_range(2)] have "goes av opts lopts st [(opt_char c, None)] (advance (av ! i) ?st)"
    by simp
  moreover have "if w = [] then opt_at (advance (av ! i) ?st) (Suc i) 1 else opt_at (advance (av ! i) ?st) i (Suc n)"
    using n assms(1) by (simp add: advance_def opt_at_def)
  ultimately show ?thesis by blast
qed

lemma letters_steps:
  assumes "i < length av" "short_word (av ! i)" "NUL \<notin> set (av ! i)"
  shows "opt_at st i n \<Longrightarrow> 1 \<le> n \<Longrightarrow> drop n (av ! i) = fs @ w \<Longrightarrow> letters_ok opts fs \<Longrightarrow> fs @ w \<noteq> [] \<Longrightarrow>
   \<exists>st'. goes av opts lopts st (letters_result fs) st' \<and> (if w = [] then opt_at st' (Suc i) 1 else opt_at st' i (n + length fs))"
proof (induction fs arbitrary: st n)
  case Nil
  then show ?case using goes_refl [of av opts lopts st] by (auto simp: letters_result_def)
next
  case (Cons f fs)
  obtain st1 where 1: "goes av opts lopts st [(opt_char f, None)] st1"
    "if fs @ w = [] then opt_at st1 (Suc i) 1 else opt_at st1 i (Suc n)"
    using letter_step [OF Cons.prems(1) assms Cons.prems(2), of f "fs @ w" opts lopts] Cons.prems(3,4) by (auto simp: letters_ok_def)
  show ?case
  proof (cases "fs @ w = []")
    case True
    then show ?thesis using 1 by (auto simp: letters_result_def)
  next
    case False
    have "drop (Suc n) (av ! i) = fs @ w" using drop_Cons_char(3) [of n "av ! i" f "fs @ w"] Cons.prems(3) by simp
    then obtain st2 where 2: "goes av opts lopts st1 (letters_result fs) st2"
      "if w = [] then opt_at st2 (Suc i) 1 else opt_at st2 i (Suc n + length fs)"
      using Cons.IH [of st1 "Suc n"] 1(2) False Cons.prems(4) by (auto simp: letters_ok_def)
    have "goes av opts lopts st (letters_result (f # fs)) st2"
      using goes_trans [OF 1(1) 2(1)] by (simp add: letters_result_def)
    then show ?thesis using 2(2) by auto
  qed
qed

lemma arg_step:
  assumes "opt_at st i n" "i < length av" "short_word (av ! i)" "NUL \<notin> set (av ! i)" "1 \<le> n" "drop n (av ! i) = c # w"
    "opt_kind opts c = Some k" "c \<noteq> CHR 0xFF"
  shows "w \<noteq> [] \<Longrightarrow> opt_suffix k \<Longrightarrow> \<exists>st'. goes av opts lopts st [(opt_char c, Some w)] st' \<and> opt_at st' (Suc i) 1"
    and "w = [] \<Longrightarrow> k = CHR '':'' \<Longrightarrow> Suc i < length av \<Longrightarrow> nth_char (av ! Suc i) 0 \<noteq> CHR ''-'' \<Longrightarrow>
      \<exists>st'. goes av opts lopts st [(opt_char c, Some (av ! Suc i))] st' \<and> opt_at st' (i + 2) 1"
    and "w = [] \<Longrightarrow> k = CHR ''|'' \<Longrightarrow> \<exists>st'. goes av opts lopts st [(opt_char c, None)] st' \<and> opt_at st' (Suc i) 1"
proof -
  let ?st = "st\<lparr>optarg := None, optopt := NUL\<rparr>"
  note range = opt_char_range(1) [OF assms(8)] opt_char_range(2)
  note d = drop_Cons_char [OF assms(6)]
  have n: "nth_char (av ! i) (n + 1) = NUL \<longleftrightarrow> w = []"
    using d nth_char_end [OF assms(4), of "n + 1"] by auto
  have f: "find_opt opts c \<noteq> []" "nth_char (find_opt opts c) 1 = k"
    using assms(7) by (auto simp: opt_kind_def split: if_splits)
  note s = getopt_short [OF assms(1-4)] doShort_def find_opt_hd [OF f(1)] opt_at_def
  have i: "optind st = int i" "pos st = n" "1 \<le> i" using assms(1) by (simp_all add: opt_at_def)
  show "\<exists>st'. goes av opts lopts st [(opt_char c, Some w)] st' \<and> opt_at st' (Suc i) 1" if "w \<noteq> []" "opt_suffix k"
  proof -
    let ?st1 = "?st\<lparr>optind := optind st + 1, lastn := n, pos := 1, optarg := Some w\<rparr>"
    have "getopt av opts lopts st = Ret ?st1 (opt_char c)"
      using that n f d i by (simp add: s Let_def)
    from goes_step [OF this range] have "goes av opts lopts st [(opt_char c, Some w)] ?st1" by simp
    moreover have "opt_at ?st1 (Suc i) 1" by (simp add: opt_at_def i)
    ultimately show ?thesis by blast
  qed
  show "\<exists>st'. goes av opts lopts st [(opt_char c, Some (av ! Suc i))] st' \<and> opt_at st' (i + 2) 1"
    if "w = []" "k = CHR '':''" "Suc i < length av" "nth_char (av ! Suc i) 0 \<noteq> CHR ''-''"
  proof -
    let ?st1 = "?st\<lparr>optarg := Some (av ! Suc i), optind := optind st + 2, lastn := n, pos := 1\<rparr>"
    have "getopt av opts lopts st = Ret ?st1 (opt_char c)"
      using that n f d i by (simp add: s Let_def missing_word_def opt_suffix_def)
    from goes_step [OF this range] have "goes av opts lopts st [(opt_char c, Some (av ! Suc i))] ?st1" by simp
    moreover have "opt_at ?st1 (i + 2) 1" by (simp add: opt_at_def i)
    ultimately show ?thesis by blast
  qed
  show "\<exists>st'. goes av opts lopts st [(opt_char c, None)] st' \<and> opt_at st' (Suc i) 1" if "w = []" "k = CHR ''|''"
  proof -
    let ?st1 = "?st\<lparr>optind := optind st + 1, lastn := n, pos := 1\<rparr>"
    have "getopt av opts lopts st = Ret ?st1 (opt_char c)"
      using that n f d i by (simp add: s Let_def opt_suffix_def)
    from goes_step [OF this range] have "goes av opts lopts st [(opt_char c, None)] ?st1" by simp
    moreover have "opt_at ?st1 (Suc i) 1" by (simp add: opt_at_def i)
    ultimately show ?thesis by blast
  qed
qed

lemma find_long_cong:
  "word_len s = word_len s' \<Longrightarrow> take (word_len s) s = take (word_len s') s' \<Longrightarrow> find_long s ls = find_long s' ls"
  by (induction ls) auto

text \<open>What may follow the name of a long option.\<close>

definition value_text :: "string \<Rightarrow> bool" where
  "value_text r \<longleftrightarrow> r = [] \<or> hd r = CHR ''='' \<or> hd r = CHR '':'' \<and> CHR ''='' \<notin> set r"

lemma word_len_base:
  assumes "CHR ''='' \<notin> set b" "CHR '':'' \<notin> set b" "value_text r"
  shows "word_len (b @ r) = length b"
proof -
  have b: "\<forall>c\<in>set b. c \<noteq> CHR ''=''" "\<forall>c\<in>set b. c \<noteq> CHR '':''" using assms(1,2) by auto
  show ?thesis
  proof (cases "CHR ''='' \<in> set r")
    case True
    then have "r \<noteq> []" "hd r = CHR ''=''" using assms(3) by (auto simp: value_text_def)
    then have "takeWhile (\<lambda>c. c \<noteq> CHR ''='') (b @ r) = b" by (intro takeWhile_append_stop [OF b(1)]) simp
    then show ?thesis using True by (simp add: word_len_def)
  next
    case False
    then have "r = [] \<or> hd r = CHR '':''" using assms(3) by (cases r) (auto simp: value_text_def)
    then have "takeWhile (\<lambda>c. c \<noteq> CHR '':'') (b @ r) = b" by (intro takeWhile_append_stop [OF b(2)]) simp
    then show ?thesis using False assms(1) by (simp add: word_len_def)
  qed
qed

lemma long_step:
  assumes at: "opt_at st i n" and i: "i < length av" and w: "av ! i = ''--'' @ base_name l @ r" and l: "long_ok lopts l" and r: "value_text r"
  shows "r = [] \<Longrightarrow> long_kind l \<in> {NUL, CHR ''|''} \<Longrightarrow> \<exists>st'. goes av opts lopts st [(lret l, None)] st' \<and> opt_at st' (Suc i) 1"
    and "r \<noteq> [] \<Longrightarrow> long_kind l \<noteq> NUL \<Longrightarrow> \<exists>st'. goes av opts lopts st [(lret l, Some (tl r))] st' \<and> opt_at st' (Suc i) 1"
    and "r = [] \<Longrightarrow> long_kind l = CHR '':'' \<Longrightarrow> Suc i < length av \<Longrightarrow> nth_char (av ! Suc i) 0 \<noteq> CHR ''-'' \<Longrightarrow>
      \<exists>st'. goes av opts lopts st [(lret l, Some (av ! Suc i))] st' \<and> opt_at st' (i + 2) 1"
proof -
  let ?st = "st\<lparr>optarg := None, optopt := NUL\<rparr>"
  obtain ls where ls: "lopts = Some ls" "base_name l \<noteq> []" "base_name l \<noteq> ''usage''" "CHR ''='' \<notin> set (base_name l)"
    "CHR '':'' \<notin> set (base_name l)" "find_long (base_name l) ls = Some (Some l)" "lret l \<noteq> EOF" "lret l \<noteq> GETOPT_NOARG"
    using l by (auto simp: long_ok_def split: option.splits)
  have b: "word_len (base_name l @ r) = length (base_name l)" "word_len (base_name l) = length (base_name l)"
    using word_len_base [OF ls(4,5) r] word_len_base [OF ls(4,5), of "[]"] by (simp_all add: value_text_def)
  have f: "find_long (base_name l @ r) ls = Some (Some l)"
    using find_long_cong [of "base_name l @ r" "base_name l" ls] b ls(6) by simp
  have j: "optind st = int i" "1 \<le> i" using at by (simp_all add: opt_at_def)
  have "base_name l @ r \<noteq> ''usage''"
  proof
    assume e: "base_name l @ r = ''usage''"
    have "CHR ''='' \<notin> set (base_name l @ r)" "CHR '':'' \<notin> set (base_name l @ r)" unfolding e by simp_all
    then have "r = []" using r by (cases r) (auto simp: value_text_def)
    then show False using ls(3) e by simp
  qed
  then have g: "getopt av opts lopts st = doLong av lopts ?st"
    using ls(2) i j w by (simp add: getopt_def nth_char_def Let_def NUL_def)
  note d = w f ls(6) b j
  show "\<exists>st'. goes av opts lopts st [(lret l, None)] st' \<and> opt_at st' (Suc i) 1" if "r = []" "long_kind l \<in> {NUL, CHR ''|''}"
  proof -
    let ?st1 = "?st\<lparr>optind := optind st + 1, pos := 1\<rparr>"
    have "getopt av opts lopts st = Ret ?st1 (lret l)"
      using that unfolding g unfolding doLong_def Let_def ls(1) by (auto simp: d long_kind_def nth_char_def [of "[]"] NUL_def)
    from goes_step [OF this ls(7,8)] have "goes av opts lopts st [(lret l, None)] ?st1" by simp
    moreover have "opt_at ?st1 (Suc i) 1" using j by (simp add: opt_at_def)
    ultimately show ?thesis by blast
  qed
  show "\<exists>st'. goes av opts lopts st [(lret l, Some (tl r))] st' \<and> opt_at st' (Suc i) 1" if "r \<noteq> []" "long_kind l \<noteq> NUL"
  proof -
    let ?st1 = "?st\<lparr>optarg := Some (tl r), optind := optind st + 1, pos := 1\<rparr>"
    have "nth_char r 0 = CHR ''='' \<or> nth_char r 0 = CHR '':''" using that r by (cases r) (auto simp: nth_char_def value_text_def)
    then have "getopt av opts lopts st = Ret ?st1 (lret l)"
      using that unfolding g unfolding doLong_def Let_def ls(1) by (auto simp: d long_kind_def)
    from goes_step [OF this ls(7,8)] have "goes av opts lopts st [(lret l, Some (tl r))] ?st1" by simp
    moreover have "opt_at ?st1 (Suc i) 1" using j by (simp add: opt_at_def)
    ultimately show ?thesis by blast
  qed
  show "\<exists>st'. goes av opts lopts st [(lret l, Some (av ! Suc i))] st' \<and> opt_at st' (i + 2) 1"
    if "r = []" "long_kind l = CHR '':''" "Suc i < length av" "nth_char (av ! Suc i) 0 \<noteq> CHR ''-''"
  proof -
    let ?st1 = "?st\<lparr>optarg := Some (av ! Suc i), optind := optind st + 2, pos := 1\<rparr>"
    have "getopt av opts lopts st = Ret ?st1 (lret l)"
      using that unfolding g unfolding doLong_def Let_def ls(1) by (simp add: d long_kind_def nth_char_def [of "[]"] NUL_def missing_word_def)
    from goes_step [OF this ls(7,8)] have "goes av opts lopts st [(lret l, Some (av ! Suc i))] ?st1" by simp
    moreover have "opt_at ?st1 (i + 2) 1" using j by (simp add: opt_at_def)
    ultimately show ?thesis by blast
  qed
qed

lemma letters_then_arg:
  assumes "i < length av" "NUL \<notin> set (av ! i)" "av ! i = CHR ''-'' # fs @ c # a" "last_ok opts fs c" "opt_at st i 1"
  shows "short_word (av ! i)" "drop (Suc (length fs)) (av ! i) = c # a"
    "\<exists>st'. goes av opts lopts st (letters_result fs) st' \<and> opt_at st' i (Suc (length fs))"
proof -
  show s: "short_word (av ! i)" using assms(3,4) by (cases fs) (auto simp: short_word_def last_ok_def)
  show "drop (Suc (length fs)) (av ! i) = c # a" using assms(3) by simp
  show "\<exists>st'. goes av opts lopts st (letters_result fs) st' \<and> opt_at st' i (Suc (length fs))"
    using letters_steps [OF assms(1) s assms(2) assms(5), of fs "c # a" opts lopts] assms(3,4) by (auto simp: last_ok_def)
qed

lemma item_step:
  assumes av: "av = pre @ item_words it @ post" and st: "opt_at st (length pre) 1" and ok: "item_ok opts lopts it"
    and nul: "list_all (\<lambda>w. NUL \<notin> set w) av"
  shows "\<exists>st'. goes av opts lopts st (item_result it) st' \<and> opt_at st' (length pre + length (item_words it)) 1"
proof -
  let ?i = "length pre"
  have n: "NUL \<notin> set (av ! j)" if "j < length av" for j using nul that by (simp add: list_all_length)
  show ?thesis
  proof (cases it)
    case (Letters fs)
    have i: "?i < length av" and w: "av ! ?i = CHR ''-'' # fs" using av Letters by simp_all
    then have "short_word (av ! ?i)" using ok Letters by (cases fs) (auto simp: short_word_def)
    from letters_steps [OF i this n [OF i] st, of fs "[]" opts lopts] show ?thesis using ok w Letters by simp
  next
    case (Joined fs c a)
    have i: "?i < length av" and w: "av ! ?i = CHR ''-'' # fs @ c # a" using av Joined by simp_all
    have h: "last_ok opts fs c" "c \<noteq> CHR 0xFF" using ok Joined by (simp_all add: last_ok_def)
    note l = letters_then_arg [OF i n [OF i] w h(1) st]
    obtain k where k: "opt_kind opts c = Some k" "opt_suffix k" using ok Joined by (auto simp: opt_suffix_def)
    obtain st1 where 1: "goes av opts lopts st (letters_result fs) st1" "opt_at st1 ?i (Suc (length fs))"
      using l(3) by blast
    obtain st2 where "goes av opts lopts st1 [(opt_char c, Some a)] st2" "opt_at st2 (Suc ?i) 1"
      using arg_step(1) [OF 1(2) i l(1) n [OF i] _ l(2) k(1) h(2), of lopts] k(2) ok Joined by auto
    then show ?thesis using goes_trans [OF 1(1)] Joined by auto
  next
    case (Separate fs c a)
    have i: "?i < length av" and w: "av ! ?i = CHR ''-'' # fs @ c # []" and a: "Suc ?i < length av" "av ! Suc ?i = a"
      using av Separate by (simp_all add: nth_append)
    have h: "last_ok opts fs c" "c \<noteq> CHR 0xFF" and k: "opt_kind opts c = Some CHR '':''"
      using ok Separate by (simp_all add: last_ok_def)
    note l = letters_then_arg [OF i n [OF i] w h(1) st]
    obtain st1 where 1: "goes av opts lopts st (letters_result fs) st1" "opt_at st1 ?i (Suc (length fs))"
      using l(3) by blast
    obtain st2 where "goes av opts lopts st1 [(opt_char c, Some a)] st2" "opt_at st2 (?i + 2) 1"
      using arg_step(2) [OF 1(2) i l(1) n [OF i] _ l(2) k h(2), of lopts] ok Separate a by auto
    then show ?thesis using goes_trans [OF 1(1)] Separate by auto
  next
    case (Bare fs c)
    have i: "?i < length av" and w: "av ! ?i = CHR ''-'' # fs @ c # []" using av Bare by simp_all
    have h: "last_ok opts fs c" "c \<noteq> CHR 0xFF" and k: "opt_kind opts c = Some CHR ''|''"
      using ok Bare by (simp_all add: last_ok_def)
    note l = letters_then_arg [OF i n [OF i] w h(1) st]
    obtain st1 where 1: "goes av opts lopts st (letters_result fs) st1" "opt_at st1 ?i (Suc (length fs))"
      using l(3) by blast
    obtain st2 where "goes av opts lopts st1 [(opt_char c, None)] st2" "opt_at st2 (Suc ?i) 1"
      using arg_step(3) [OF 1(2) i l(1) n [OF i] _ l(2) k h(2), of lopts] by auto
    then show ?thesis using goes_trans [OF 1(1)] Bare by auto
  next
    case (LongFlag l)
    have i: "?i < length av" and w: "av ! ?i = ''--'' @ base_name l @ []" using av LongFlag by simp_all
    from long_step(1) [OF st i w, of lopts opts] show ?thesis using ok LongFlag by (auto simp: value_text_def)
  next
    case (LongJoined l a)
    have i: "?i < length av" and w: "av ! ?i = ''--'' @ base_name l @ CHR ''='' # a" using av LongJoined by simp_all
    from long_step(2) [OF st i w, of lopts opts] show ?thesis using ok LongJoined by (auto simp: value_text_def)
  next
    case (LongColon l a)
    have i: "?i < length av" and w: "av ! ?i = ''--'' @ base_name l @ CHR '':'' # a" using av LongColon by simp_all
    from long_step(2) [OF st i w, of lopts opts] show ?thesis using ok LongColon by (auto simp: value_text_def)
  next
    case (LongSeparate l a)
    have i: "?i < length av" and w: "av ! ?i = ''--'' @ base_name l @ []" and a: "Suc ?i < length av" "av ! Suc ?i = a"
      using av LongSeparate by (simp_all add: nth_append)
    from long_step(3) [OF st i w, of lopts opts] show ?thesis using ok LongSeparate a by (auto simp: value_text_def)
  qed
qed

lemma items_steps:
  assumes "list_all (\<lambda>w. NUL \<notin> set w) av"
  shows "av = pre @ concat (map item_words its) @ post \<Longrightarrow> opt_at st (length pre) 1 \<Longrightarrow> list_all (item_ok opts lopts) its \<Longrightarrow>
   \<exists>st'. goes av opts lopts st (concat (map item_result its)) st' \<and> opt_at st' (length pre + length (concat (map item_words its))) 1"
proof (induction its arbitrary: pre st)
  case Nil
  then show ?case using goes_refl [of av opts lopts st] by auto
next
  case (Cons it its)
  obtain st1 where 1: "goes av opts lopts st (item_result it) st1" "opt_at st1 (length pre + length (item_words it)) 1"
    using item_step [of av pre it "concat (map item_words its) @ post" st opts lopts] Cons.prems assms by auto
  obtain st2 where "goes av opts lopts st1 (concat (map item_result its)) st2"
    "opt_at st2 (length (pre @ item_words it) + length (concat (map item_words its))) 1"
    using Cons.IH [of "pre @ item_words it" st1] Cons.prems 1(2) by auto
  then show ?case using goes_trans [OF 1(1)] by (auto simp: add.assoc)
qed

text \<open>
  C25. Scanning a command line that is written in the documented forms gives the options with their
  arguments in order and stops at the first operand, or after a word of two dashes.  The forms are
  all those of the comment at the head of the source; a letter is not 0xFF, which as a \<open>char\<close> is
  \<open>EOF\<close>, and an argument after a colon has no equal sign.
\<close>

theorem scan_items:
  assumes "optind st = 0" "list_all (\<lambda>w. NUL \<notin> set w) (prog # concat (map item_words its) @ rest)"
    "list_all (item_ok opts lopts) its" "rest = [] \<or> operand (hd rest) \<or> hd rest = ''--''"
  shows "\<exists>st'. scan (prog # concat (map item_words its) @ rest) opts lopts st = Some (concat (map item_result its), Ret st' EOF) \<and>
    drop (nat (optind st')) (prog # concat (map item_words its) @ rest) = (if rest \<noteq> [] \<and> hd rest = ''--'' then tl rest else rest)"
proof -
  let ?av = "prog # concat (map item_words its) @ rest"
  let ?n = "length [prog] + length (concat (map item_words its))"
  let ?st = "st\<lparr>optind := 1, lastn := pos st, pos := 1\<rparr>"
  obtain st1 where 1: "goes ?av opts lopts ?st (concat (map item_result its)) st1" "opt_at st1 ?n 1"
    using items_steps [OF assms(2), of "[prog]" its rest ?st opts lopts] assms(3) by (auto simp: opt_at_def)
  have "\<exists>st'. getopt ?av opts lopts st1 = Ret st' EOF \<and>
      drop (nat (optind st')) ?av = (if rest \<noteq> [] \<and> hd rest = ''--'' then tl rest else rest)"
  proof (cases rest)
    case Nil
    then show ?thesis using 1(2) by (simp add: getopt_def opt_at_def)
  next
    case (Cons r rs)
    define av where "av = ?av"
    define n where "n = ?n"
    have j: "optind st1 = int n" "1 \<le> n" "n < length av" "av ! n = r" "drop n av = rest" "drop (Suc n) av = rs"
      using 1(2) Cons by (auto simp: opt_at_def nth_append av_def n_def)
    show ?thesis
    proof (cases "r = ''--''")
      case True
      have "getopt av opts lopts st1 =
          Ret (st1\<lparr>optarg := None, optopt := NUL, optind := int n + 1, lastn := pos st1, pos := 1\<rparr>) EOF"
        using j(1-4) True by (simp add: getopt_def Let_def nth_char_def NUL_def)
      moreover have "nat (int n + 1) = Suc n" by simp
      ultimately show ?thesis using j(6) True Cons unfolding av_def [symmetric] by simp
    next
      case False
      then have "nth_char r 0 \<noteq> CHR ''-'' \<or> nth_char r 1 = NUL"
        using assms(4) Cons by (auto simp: operand_def nth_char_def)
      then have "getopt av opts lopts st1 = Ret (st1\<lparr>optarg := None, optopt := NUL\<rparr>) EOF"
        using j(1-4) by (simp add: getopt_def Let_def)
      then show ?thesis using j(1,5) False Cons unfolding av_def [symmetric] by simp
    qed
  qed
  then obtain st' where st': "getopt ?av opts lopts st1 = Ret st' EOF"
    "drop (nat (optind st')) ?av = (if rest \<noteq> [] \<and> hd rest = ''--'' then tl rest else rest)" by blast
  have "scan ?av opts lopts st1 = Some ([], Ret st' EOF)" using st'(1) by (subst scan.simps) simp
  then show ?thesis using 1(1) st'(2) unfolding scan_start [OF assms(1)] goes_def by auto
qed

definition ex_opt_state :: getopt_st where
  "ex_opt_state = \<lparr>optopt = NUL, optind = 0, optarg = None, pos = 0, lastn = 0\<rparr>"

definition ex_longs :: "longopt list option" where
  "ex_longs = Some [\<lparr>lname = ''url:'', lret = 300\<rparr>, \<lparr>lname = ''force'', lret = 301\<rparr>]"

theorem scan_items_witness:
  "\<exists>st'. scan [''bk'', ''-qvrHEAD'', ''--url=x'', ''--url:y'', ''--force'', ''-qd'', ''-dz'', ''-r'', ''1.2'', ''--'', ''-f''] ''qvr:d|'' ex_longs ex_opt_state =
     Some ([(113, None), (118, None), (114, Some ''HEAD''), (300, Some ''x''), (300, Some ''y''), (301, None), (113, None), (100, None),
       (100, Some ''z''), (114, Some ''1.2'')], Ret st' EOF) \<and>
   drop (nat (optind st')) [''bk'', ''-qvrHEAD'', ''--url=x'', ''--url:y'', ''--force'', ''-qd'', ''-dz'', ''-r'', ''1.2'', ''--'', ''-f''] = [''-f'']"
proof -
  let ?url = "\<lparr>lname = ''url:'', lret = 300\<rparr>" and ?force = "\<lparr>lname = ''force'', lret = 301\<rparr>"
  let ?its = "[Joined ''qv'' CHR ''r'' ''HEAD'', LongJoined ?url ''x'', LongColon ?url ''y'', LongFlag ?force, Bare ''q'' CHR ''d'',
    Joined '''' CHR ''d'' ''z'', Separate '''' CHR ''r'' ''1.2'']"
  have r: "concat (map item_result ?its) = [(113, None), (118, None), (114, Some ''HEAD''), (300, Some ''x''), (300, Some ''y''), (301, None),
      (113, None), (100, None), (100, Some ''z''), (114, Some ''1.2'')]"
    by code_simp
  have w: "''bk'' # concat (map item_words ?its) @ [''--'', ''-f''] =
      [''bk'', ''-qvrHEAD'', ''--url=x'', ''--url:y'', ''--force'', ''-qd'', ''-dz'', ''-r'', ''1.2'', ''--'', ''-f'']"
    by code_simp
  have "optind ex_opt_state = 0" "list_all (\<lambda>w. NUL \<notin> set w) (''bk'' # concat (map item_words ?its) @ [''--'', ''-f''])"
    "list_all (item_ok ''qvr:d|'' ex_longs) ?its" by code_simp+
  from scan_items [OF this, unfolded r w] show ?thesis by simp
qed

theorem scan_ends_witness:
  "\<exists>os r. scan [''bk'', ''-xyz'', ''--q''] ''x'' None ex_opt_state = Some (os, r) \<and> r \<noteq> Fault \<and> length os \<le> 9"
proof -
  have "args_ok [''bk'', ''-xyz'', ''--q''] None" "optind ex_opt_state = 0" by code_simp+
  from scan_ends [OF this, of "''x''"] show ?thesis by (simp add: eval_nat_numeral)
qed

text \<open>
  C26. A long option whose argument is written after a colon and contains an equal sign is refused as
  unknown, whatever the table of options: the equal sign is taken as the end of the name.
\<close>

theorem getopt_colon_equal:
  assumes "list_all (\<lambda>l. lname l \<noteq> [] \<and> CHR '':'' \<notin> set (base_name l)) ls"
    and "optind st = int i" "1 \<le> i" "i < length av" "av ! i = ''--'' @ b @ '':'' @ x @ ''='' @ y" "CHR ''='' \<notin> set (b @ x)"
  shows "getopt av opts (Some ls) st = Ret (st\<lparr>optarg := None, optopt := NUL, pos := 1, optind := int (i + 1)\<rparr>) GETOPT_ERR"
proof -
  define s where "s = b @ '':'' @ x @ ''='' @ y"
  have w: "av ! i = ''--'' @ s" using assms(5) by (simp add: s_def)
  have "takeWhile (\<lambda>c. c \<noteq> CHR ''='') ((b @ '':'' @ x) @ ''='' @ y) = b @ '':'' @ x"
    by (rule takeWhile_append_stop) (use assms(6) in auto)
  then have t: "take (word_len s) s = b @ '':'' @ x" by (simp add: word_len_def s_def)
  have "find_long s ls = Some None" using assms(1)
  proof (induction ls)
    case (Cons l ls)
    have "CHR '':'' \<in> set (take (word_len s) s)" unfolding t by simp
    then have "take (word_len s) s \<noteq> base_name l" using Cons.prems by auto
    then show ?case using Cons by (auto simp: base_name_def)
  qed simp
  moreover have "CHR '':'' \<in> set s" by (simp add: s_def)
  then have "s \<noteq> []" "s \<noteq> ''usage''" by auto
  ultimately show ?thesis
    using assms(2-4) w by (simp add: getopt_def doLong_def long_err_def Let_def nth_char_def NUL_def)
qed

theorem getopt_colon_equal_witness:
  "getopt [''bk'', ''--url:a=b''] '''' ex_longs (ex_opt_state\<lparr>optind := 1\<rparr>) =
     Ret \<lparr>optopt = NUL, optind = 2, optarg = None, pos = 1, lastn = 0\<rparr> GETOPT_ERR"
proof -
  have "list_all (\<lambda>l. lname l \<noteq> [] \<and> CHR '':'' \<notin> set (base_name l)) (the ex_longs)" by code_simp
  from getopt_colon_equal [OF this, of "ex_opt_state\<lparr>optind := 1\<rparr>" 1 "[''bk'', ''--url:a=b'']" "''url''" "''a''" "''b''" "''''"]
  show ?thesis by (simp add: ex_opt_state_def ex_longs_def)
qed

text \<open>
  C27. After a letter that requires a joined argument (written with a semicolon) is found without one at the end of a word,
  the position in the word is not reset: a caller that goes on after the error makes the next
  call fault on a shorter word.
\<close>

theorem getopt_stale_position:
  assumes "plain_opt opts f" "opt_kind opts c = Some CHR '';''" "f \<noteq> CHR ''-''" "f \<noteq> NUL" "c \<noteq> NUL" "optind st = 0"
  shows "\<exists>st1 st2. getopt [p, [CHR ''-'', f, c], [CHR ''-'', f]] opts lopts st = Ret st1 (opt_char f) \<and>
    getopt [p, [CHR ''-'', f, c], [CHR ''-'', f]] opts lopts st1 = Ret st2 GETOPT_NOARG \<and>
    getopt [p, [CHR ''-'', f, c], [CHR ''-'', f]] opts lopts st2 = Fault"
proof -
  have f: "find_opt opts f \<noteq> []" "hd (find_opt opts f) = f" "\<not> opt_suffix (nth_char (find_opt opts f) (Suc 0))"
    using assms(1) find_opt_hd [of opts f] by (auto simp: plain_opt_def opt_kind_def split: if_splits)
  have c: "find_opt opts c \<noteq> []" "hd (find_opt opts c) = c" "nth_char (find_opt opts c) (Suc 0) = CHR '';''"
    using assms(2) find_opt_hd [of opts c] by (auto simp: opt_kind_def split: if_splits)
  show ?thesis
    using assms(3-6) f c by (simp add: getopt_def doShort_def advance_def nth_char_def [of "[_, _, _]"] nth_char_def [of "[_, _]"] Let_def opt_suffix_def)
qed

theorem getopt_stale_position_witness:
  "\<exists>st1 st2. getopt [''bk'', ''-vd'', ''-v''] ''vd;'' None ex_opt_state = Ret st1 118 \<and>
    getopt [''bk'', ''-vd'', ''-v''] ''vd;'' None st1 = Ret st2 GETOPT_NOARG \<and>
    getopt [''bk'', ''-vd'', ''-v''] ''vd;'' None st2 = Fault"
proof -
  have "plain_opt ''vd;'' CHR ''v''" "opt_kind ''vd;'' CHR ''d'' = Some CHR '';''" "CHR ''v'' \<noteq> CHR ''-''" "CHR ''v'' \<noteq> NUL"
    "CHR ''d'' \<noteq> NUL" "optind ex_opt_state = 0" by code_simp+
  moreover have "opt_char CHR ''v'' = 118" by code_simp
  ultimately show ?thesis using getopt_stale_position [of "''vd;''" "CHR ''v''" "CHR ''d''" ex_opt_state "''bk''" None] by simp
qed

end
