(* ===== verification/BK_Hash.thy ===== *)
theory BK_Hash
  imports BK_Prelude "HOL-Library.Multiset" "HOL-Library.Monad_Syntax"
begin

text \<open>
  The hash tables behind one interface: the table of operations and the key differences of
  \<open>libc/hash.h\<close> and \<open>hash/hash.c\<close>, the contract of an implementation as a locale, and the chained
  table of \<open>hash/memhash.c\<close>.  Keys and data are strings of bytes.  The hash function is an
  argument; nothing depends on how it distributes the keys.
\<close>

unbundle bit_operations_syntax

section \<open>The interface\<close>

text \<open>
  The methods of a hash, as far as they are used through the interface.  The state \<open>'h\<close> holds
  the pointers \<open>kptr\<close> and \<open>vptr\<close> that the operations leave in the header; \<open>op_key\<close> and \<open>op_val\<close>
  read what they point to (\<open>None\<close> for a null or stale pointer).  A missing method is \<open>None\<close>, and
  so is an operation that fails an assertion.
\<close>

record ('h, 'k, 'v) hashops =
  op_fetch :: "'h \<Rightarrow> 'k \<Rightarrow> 'h option"
  op_store :: "'h \<Rightarrow> 'k \<Rightarrow> 'v \<Rightarrow> 'h option"
  op_delete :: "('h \<Rightarrow> 'k \<Rightarrow> 'h option) option"
  op_first :: "'h \<Rightarrow> 'h option"
  op_next :: "'h \<Rightarrow> 'h option"
  op_key :: "'h \<Rightarrow> 'k option"
  op_val :: "'h \<Rightarrow> 'v option"
  op_count :: "('h \<Rightarrow> nat) option"

definition hash_delete :: "('h, 'k, 'v) hashops \<Rightarrow> 'h \<Rightarrow> 'k \<Rightarrow> 'h option" where
  "hash_delete ops h k = (case op_delete ops of None \<Rightarrow> None | Some del \<Rightarrow> del h k)"

text \<open>\<open>for (hash_first(h); (h)->kptr; hash_next(h))\<close>\<close>

partial_function (option) each_loop ::
  "('h, 'k, 'v) hashops \<Rightarrow> ('k \<Rightarrow> 'v \<Rightarrow> 'a \<Rightarrow> 'a option) \<Rightarrow> 'h \<Rightarrow> 'a \<Rightarrow> ('h \<times> 'a) option" where
  "each_loop ops body h a =
     (case op_key ops h of
        None \<Rightarrow> Some (h, a)
      | Some k \<Rightarrow> do { v \<leftarrow> op_val ops h; a \<leftarrow> body k v a; h \<leftarrow> op_next ops h; each_loop ops body h a })"

definition EACH_HASH :: "('h, 'k, 'v) hashops \<Rightarrow> ('k \<Rightarrow> 'v \<Rightarrow> 'a \<Rightarrow> 'a option) \<Rightarrow> 'h \<Rightarrow> 'a \<Rightarrow> ('h \<times> 'a) option" where
  "EACH_HASH ops body h a = do { h \<leftarrow> op_first ops h; each_loop ops body h a }"

definition hash_count :: "('h, 'k, 'v) hashops \<Rightarrow> 'h \<Rightarrow> ('h \<times> nat) option" where
  "hash_count ops h =
     (case op_count ops of
        Some cnt \<Rightarrow> Some (h, cnt h)
      | None \<Rightarrow> EACH_HASH ops (\<lambda>k v n. Some (Suc n)) h 0)"

text \<open>\<open>C = A - B\<close>, and 1 if something was added to \<open>C\<close>.\<close>

definition diff3_body ::
  "('b, 'k, 'v) hashops \<Rightarrow> ('c, 'k, 'v) hashops \<Rightarrow> 'k \<Rightarrow> 'v \<Rightarrow> 'b \<times> 'c \<times> int \<Rightarrow> ('b \<times> 'c \<times> int) option" where
  "diff3_body opsB opsC k v = (\<lambda>(B, C, i).
     do { B \<leftarrow> op_fetch opsB B k;
          if op_val opsB B = None then do { C \<leftarrow> op_store opsC C k v; Some (B, C, 1) } else Some (B, C, i) })"

definition hash_keyDiff3 ::
  "('a, 'k, 'v) hashops \<Rightarrow> ('b, 'k, 'v) hashops \<Rightarrow> ('c, 'k, 'v) hashops \<Rightarrow> 'a \<Rightarrow> 'b \<Rightarrow> 'c \<Rightarrow> ('a \<times> 'b \<times> 'c \<times> int) option" where
  "hash_keyDiff3 opsA opsB opsC A B C = EACH_HASH opsA (diff3_body opsB opsC) A (B, C, 0)"

text \<open>\<open>A -= B\<close>, and whether something is left in \<open>A\<close>.\<close>

definition hash_keyDiff :: "('a, 'k, 'v) hashops \<Rightarrow> ('b, 'k, 'v) hashops \<Rightarrow> 'a \<Rightarrow> 'b \<Rightarrow> ('a \<times> 'b \<times> bool) option" where
  "hash_keyDiff opsA opsB A B =
     do { (B, A) \<leftarrow> EACH_HASH opsB (\<lambda>k v A. hash_delete opsA A k) B A;
          A \<leftarrow> op_first opsA A;
          Some (A, B, op_key opsA A \<noteq> None) }"

section \<open>The contract\<close>

text \<open>
  What an implementation promises: under its invariant the state stands for a finite map, the
  operations act on it as map operations, and a walk visits every entry once.  \<open>left h\<close> are the
  entries from the current one of a walk on.
\<close>

locale hash_table =
  fixes ops :: "('h, 'k, 'v) hashops"
    and inv_h :: "'h \<Rightarrow> bool"
    and alpha :: "'h \<Rightarrow> 'k \<Rightarrow> 'v option"
    and walking :: "'h \<Rightarrow> bool"
    and left_h :: "'h \<Rightarrow> ('k \<times> 'v) list"
    and entry_ok :: "'h \<Rightarrow> 'k \<Rightarrow> 'v \<Rightarrow> bool"
    and cap :: nat
  assumes alpha_finite: "inv_h h \<Longrightarrow> finite (dom (alpha h))"
    and fetch_law: "inv_h h \<Longrightarrow> \<exists>h'. op_fetch ops h k = Some h' \<and> inv_h h' \<and> alpha h' = alpha h \<and> op_val ops h' = alpha h k"
    and store_law: "inv_h h \<Longrightarrow> entry_ok h k v \<Longrightarrow> card (dom (alpha h)) < cap \<Longrightarrow>
      \<exists>h'. op_store ops h k v = Some h' \<and> inv_h h' \<and> alpha h' = (alpha h)(k \<mapsto> v) \<and> entry_ok h' = entry_ok h"
    and first_law: "inv_h h \<Longrightarrow> \<exists>h'. op_first ops h = Some h' \<and> inv_h h' \<and> alpha h' = alpha h \<and> walking h' \<and>
      distinct (map fst (left_h h')) \<and> map_of (left_h h') = alpha h"
    and next_law: "inv_h h \<Longrightarrow> walking h \<Longrightarrow> left_h h \<noteq> [] \<Longrightarrow>
      \<exists>h'. op_next ops h = Some h' \<and> inv_h h' \<and> alpha h' = alpha h \<and> walking h' \<and> left_h h' = tl (left_h h)"
    and key_law: "inv_h h \<Longrightarrow> walking h \<Longrightarrow> op_key ops h = (case left_h h of [] \<Rightarrow> None | e # es \<Rightarrow> Some (fst e))"
    and val_law: "inv_h h \<Longrightarrow> walking h \<Longrightarrow> left_h h = e # es \<Longrightarrow> op_val ops h = Some (snd e)"
    and count_law: "inv_h h \<Longrightarrow> op_count ops = Some cnt \<Longrightarrow> cnt h = card (dom (alpha h))"
    and entry_law: "inv_h h \<Longrightarrow> alpha h k = Some v \<Longrightarrow> entry_ok h k v"

fun foldM :: "('k \<Rightarrow> 'v \<Rightarrow> 'a \<Rightarrow> 'a option) \<Rightarrow> ('k \<times> 'v) list \<Rightarrow> 'a \<Rightarrow> 'a option" where
  "foldM body [] a = Some a"
| "foldM body ((k, v) # es) a = do { a \<leftarrow> body k v a; foldM body es a }"

context hash_table
begin

lemma each_loop_left:
  "inv_h h \<Longrightarrow> walking h \<Longrightarrow> \<exists>h'. inv_h h' \<and> alpha h' = alpha h \<and> each_loop ops body h a = map_option (Pair h') (foldM body (left_h h) a)"
proof (induction "left_h h" arbitrary: h a)
  case Nil
  then show ?case using key_law [of h] by (intro exI [of _ h]) (simp add: each_loop.simps [of ops body h])
next
  case (Cons e es)
  obtain k v where e: "e = (k, v)" by fastforce
  have l0: "left_h h = e # es" using Cons.hyps(2) by simp
  have kv: "op_key ops h = Some k" "op_val ops h = Some v"
    using key_law [of h] val_law [of h e es] Cons.prems l0 e by simp_all
  obtain h1 where n: "op_next ops h = Some h1" "inv_h h1" "alpha h1 = alpha h" "walking h1" "left_h h1 = es"
    using next_law [of h] Cons by (metis list.distinct(1) list.sel(3))
  have l: "each_loop ops body h a = Option.bind (body k v a) (each_loop ops body h1)"
    by (subst each_loop.simps) (simp add: kv n)
  show ?case
  proof (cases "body k v a")
    case None
    then show ?thesis using Cons e l by (intro exI [of _ h]) (simp flip: Cons.hyps(2))
  next
    case (Some a')
    obtain h' where "inv_h h'" "alpha h' = alpha h1" "each_loop ops body h1 a' = map_option (Pair h') (foldM body es a')"
      using Cons.hyps(1) [of h1 a'] n by auto
    then show ?thesis using Some l e n(3) by (intro exI [of _ h']) (simp flip: Cons.hyps(2))
  qed
qed

definition entries :: "'h \<Rightarrow> ('k \<times> 'v) list" where
  "entries h = left_h (the (op_first ops h))"

lemma entries_map: "inv_h h \<Longrightarrow> distinct (map fst (entries h)) \<and> map_of (entries h) = alpha h"
  using first_law [of h] by (auto simp: entries_def)

lemma entries_dom: "inv_h h \<Longrightarrow> set (map fst (entries h)) = dom (alpha h)"
  using entries_map [of h] by (metis dom_map_of_conv_image_fst set_map)

lemma each_hash_fold:
  assumes "inv_h h"
  shows "\<exists>h'. inv_h h' \<and> alpha h' = alpha h \<and> EACH_HASH ops body h a = map_option (Pair h') (foldM body (entries h) a)"
proof -
  obtain h1 where 1: "op_first ops h = Some h1" "inv_h h1" "alpha h1 = alpha h" "walking h1"
    using first_law [OF assms] by blast
  then show ?thesis using each_loop_left [OF 1(2,4), of body a] by (simp add: EACH_HASH_def entries_def)
qed

lemma hash_count_card:
  assumes "inv_h h"
  shows "\<exists>h'. hash_count ops h = Some (h', card (dom (alpha h))) \<and> inv_h h' \<and> alpha h' = alpha h"
proof (cases "op_count ops")
  case (Some cnt)
  then show ?thesis using count_law [OF assms Some] assms by (simp add: hash_count_def)
next
  case None
  have f: "foldM (\<lambda>k v n. Some (Suc n)) es n = Some (n + length es)" for es :: "('k \<times> 'v) list" and n
    by (induction es arbitrary: n) auto
  have "card (dom (alpha h)) = length (entries h)"
    using entries_dom [OF assms] entries_map [OF assms] distinct_card [of "map fst (entries h)"] by simp
  then show ?thesis
    using None each_hash_fold [OF assms, of "\<lambda>k v n. Some (Suc n)" 0] by (auto simp: hash_count_def f)
qed

end

locale hash_deletes = hash_table +
  assumes delete_law: "inv_h h \<Longrightarrow> \<exists>h'. hash_delete ops h k = Some h' \<and> inv_h h' \<and> alpha h' = (alpha h)(k := None)"

locale key_diff3 =
  A: hash_table opsA invA alphaA walkingA leftA okA capA +
  B: hash_table opsB invB alphaB walkingB leftB okB capB +
  C: hash_table opsC invC alphaC walkingC leftC okC capC
  for opsA :: "('a, 'k, 'v) hashops" and invA alphaA walkingA leftA okA capA
    and opsB :: "('b, 'k, 'v) hashops" and invB alphaB walkingB leftB okB capB
    and opsC :: "('c, 'k, 'v) hashops" and invC alphaC walkingC leftC okC capC

locale key_diff =
  A: hash_deletes opsA invA alphaA walkingA leftA okA capA +
  B: hash_table opsB invB alphaB walkingB leftB okB capB
  for opsA :: "('a, 'k, 'v) hashops" and invA alphaA walkingA leftA okA capA
    and opsB :: "('b, 'k, 'v) hashops" and invB alphaB walkingB leftB okB capB

context key_diff
begin

lemma delete_all:
  "invA A \<Longrightarrow> \<exists>A'. foldM (\<lambda>k v A. hash_delete opsA A k) es A = Some A' \<and> invA A' \<and>
     alphaA A' = alphaA A |` (- set (map fst es))"
proof (induction es arbitrary: A)
  case (Cons e es)
  obtain A1 where 1: "hash_delete opsA A (fst e) = Some A1" "invA A1" "alphaA A1 = (alphaA A)(fst e := None)"
    using A.delete_law [OF Cons.prems] by blast
  obtain A2 where "foldM (\<lambda>k v A. hash_delete opsA A k) es A1 = Some A2" "invA A2" "alphaA A2 = alphaA A1 |` (- set (map fst es))"
    using Cons.IH [OF 1(2)] by blast
  then show ?case using 1 by (cases e) (auto simp: restrict_map_def fun_eq_iff)
qed (simp add: restrict_map_def fun_eq_iff)

lemma keyDiff_removes:
  assumes "invA A" "invB B"
  shows "\<exists>A' B'. hash_keyDiff opsA opsB A B = Some (A', B', alphaA A' \<noteq> Map.empty) \<and> invA A' \<and> invB B' \<and>
    alphaA A' = alphaA A |` (- dom (alphaB B)) \<and> alphaB B' = alphaB B"
proof -
  let ?del = "\<lambda>k v A. hash_delete opsA A k"
  obtain A1 where 1: "foldM ?del (B.entries B) A = Some A1" "invA A1" "alphaA A1 = alphaA A |` (- set (map fst (B.entries B)))"
    using delete_all [OF assms(1)] by blast
  obtain B1 where b: "invB B1" "alphaB B1 = alphaB B" "EACH_HASH opsB ?del B A = Some (B1, A1)"
    using B.each_hash_fold [OF assms(2), of ?del A] 1(1) by auto
  obtain A2 where 2: "op_first opsA A1 = Some A2" "invA A2" "alphaA A2 = alphaA A1" "walkingA A2" "map_of (leftA A2) = alphaA A1"
    using A.first_law [OF 1(2)] by blast
  have "op_key opsA A2 \<noteq> None \<longleftrightarrow> alphaA A2 \<noteq> Map.empty"
    using A.key_law [OF 2(2,4)] 2(3,5) by (cases "leftA A2") auto
  then have "hash_keyDiff opsA opsB A B = Some (A2, B1, alphaA A2 \<noteq> Map.empty)"
    using b(3) 2(1) by (simp add: hash_keyDiff_def)
  moreover have "alphaA A2 = alphaA A |` (- dom (alphaB B))"
    unfolding 2(3) 1(3) B.entries_dom [OF assms(2)] by (rule refl)
  ultimately show ?thesis using b(1,2) 2(2) by blast
qed

end

lemma map_of_rev_distinct: "distinct (map fst es) \<Longrightarrow> map_of (rev es) = map_of es"
  by (rule map_of_inject_set [THEN iffD2]) (auto simp: rev_map [symmetric])

lemma map_of_filter_keys: "map_of (filter (\<lambda>e. P (fst e)) es) = map_of es |` {k. P k}"
  by (induction es) (auto simp: fun_eq_iff restrict_map_def)

lemma distinct_filter_keys: "distinct (map fst es) \<Longrightarrow> distinct (map fst (filter P es))"
  by (induction es) auto

context key_diff3
begin

lemma diff3_all:
  assumes "invB B"
  shows "invC C \<Longrightarrow> \<forall>(k, v)\<in>set es. okC C k v \<Longrightarrow> card (dom (alphaC C)) + length es \<le> capC \<Longrightarrow>
   \<exists>B' C'. foldM (diff3_body opsB opsC) es (B, C, i) = Some (B', C', if \<exists>e\<in>set es. alphaB B (fst e) = None then 1 else i) \<and>
     invB B' \<and> alphaB B' = alphaB B \<and> invC C' \<and> alphaC C' = alphaC C ++ map_of (rev (filter (\<lambda>e. alphaB B (fst e) = None) es))"
  using assms
proof (induction es arbitrary: B C i)
  case (Cons e es)
  obtain k v where e: "e = (k, v)" by fastforce
  obtain B1 where 1: "op_fetch opsB B k = Some B1" "invB B1" "alphaB B1 = alphaB B" "op_val opsB B1 = alphaB B k"
    using B.fetch_law [OF Cons.prems(4)] by blast
  show ?case
  proof (cases "alphaB B k")
    case None
    have c: "card (dom (alphaC C)) < capC" using Cons.prems(3) by simp
    have "okC C k v" using Cons.prems(2) by (simp add: e)
    from C.store_law [OF Cons.prems(1) this c]
    obtain C1 where 2: "op_store opsC C k v = Some C1" "invC C1" "alphaC C1 = (alphaC C)(k \<mapsto> v)" "okC C1 = okC C" by blast
    have o: "\<forall>(k, v)\<in>set es. okC C1 k v" using 2(4) Cons.prems(2) by simp
    have "card (dom (alphaC C1)) + length es \<le> capC"
      using Cons.prems(3) C.alpha_finite [OF Cons.prems(1)] card_insert_le_m1 by (simp add: 2(3) card_insert_if)
    then obtain B2 C2 where "foldM (diff3_body opsB opsC) es (B1, C1, 1) = Some (B2, C2, 1)"
      "invB B2" "alphaB B2 = alphaB B" "invC C2" "alphaC C2 = alphaC C1 ++ map_of (rev (filter (\<lambda>e. alphaB B (fst e) = None) es))"
      using Cons.IH [OF 2(2) o _ 1(2), of 1] 1(3) by auto
    then show ?thesis using None 1 2 by (simp add: e diff3_body_def [of _ _ k v])
  next
    case (Some w)
    obtain B2 C2 where "foldM (diff3_body opsB opsC) es (B1, C, i) = Some (B2, C2, if \<exists>e\<in>set es. alphaB B (fst e) = None then 1 else i)"
      "invB B2" "alphaB B2 = alphaB B" "invC C2" "alphaC C2 = alphaC C ++ map_of (rev (filter (\<lambda>e. alphaB B (fst e) = None) es))"
      using Cons.IH [of C B1 i] 1 Cons.prems by auto
    then show ?thesis using Some 1 by (simp add: e diff3_body_def [of _ _ k v])
  qed
qed simp

lemma keyDiff3_adds:
  assumes "invA A" "invB B" "invC C" "\<And>k v. alphaA A k = Some v \<Longrightarrow> okC C k v"
    "card (dom (alphaC C)) + card (dom (alphaA A)) \<le> capC"
  shows "\<exists>A' B' C'. hash_keyDiff3 opsA opsB opsC A B C = Some (A', B', C', if dom (alphaA A) \<subseteq> dom (alphaB B) then 0 else 1) \<and>
    invA A' \<and> alphaA A' = alphaA A \<and> invB B' \<and> alphaB B' = alphaB B \<and>
    invC C' \<and> alphaC C' = alphaC C ++ alphaA A |` (- dom (alphaB B))"
proof -
  let ?es = "A.entries A"
  have d: "set (map fst ?es) = dom (alphaA A)" and m: "distinct (map fst ?es)" "map_of ?es = alphaA A"
    using A.entries_dom [OF assms(1)] A.entries_map [OF assms(1)] by simp_all
  have o: "\<forall>(k, v)\<in>set ?es. okC C k v"
  proof clarify
    fix k v assume "(k, v) \<in> set ?es"
    then have "map_of ?es k = Some v" by (rule map_of_is_SomeI [OF m(1)])
    then show "okC C k v" using assms(4) m(2) by simp
  qed
  have "length ?es = card (dom (alphaA A))" using d m(1) distinct_card [of "map fst ?es"] by simp
  then have "card (dom (alphaC C)) + length ?es \<le> capC" using assms(5) by simp
  from diff3_all [OF assms(2,3) o this, of 0]
  obtain B1 C1 where 1: "foldM (diff3_body opsB opsC) ?es (B, C, 0) = Some (B1, C1, if \<exists>e\<in>set ?es. alphaB B (fst e) = None then 1 else 0)"
    "invB B1" "alphaB B1 = alphaB B" "invC C1" "alphaC C1 = alphaC C ++ map_of (rev (filter (\<lambda>e. alphaB B (fst e) = None) ?es))"
    by (elim exE conjE) (erule (4) that)
  obtain A1 where 2: "invA A1" "alphaA A1 = alphaA A"
    "EACH_HASH opsA (diff3_body opsB opsC) A (B, C, 0) = map_option (Pair A1) (foldM (diff3_body opsB opsC) ?es (B, C, 0))"
    using A.each_hash_fold [OF assms(1), of "diff3_body opsB opsC" "(B, C, 0)"] by (elim exE conjE) (erule (2) that)
  have "(\<exists>e\<in>set ?es. alphaB B (fst e) = None) \<longleftrightarrow> \<not> dom (alphaA A) \<subseteq> dom (alphaB B)"
    unfolding d [symmetric] by (auto simp: subset_iff domIff)
  then have "hash_keyDiff3 opsA opsB opsC A B C = Some (A1, B1, C1, if dom (alphaA A) \<subseteq> dom (alphaB B) then 0 else 1)"
    unfolding hash_keyDiff3_def 2(3) 1(1) by simp
  moreover have "alphaC C1 = alphaC C ++ alphaA A |` (- dom (alphaB B))"
    unfolding 1(5) map_of_rev_distinct [OF distinct_filter_keys [OF m(1)]] map_of_filter_keys [of "\<lambda>k. alphaB B k = None"] m(2)
    by (simp add: dom_def Compl_eq)
  ultimately show ?thesis using 1(2-4) 2(1,2) by blast
qed

end

end
