(* ===== verification/BK_Memhash.thy ===== *)
theory BK_Memhash
  imports BK_Hash
begin

text \<open>
  The chained hash table \<open>hash/memhash.c\<close>.  A node is known by its address (a number that
  \<open>malloc\<close> does not give again); a bucket is the list of its nodes.  A pointer to data is the node
  and the offset in it, an \<open>int\<close> whose sum wraps around in 32 bits.
\<close>

unbundle bit_operations_syntax

section \<open>Model\<close>

record node =
  nid :: nat
  nkey :: string
  ndata :: string

record memhash =
  nodes :: nat
  arr :: "node list list"
  mask :: nat
  lastidx :: int
  lastnode :: "nat option"
  kptr :: "nat option"
  klen :: nat
  vptr :: "(nat \<times> int) option"
  vlen :: nat
  brk :: nat

definition DOFF :: "nat \<Rightarrow> nat \<Rightarrow> int" where
  "DOFF kl dl =
     (let align = (\<lambda>m. wrap32 (int kl + m) AND NOT m)
      in if 8 \<le> dl then align 7 else if 4 \<le> dl then align 3 else if 2 \<le> dl then align 1 else int kl)"

definition memhash_new :: memhash where
  "memhash_new =
     \<lparr>nodes = 0, arr = replicate 64 [], mask = 63, lastidx = 0, lastnode = None,
      kptr = None, klen = 0, vptr = None, vlen = 0, brk = 0\<rparr>"

definition bucket :: "(string \<Rightarrow> u32) \<Rightarrow> nat \<Rightarrow> string \<Rightarrow> nat" where
  "bucket H m k = unat (H k AND of_nat m)"

definition set_hdr :: "node \<Rightarrow> memhash \<Rightarrow> memhash" where
  "set_hdr n h =
     h\<lparr>kptr := Some (nid n), klen := length (nkey n),
       vptr := Some (nid n, DOFF (length (nkey n)) (length (ndata n))), vlen := length (ndata n)\<rparr>"

definition clear_hdr :: "memhash \<Rightarrow> memhash" where
  "clear_hdr h = h\<lparr>kptr := None, klen := 0, vptr := None, vlen := 0\<rparr>"

text \<open>The bucket and the place in it where the node is, or where it should be added.\<close>

definition find_nodep :: "(string \<Rightarrow> u32) \<Rightarrow> memhash \<Rightarrow> string \<Rightarrow> nat \<times> nat \<times> memhash" where
  "find_nodep H h k =
     (let i = bucket H (mask h) k;
          b = arr h ! i;
          j = length (takeWhile (\<lambda>n. nkey n \<noteq> k) b)
      in (i, j, if j < length b then set_hdr (b ! j) h else h))"

definition memhash_fetch :: "(string \<Rightarrow> u32) \<Rightarrow> memhash \<Rightarrow> string \<Rightarrow> memhash" where
  "memhash_fetch H h k =
     (let (i, j, h) = find_nodep H h k in if j < length (arr h ! i) then h else clear_hdr h)"

definition memhash_split :: "(string \<Rightarrow> u32) \<Rightarrow> memhash \<Rightarrow> memhash" where
  "memhash_split H h =
     (let newmask = (mask h + 1) * 2 - 1;
          newarr = fold (\<lambda>t a. let p = bucket H newmask (nkey t) in a[p := t # a ! p]) (concat (arr h)) (replicate (newmask + 1) [])
      in h\<lparr>arr := newarr, mask := newmask\<rparr>)"

definition new_node :: "(string \<Rightarrow> u32) \<Rightarrow> memhash \<Rightarrow> nat \<Rightarrow> nat \<Rightarrow> string \<Rightarrow> string \<Rightarrow> memhash" where
  "new_node H h i j k d =
     (let n = \<lparr>nid = brk h, nkey = k, ndata = d\<rparr>;
          b = arr h ! i;
          h = (set_hdr n h)\<lparr>arr := (arr h)[i := take j b @ n # drop j b], nodes := nodes h + 1, brk := brk h + 1\<rparr>
      in if nodes h \<ge> mask h then memhash_split H h else h)"

text \<open>\<open>memcpy\<close> of the data, or \<open>memset\<close> to 0 without data.\<close>

definition fill :: "string option \<Rightarrow> nat \<Rightarrow> string" where
  "fill dptr dlen = (case dptr of Some d \<Rightarrow> take dlen d | None \<Rightarrow> replicate dlen NUL)"

definition memhash_insert :: "(string \<Rightarrow> u32) \<Rightarrow> memhash \<Rightarrow> string \<Rightarrow> string option \<Rightarrow> nat \<Rightarrow> memhash \<times> (nat \<times> int) option" where
  "memhash_insert H h k dptr dlen =
     (let (i, j, h) = find_nodep H h k
      in if j < length (arr h ! i) then (h, None)
         else (let h = new_node H h i j k (fill dptr dlen) in (h, vptr h)))"

definition memhash_store :: "(string \<Rightarrow> u32) \<Rightarrow> memhash \<Rightarrow> string \<Rightarrow> string option \<Rightarrow> nat \<Rightarrow> memhash \<times> (nat \<times> int) option" where
  "memhash_store H h k dptr dlen =
     (let (i, j, h) = find_nodep H h k; b = arr h ! i
      in if j < length b then
           (let n = b ! j
            in if dlen > length (ndata n) then
                 (let h = new_node H (h\<lparr>arr := (arr h)[i := take j b @ drop (Suc j) b], nodes := nodes h - 1\<rparr>) i j k (fill dptr dlen)
                  in (h, vptr h))
               else
                 (h\<lparr>arr := (arr h)[i := b[j := n\<lparr>ndata := fill dptr dlen\<rparr>]]\<rparr>, Some (nid n, DOFF (length k) dlen)))
         else (let h = new_node H h i j k (fill dptr dlen) in (h, vptr h)))"

definition memhash_delete :: "(string \<Rightarrow> u32) \<Rightarrow> memhash \<Rightarrow> string \<Rightarrow> (memhash \<times> int) option" where
  "memhash_delete H h k =
     (let (i, j, h) = find_nodep H h k; b = arr h ! i
      in if j < length b then
           if nodes h > 0 then Some (h\<lparr>arr := (arr h)[i := take j b @ drop (Suc j) b], nodes := nodes h - 1\<rparr>, 0) else None
         else Some (h, -1))"

text \<open>\<open>n->next\<close>: the rest of the chain after the node; \<open>None\<close> when the node has been freed.\<close>

definition after_node :: "nat \<Rightarrow> node list list \<Rightarrow> node list option" where
  "after_node a bs =
     (case filter (\<lambda>b. a \<in> set (map nid b)) bs of
        [] \<Rightarrow> None
      | b # _ \<Rightarrow> Some (tl (dropWhile (\<lambda>n. nid n \<noteq> a) b)))"

definition memhash_next :: "memhash \<Rightarrow> memhash option" where
  "memhash_next h =
     (case (case lastnode h of None \<Rightarrow> Some [] | Some a \<Rightarrow> after_node a (arr h)) of
        None \<Rightarrow> None
      | Some (n # ns) \<Rightarrow> Some (set_hdr n (h\<lparr>lastnode := Some (nid n)\<rparr>))
      | Some [] \<Rightarrow>
          (let i = nat (lastidx h + 1);
               i = i + length (takeWhile (\<lambda>b. b = []) (drop i (arr h)))
           in if i < length (arr h)
              then Some (set_hdr (hd (arr h ! i)) (h\<lparr>lastidx := int i, lastnode := Some (nid (hd (arr h ! i)))\<rparr>))
              else Some (clear_hdr (h\<lparr>lastnode := None\<rparr>))))"

definition memhash_first :: "memhash \<Rightarrow> memhash option" where
  "memhash_first h = memhash_next (h\<lparr>lastidx := -1, lastnode := None\<rparr>)"

definition memhash_count :: "memhash \<Rightarrow> nat" where
  "memhash_count h = nodes h"

text \<open>What the pointers of the header point to.\<close>

definition node_at :: "memhash \<Rightarrow> nat \<Rightarrow> node option" where
  "node_at h a = find (\<lambda>n. nid n = a) (concat (arr h))"

definition hdr_key :: "memhash \<Rightarrow> string option" where
  "hdr_key h = (case kptr h of None \<Rightarrow> None | Some a \<Rightarrow> map_option (\<lambda>n. take (klen h) (nkey n)) (node_at h a))"

definition hdr_val :: "memhash \<Rightarrow> string option" where
  "hdr_val h =
     (case vptr h of
        None \<Rightarrow> None
      | Some (a, off) \<Rightarrow>
          (case node_at h a of
             None \<Rightarrow> None
           | Some n \<Rightarrow> if off = DOFF (length (nkey n)) (length (ndata n)) \<and> vlen h = length (ndata n) then Some (ndata n) else None))"

definition memhash_ops :: "(string \<Rightarrow> u32) \<Rightarrow> (memhash, string, string) hashops" where
  "memhash_ops H =
     \<lparr>op_fetch = (\<lambda>h k. Some (memhash_fetch H h k)),
      op_store = (\<lambda>h k v. Some (fst (memhash_store H h k (Some v) (length v)))),
      op_delete = Some (\<lambda>h k. map_option fst (memhash_delete H h k)),
      op_first = memhash_first, op_next = memhash_next,
      op_key = hdr_key, op_val = hdr_val, op_count = Some memhash_count\<rparr>"

section \<open>Invariant\<close>

definition buckets_ok :: "(string \<Rightarrow> u32) \<Rightarrow> nat \<Rightarrow> node list list \<Rightarrow> bool" where
  "buckets_ok H m a \<longleftrightarrow> length a = m + 1 \<and> (\<forall>i\<le>m. \<forall>n\<in>set (a ! i). bucket H m (nkey n) = i)"

definition nodes_ok :: "nat \<Rightarrow> node list \<Rightarrow> bool" where
  "nodes_ok b ns \<longleftrightarrow> distinct (map nkey ns) \<and> distinct (map nid ns) \<and> (\<forall>n\<in>set ns. nid n < b)"

definition mh_inv :: "(string \<Rightarrow> u32) \<Rightarrow> memhash \<Rightarrow> bool" where
  "mh_inv H h \<longleftrightarrow> buckets_ok H (mask h) (arr h) \<and> mask h \<le> 2 ^ 30 + 1 \<and>
     nodes h = length (concat (arr h)) \<and> nodes_ok (brk h) (concat (arr h))"

definition kvs :: "node list \<Rightarrow> (string \<times> string) list" where
  "kvs ns = map (\<lambda>n. (nkey n, ndata n)) ns"

definition mh_map :: "memhash \<Rightarrow> string \<Rightarrow> string option" where
  "mh_map h = map_of (kvs (concat (arr h)))"

lemma fst_kvs [simp]: "map fst (kvs ns) = map nkey ns"
  by (simp add: kvs_def)

lemma distinct_map_mset: "mset xs = mset ys \<Longrightarrow> distinct (map f xs) = distinct (map f ys)"
  by (rule mset_eq_imp_distinct_iff) simp

lemma nodes_ok_mset: "mset xs = mset ys \<Longrightarrow> nodes_ok b xs = nodes_ok b ys"
  using distinct_map_mset [of xs ys nkey] distinct_map_mset [of xs ys nid] mset_eq_setD [of xs ys] by (simp add: nodes_ok_def)

lemma map_of_mset:
  assumes "mset xs = mset ys" "nodes_ok b xs"
  shows "map_of (kvs xs) = map_of (kvs ys)"
proof (rule map_of_inject_set [THEN iffD2])
  show "distinct (map fst (kvs xs))" "distinct (map fst (kvs ys))"
    using assms nodes_ok_mset [OF assms(1)] by (simp_all add: nodes_ok_def)
  show "set (kvs xs) = set (kvs ys)" using mset_eq_setD [OF assms(1)] by (simp add: kvs_def)
qed

lemma concat_update_mset:
  "i < length a \<Longrightarrow> mset (concat (a[i := b])) + mset (a ! i) = mset (concat a) + mset b"
proof (induction a arbitrary: i)
  case (Cons x xs)
  then show ?case by (cases i) (auto simp: ac_simps)
qed simp

lemma bucket_le: "m < 2 ^ 32 \<Longrightarrow> bucket H m k \<le> m"
proof -
  assume m: "m < 2 ^ 32"
  have "H k AND of_nat m \<le> of_nat m" by (rule word_and_le1)
  then have "bucket H m k \<le> unat (of_nat m :: u32)" unfolding bucket_def by (simp add: word_le_nat_alt)
  also have "\<dots> = m" using m by (simp add: unsigned_of_nat take_bit_nat_eq_self)
  finally show ?thesis .
qed

lemma mh_inv_mask: "mh_inv H h \<Longrightarrow> mask h < 2 ^ 32"
  by (simp add: mh_inv_def)

lemma mh_bucket: "mh_inv H h \<Longrightarrow> bucket H (mask h) k < length (arr h)"
  using bucket_le [OF mh_inv_mask, of H h H k] by (simp add: mh_inv_def buckets_ok_def less_Suc_eq_le)

lemma mh_map_Some:
  assumes "mh_inv H h"
  shows "mh_map h k = Some d \<longleftrightarrow> (\<exists>n\<in>set (arr h ! bucket H (mask h) k). nkey n = k \<and> ndata n = d)"
proof -
  have "mh_map h k = Some d \<longleftrightarrow> (k, d) \<in> set (kvs (concat (arr h)))"
    unfolding mh_map_def using assms by (intro map_of_eq_Some_iff) (simp add: mh_inv_def nodes_ok_def)
  also have "\<dots> \<longleftrightarrow> (\<exists>i<length (arr h). \<exists>n\<in>set (arr h ! i). nkey n = k \<and> ndata n = d)"
    by (auto simp: kvs_def set_conv_nth [of "arr h"])
  also have "\<dots> \<longleftrightarrow> (\<exists>n\<in>set (arr h ! bucket H (mask h) k). nkey n = k \<and> ndata n = d)"
    using assms mh_bucket [OF assms, of k] by (auto simp: mh_inv_def buckets_ok_def less_Suc_eq_le)
  finally show ?thesis .
qed

section \<open>Operations\<close>

lemma hdr_fields [simp]:
  "arr (set_hdr n h) = arr h" "mask (set_hdr n h) = mask h" "nodes (set_hdr n h) = nodes h" "brk (set_hdr n h) = brk h"
  "arr (clear_hdr h) = arr h" "mask (clear_hdr h) = mask h" "nodes (clear_hdr h) = nodes h" "brk (clear_hdr h) = brk h"
  by (simp_all add: set_hdr_def clear_hdr_def)

lemma mh_inv_cong:
  "arr h' = arr h \<Longrightarrow> mask h' = mask h \<Longrightarrow> nodes h' = nodes h \<Longrightarrow> brk h' = brk h \<Longrightarrow> mh_inv H h' = mh_inv H h"
  "arr h' = arr h \<Longrightarrow> mh_map h' = mh_map h"
  by (simp_all add: mh_inv_def mh_map_def)

lemma find_nodep_result:
  assumes "find_nodep H h k = (i, j, h')"
  shows "i = bucket H (mask h) k" "arr h' = arr h" "mask h' = mask h" "nodes h' = nodes h" "brk h' = brk h" "j \<le> length (arr h ! i)"
    "j < length (arr h ! i) \<Longrightarrow> nkey (arr h ! i ! j) = k \<and> h' = set_hdr (arr h ! i ! j) h"
    "\<not> j < length (arr h ! i) \<Longrightarrow> h' = h \<and> (\<forall>n\<in>set (arr h ! i). nkey n \<noteq> k)"
proof -
  let ?b = "arr h ! bucket H (mask h) k"
  have j: "i = bucket H (mask h) k" "j = length (takeWhile (\<lambda>n. nkey n \<noteq> k) ?b)"
    using assms by (auto simp: find_nodep_def Let_def)
  then show "i = bucket H (mask h) k" "j \<le> length (arr h ! i)" by (simp_all add: length_takeWhile_le)
  show "arr h' = arr h" "mask h' = mask h" "nodes h' = nodes h" "brk h' = brk h"
    using assms by (auto simp: find_nodep_def Let_def)
  show "nkey (arr h ! i ! j) = k \<and> h' = set_hdr (arr h ! i ! j) h" if "j < length (arr h ! i)"
    using assms that nth_length_takeWhile [of "\<lambda>n. nkey n \<noteq> k" ?b] j by (auto simp: find_nodep_def Let_def)
  show "h' = h \<and> (\<forall>n\<in>set (arr h ! i). nkey n \<noteq> k)" if n: "\<not> j < length (arr h ! i)"
  proof -
    have "takeWhile (\<lambda>n. nkey n \<noteq> k) ?b = ?b"
      using n j by (subst takeWhile_eq_take) (simp add: not_less)
    then have "\<forall>n\<in>set ?b. nkey n \<noteq> k" by (rule takeWhile_eq_all_conv [THEN iffD1])
    then show ?thesis using assms n j by (auto simp: find_nodep_def Let_def)
  qed
qed

lemma mh_key_absent:
  assumes "mh_inv H h" "\<forall>n\<in>set (arr h ! bucket H (mask h) k). nkey n \<noteq> k"
  shows "mh_map h k = None" "k \<notin> nkey ` set (concat (arr h))"
proof -
  show "mh_map h k = None" using mh_map_Some [OF assms(1), of k] assms(2) by (cases "mh_map h k") auto
  then show "k \<notin> nkey ` set (concat (arr h))" by (force simp: mh_map_def map_of_eq_None_iff kvs_def)
qed

lemma node_at_mem:
  assumes "nodes_ok b (concat (arr h))" "n \<in> set (concat (arr h))"
  shows "node_at h (nid n) = Some n"
proof -
  have "distinct (map nid ns) \<Longrightarrow> n \<in> set ns \<Longrightarrow> find (\<lambda>m. nid m = nid n) ns = Some n" for ns
    by (induction ns) auto
  then show ?thesis using assms by (simp add: node_at_def nodes_ok_def)
qed

lemma bucket_mem: "i < length a \<Longrightarrow> n \<in> set (a ! i) \<Longrightarrow> n \<in> set (concat a)"
  using nth_mem by fastforce

lemma fetch_spec:
  assumes "mh_inv H h"
  shows "mh_inv H (memhash_fetch H h k)" "mh_map (memhash_fetch H h k) = mh_map h" "hdr_val (memhash_fetch H h k) = mh_map h k"
proof -
  obtain i j h' where f: "find_nodep H h k = (i, j, h')" by (cases "find_nodep H h k") auto
  note r = find_nodep_result [OF f]
  have e: "memhash_fetch H h k = (if j < length (arr h ! i) then h' else clear_hdr h')"
    by (simp add: memhash_fetch_def f r(2))
  show "mh_inv H (memhash_fetch H h k)" "mh_map (memhash_fetch H h k) = mh_map h"
    using assms r(2-5) mh_inv_cong [of h' h] mh_inv_cong [of "clear_hdr h'" h] by (simp_all add: e)
  show "hdr_val (memhash_fetch H h k) = mh_map h k"
  proof (cases "j < length (arr h ! i)")
    case True
    let ?n = "arr h ! i ! j"
    have n: "?n \<in> set (arr h ! i)" "i < length (arr h)" using True r(1) mh_bucket [OF assms] by simp_all
    then have "mh_map h k = Some (ndata ?n)" using mh_map_Some [OF assms, of k] r(1,7) True by auto
    moreover have "node_at (set_hdr ?n h) (nid ?n) = Some ?n"
      using node_at_mem [of "brk h" "set_hdr ?n h" ?n] assms bucket_mem [OF n(2,1)] by (simp add: mh_inv_def del: set_concat)
    ultimately show ?thesis using r(7) [OF True] True by (simp add: e hdr_val_def) (simp add: set_hdr_def)
  next
    case False
    then show ?thesis using r(1,8) mh_key_absent [OF assms, of k] by (simp add: e hdr_val_def clear_hdr_def)
  qed
qed

lemma split_fold:
  assumes "m < 2 ^ 32"
  shows "buckets_ok H m a \<Longrightarrow> buckets_ok H m (fold (\<lambda>t a. let p = bucket H m (nkey t) in a[p := t # a ! p]) ns a) \<and>
    mset (concat (fold (\<lambda>t a. let p = bucket H m (nkey t) in a[p := t # a ! p]) ns a)) = mset ns + mset (concat a)"
proof (induction ns arbitrary: a)
  case (Cons n ns)
  let ?p = "bucket H m (nkey n)" and ?a = "a[bucket H m (nkey n) := n # a ! bucket H m (nkey n)]"
  have p: "?p < length a" using bucket_le [OF assms, of H "nkey n"] Cons.prems by (simp add: buckets_ok_def)
  have "buckets_ok H m ?a" using Cons.prems p by (auto simp: buckets_ok_def nth_list_update)
  moreover have "mset (concat ?a) + mset (a ! ?p) = add_mset n (mset (concat a)) + mset (a ! ?p)"
    using concat_update_mset [OF p, of "n # a ! ?p"] by simp
  then have "mset (concat ?a) = add_mset n (mset (concat a))" by (simp only: add_right_cancel)
  ultimately show ?case using Cons.IH [of ?a] by (simp add: Let_def)
qed simp

lemma buckets_ok_empty: "buckets_ok H m (replicate (m + 1) [])"
  by (auto simp: buckets_ok_def nth_replicate less_Suc_eq_le simp del: replicate.simps)

lemma split_spec:
  assumes "mh_inv H h" "mask h \<le> 2 ^ 29"
  shows "mh_inv H (memhash_split H h)" "mh_map (memhash_split H h) = mh_map h"
proof -
  let ?m = "(mask h + 1) * 2 - 1"
  have m: "?m < 2 ^ 32" "?m \<le> 2 ^ 30 + 1" using assms(2) by simp_all
  note s = split_fold [OF m(1) buckets_ok_empty, of H "concat (arr h)"]
  have e: "mset (concat (arr (memhash_split H h))) = mset (concat (arr h))"
    using s by (simp add: memhash_split_def Let_def)
  show "mh_inv H (memhash_split H h)"
    using s assms(1) m(2) nodes_ok_mset [OF e] mset_eq_length [OF e] by (simp add: mh_inv_def memhash_split_def Let_def)
  show "mh_map (memhash_split H h) = mh_map h"
    unfolding mh_map_def using assms(1) nodes_ok_mset [OF e] by (intro map_of_mset [OF e, of "brk h"]) (simp add: mh_inv_def)
qed

lemma buckets_ok_update:
  "buckets_ok H m a \<Longrightarrow> \<forall>n\<in>set b. bucket H m (nkey n) = i \<Longrightarrow> buckets_ok H m (a[i := b])"
  unfolding buckets_ok_def by (simp, metis less_Suc_eq_le nth_list_update_eq nth_list_update_neq)

lemma new_node_spec:
  assumes inv: "mh_inv H h" and i: "i = bucket H (mask h) k" and k: "k \<notin> nkey ` set (concat (arr h))" and c: "nodes h < 2 ^ 29"
  shows "mh_inv H (new_node H h i j k d)" "mh_map (new_node H h i j k d) = (mh_map h)(k \<mapsto> d)"
proof -
  let ?n = "\<lparr>nid = brk h, nkey = k, ndata = d\<rparr>" and ?b = "arr h ! i"
  let ?b' = "take j ?b @ ?n # drop j ?b"
  let ?h = "(set_hdr ?n h)\<lparr>arr := (arr h)[i := ?b'], nodes := nodes h + 1, brk := brk h + 1\<rparr>"
  have il: "i < length (arr h)" using mh_bucket [OF inv] i by simp
  have "mset ?b = mset (take j ?b) + mset (drop j ?b)" by (metis append_take_drop_id mset_append)
  then have "mset ?b' = add_mset ?n (mset ?b)" by simp
  then have "mset (concat ((arr h)[i := ?b'])) + mset ?b = mset (?n # concat (arr h)) + mset ?b"
    using concat_update_mset [OF il, of ?b'] by simp
  then have e: "mset (concat ((arr h)[i := ?b'])) = mset (?n # concat (arr h))" by (simp only: add_right_cancel)
  have ok: "nodes_ok (brk h + 1) (?n # concat (arr h))"
    using inv k by (auto simp: mh_inv_def nodes_ok_def less_Suc_eq simp del: set_concat)
  have "\<forall>n\<in>set ?b'. bucket H (mask h) (nkey n) = i"
    using inv il i set_take_subset [of j ?b] set_drop_subset [of j ?b] by (auto simp: mh_inv_def buckets_ok_def less_Suc_eq_le)
  then have "buckets_ok H (mask h) ((arr h)[i := ?b'])" using inv by (intro buckets_ok_update) (auto simp: mh_inv_def)
  then have 1: "mh_inv H ?h"
    using inv nodes_ok_mset [OF e] ok mset_eq_length [OF e] by (simp add: mh_inv_def)
  have 2: "mh_map ?h = (mh_map h)(k \<mapsto> d)"
    using map_of_mset [OF e] nodes_ok_mset [OF e] ok by (simp add: mh_map_def kvs_def)
  have s: "new_node H h i j k d = (if nodes ?h \<ge> mask ?h then memhash_split H ?h else ?h)"
    by (simp add: new_node_def Let_def)
  have "nodes ?h \<ge> mask ?h \<Longrightarrow> mask ?h \<le> 2 ^ 29" using c by simp
  then show "mh_inv H (new_node H h i j k d)" "mh_map (new_node H h i j k d) = (mh_map h)(k \<mapsto> d)"
    unfolding s using split_spec [OF 1] 1 2 by (simp_all only: split: if_split) blast+
qed

lemma remove_spec:
  assumes inv: "mh_inv H h" and i: "i = bucket H (mask h) k" and j: "j < length (arr h ! i)" "nkey (arr h ! i ! j) = k"
    and h': "h' = h\<lparr>arr := (arr h)[i := take j (arr h ! i) @ drop (Suc j) (arr h ! i)], nodes := nodes h - 1\<rparr>"
  shows "mh_inv H h'" "mh_map h' = (mh_map h)(k := None)" "k \<notin> nkey ` set (concat (arr h'))" "nodes h' = nodes h - 1" "nodes h > 0"
proof -
  let ?b = "arr h ! i" and ?n = "arr h ! i ! j"
  let ?b' = "take j ?b @ drop (Suc j) ?b"
  have il: "i < length (arr h)" using mh_bucket [OF inv] i by simp
  have "mset ?b = mset (take j ?b @ ?n # drop (Suc j) ?b)" using id_take_nth_drop [OF j(1)] by simp
  then have "mset ?b = add_mset ?n (mset ?b')" by simp
  then have "mset (?n # concat ((arr h)[i := ?b'])) + mset ?b' = mset (concat (arr h)) + mset ?b'"
    using concat_update_mset [OF il, of ?b'] by simp
  then have e: "mset (concat (arr h)) = mset (?n # concat ((arr h)[i := ?b']))" by (simp only: add_right_cancel)
  have ok: "nodes_ok (brk h) (?n # concat ((arr h)[i := ?b']))" using inv nodes_ok_mset [OF e] by (simp add: mh_inv_def)
  have "\<forall>n\<in>set ?b'. bucket H (mask h) (nkey n) = i"
    using inv il i set_take_subset [of j ?b] set_drop_subset [of "Suc j" ?b] by (auto simp: mh_inv_def buckets_ok_def less_Suc_eq_le)
  then have "buckets_ok H (mask h) ((arr h)[i := ?b'])" using inv by (intro buckets_ok_update) (auto simp: mh_inv_def)
  then show "mh_inv H h'" 
    using inv ok mset_eq_length [OF e] by (simp add: mh_inv_def h' nodes_ok_def)
  show kn: "k \<notin> nkey ` set (concat (arr h'))" using ok j(2) by (auto simp: nodes_ok_def h')
  have "mh_map h = (mh_map h')(k \<mapsto> ndata ?n)"
    using map_of_mset [OF e, of "brk h"] inv j(2) by (simp add: mh_map_def kvs_def mh_inv_def h')
  moreover have "mh_map h' k = None" using kn by (force simp: mh_map_def map_of_eq_None_iff kvs_def)
  ultimately show "mh_map h' = (mh_map h)(k := None)" by (simp add: fun_eq_iff)
  show "nodes h' = nodes h - 1" "nodes h > 0" using inv mset_eq_length [OF e] by (simp_all add: h' mh_inv_def)
qed

lemma chain_parts:
  assumes "i < length a" "j < length (a ! i)"
  shows "mset (concat (a[i := (a ! i)[j := m]])) = mset (m # concat (a[i := take j (a ! i) @ drop (Suc j) (a ! i)]))"
proof -
  let ?r = "take j (a ! i) @ drop (Suc j) (a ! i)"
  have "mset ((a ! i)[j := m]) = add_mset m (mset ?r)" using assms(2) by (simp add: upd_conv_take_nth_drop)
  moreover have "mset (concat (a[i := (a ! i)[j := m]])) + mset (a ! i) = mset (concat a) + mset ((a ! i)[j := m])"
    "mset (concat (a[i := ?r])) + mset (a ! i) = mset (concat a) + mset ?r"
    by (rule concat_update_mset [OF assms(1)])+
  ultimately have "mset (concat (a[i := (a ! i)[j := m]])) + mset (a ! i) = mset (m # concat (a[i := ?r])) + mset (a ! i)"
    by simp
  then show ?thesis by (simp only: add_right_cancel)
qed

lemma overwrite_spec:
  assumes inv: "mh_inv H h" and i: "i = bucket H (mask h) k" and j: "j < length (arr h ! i)" "nkey (arr h ! i ! j) = k"
    and h': "h' = h\<lparr>arr := (arr h)[i := (arr h ! i)[j := (arr h ! i ! j)\<lparr>ndata := d\<rparr>]]\<rparr>"
  shows "mh_inv H h'" "mh_map h' = (mh_map h)(k \<mapsto> d)"
proof -
  let ?b = "arr h ! i" and ?n = "arr h ! i ! j"
  let ?n' = "?n\<lparr>ndata := d\<rparr>" and ?rest = "concat ((arr h)[i := take j ?b @ drop (Suc j) ?b])"
  have il: "i < length (arr h)" using mh_bucket [OF inv] i by simp
  have e1: "mset (concat (arr h)) = mset (?n # ?rest)" using chain_parts [OF il j(1), of ?n] by simp
  have e2: "mset (concat (arr h')) = mset (?n' # ?rest)" using chain_parts [OF il j(1), of ?n'] by (simp add: h')
  have ok: "nodes_ok (brk h) (?n # ?rest)" using inv nodes_ok_mset [OF e1] by (simp add: mh_inv_def)
  then have ok': "nodes_ok (brk h) (?n' # ?rest)" by (simp add: nodes_ok_def)
  have "\<forall>n\<in>set (?b[j := ?n']). bucket H (mask h) (nkey n) = i"
    using inv il i j set_update_subset_insert [of ?b j ?n'] by (auto simp: mh_inv_def buckets_ok_def less_Suc_eq_le)
  then have "buckets_ok H (mask h) (arr h')" using inv unfolding h' by (simp add: mh_inv_def buckets_ok_update)
  then show "mh_inv H h'"
    using inv ok' nodes_ok_mset [OF e2] mset_eq_length [OF e1] mset_eq_length [OF e2] by (simp add: mh_inv_def h')
  have "mh_map h' = (map_of (kvs ?rest))(k \<mapsto> d)"
    using map_of_mset [OF e2, of "brk h"] nodes_ok_mset [OF e2] ok' j(2) by (simp add: mh_map_def kvs_def)
  moreover have "mh_map h = (map_of (kvs ?rest))(k \<mapsto> ndata ?n)"
    using map_of_mset [OF e1, of "brk h"] nodes_ok_mset [OF e1] ok j(2) by (simp add: mh_map_def kvs_def)
  ultimately show "mh_map h' = (mh_map h)(k \<mapsto> d)" by simp
qed

lemma store_spec:
  assumes inv: "mh_inv H h" and c: "nodes h < 2 ^ 29"
  shows "mh_inv H (fst (memhash_store H h k dptr dlen)) \<and> mh_map (fst (memhash_store H h k dptr dlen)) = (mh_map h)(k \<mapsto> fill dptr dlen)"
proof -
  obtain i j h1 where f: "find_nodep H h k = (i, j, h1)" by (cases "find_nodep H h k") auto
  note r = find_nodep_result [OF f]
  have inv1: "mh_inv H h1" and m1: "mh_map h1 = mh_map h" using mh_inv_cong [of h1 h] r(2-5) inv by simp_all
  have i: "i = bucket H (mask h1) k" using r(1,3) by simp
  have c1: "nodes h1 < 2 ^ 29" using c r(4) by simp
  let ?b = "arr h1 ! i"
  let ?h2 = "h1\<lparr>arr := (arr h1)[i := take j ?b @ drop (Suc j) ?b], nodes := nodes h1 - 1\<rparr>"
  have s: "fst (memhash_store H h k dptr dlen) =
      (if j < length ?b then
         (if dlen > length (ndata (?b ! j)) then new_node H ?h2 i j k (fill dptr dlen)
          else h1\<lparr>arr := (arr h1)[i := ?b[j := (?b ! j)\<lparr>ndata := fill dptr dlen\<rparr>]]\<rparr>)
       else new_node H h1 i j k (fill dptr dlen))"
    by (simp add: memhash_store_def f Let_def)
  show ?thesis
  proof (cases "j < length ?b")
    case True
    have k: "nkey (?b ! j) = k" using r(2,7) True by simp
    note rm = remove_spec [OF inv1 i True k refl]
    have "i = bucket H (mask ?h2) k" "nodes ?h2 < 2 ^ 29" using i c1 by simp_all
    from new_node_spec [OF rm(1) this(1) rm(3) this(2), of j "fill dptr dlen"] overwrite_spec [OF inv1 i True k refl, of "fill dptr dlen"]
    show ?thesis unfolding s if_P [OF True] m1 [symmetric] using rm(2) by simp
  next
    case False
    have a: "\<forall>n\<in>set (arr h1 ! bucket H (mask h1) k). nkey n \<noteq> k" using r(2,8) False i by simp
    from new_node_spec [OF inv1 i mh_key_absent(2) [OF inv1 a] c1, of j "fill dptr dlen"]
    show ?thesis unfolding s if_not_P [OF False] m1 [symmetric] by simp
  qed
qed

lemma mh_map_found:
  assumes "mh_inv H h" "i = bucket H (mask h) k" "j < length (arr h ! i)" "nkey (arr h ! i ! j) = k"
  shows "mh_map h k = Some (ndata (arr h ! i ! j))"
  unfolding mh_map_Some [OF assms(1)] assms(2) [symmetric] using assms(3,4) nth_mem by blast

lemma insert_spec:
  assumes inv: "mh_inv H h" and c: "nodes h < 2 ^ 29"
  shows "mh_inv H (fst (memhash_insert H h k dptr dlen)) \<and>
    mh_map (fst (memhash_insert H h k dptr dlen)) = (if mh_map h k = None then (mh_map h)(k \<mapsto> fill dptr dlen) else mh_map h)"
proof -
  obtain i j h1 where f: "find_nodep H h k = (i, j, h1)" by (cases "find_nodep H h k") auto
  note r = find_nodep_result [OF f]
  have inv1: "mh_inv H h1" and m1: "mh_map h1 = mh_map h" using mh_inv_cong [of h1 h] r(2-5) inv by simp_all
  have i: "i = bucket H (mask h1) k" using r(1,3) by simp
  have c1: "nodes h1 < 2 ^ 29" using c r(4) by simp
  have s: "fst (memhash_insert H h k dptr dlen) = (if j < length (arr h1 ! i) then h1 else new_node H h1 i j k (fill dptr dlen))"
    by (simp add: memhash_insert_def f Let_def)
  show ?thesis
  proof (cases "j < length (arr h1 ! i)")
    case True
    have "nkey (arr h1 ! i ! j) = k" using r(2,7) True by simp
    then have "mh_map h1 k = Some (ndata (arr h1 ! i ! j))" by (rule mh_map_found [OF inv1 i True])
    then show ?thesis unfolding s if_P [OF True] m1 [symmetric] using inv1 by simp
  next
    case False
    have a: "\<forall>n\<in>set (arr h1 ! bucket H (mask h1) k). nkey n \<noteq> k" using r(2,8) False i by simp
    from new_node_spec [OF inv1 i mh_key_absent(2) [OF inv1 a] c1, of j "fill dptr dlen"] mh_key_absent(1) [OF inv1 a]
    show ?thesis unfolding s if_not_P [OF False] m1 [symmetric] by simp
  qed
qed

lemma delete_spec:
  assumes inv: "mh_inv H h"
  shows "\<exists>h'. memhash_delete H h k = Some (h', if mh_map h k = None then -1 else 0) \<and> mh_inv H h' \<and> mh_map h' = (mh_map h)(k := None)"
proof -
  obtain i j h1 where f: "find_nodep H h k = (i, j, h1)" by (cases "find_nodep H h k") auto
  note r = find_nodep_result [OF f]
  have inv1: "mh_inv H h1" and m1: "mh_map h1 = mh_map h" using mh_inv_cong [of h1 h] r(2-5) inv by simp_all
  have i: "i = bucket H (mask h1) k" using r(1,3) by simp
  show ?thesis
  proof (cases "j < length (arr h1 ! i)")
    case True
    have k: "nkey (arr h1 ! i ! j) = k" using r(2,7) True by simp
    then have "mh_map h1 k = Some (ndata (arr h1 ! i ! j))" by (rule mh_map_found [OF inv1 i True])
    then show ?thesis using remove_spec [OF inv1 i True k refl] True by (simp add: memhash_delete_def f Let_def m1)
  next
    case False
    have a: "\<forall>n\<in>set (arr h1 ! bucket H (mask h1) k). nkey n \<noteq> k" using r(2,8) False i by simp
    then show ?thesis using mh_key_absent(1) [OF inv1 a] inv1 m1 False by (simp add: memhash_delete_def f Let_def fun_upd_idem)
  qed
qed

section \<open>Walking\<close>

definition mh_left :: "memhash \<Rightarrow> node list" where
  "mh_left h =
     (case lastnode h of
        None \<Rightarrow> []
      | Some a \<Rightarrow> dropWhile (\<lambda>n. nid n \<noteq> a) (arr h ! nat (lastidx h)) @ concat (drop (Suc (nat (lastidx h))) (arr h)))"

definition mh_walking :: "memhash \<Rightarrow> bool" where
  "mh_walking h \<longleftrightarrow>
     (case lastnode h of
        None \<Rightarrow> kptr h = None \<and> vptr h = None
      | Some a \<Rightarrow> 0 \<le> lastidx h \<and> nat (lastidx h) < length (arr h) \<and>
          (\<exists>n\<in>set (arr h ! nat (lastidx h)). nid n = a \<and> (\<exists>h0. h = set_hdr n h0)))"

lemma dropWhile_nid:
  "distinct (map nid (xs @ n # ys)) \<Longrightarrow> dropWhile (\<lambda>m. nid m \<noteq> nid n) (xs @ n # ys) = n # ys"
  by (induction xs) auto

lemma distinct_bucket: "distinct (map nid (concat a)) \<Longrightarrow> i < length a \<Longrightarrow> distinct (map nid (a ! i))"
proof (induction a arbitrary: i)
  case (Cons b bs)
  then show ?case by (cases i) auto
qed simp

lemma after_node_bucket:
  "distinct (map nid (concat a)) \<Longrightarrow> i < length a \<Longrightarrow> x \<in> nid ` set (a ! i) \<Longrightarrow>
   after_node x a = Some (tl (dropWhile (\<lambda>n. nid n \<noteq> x) (a ! i)))"
proof -
  have "distinct (map nid (concat a)) \<Longrightarrow> i < length a \<Longrightarrow> x \<in> nid ` set (a ! i) \<Longrightarrow>
      filter (\<lambda>b. x \<in> set (map nid b)) a = [a ! i]"
  proof (induction a arbitrary: i)
    case (Cons b bs)
    show ?case
    proof (cases i)
      case 0
      then have "filter (\<lambda>b. x \<in> set (map nid b)) bs = []" using Cons.prems(1,3) by (auto simp: filter_empty_conv)
      then show ?thesis using 0 Cons.prems(3) by simp
    next
      case (Suc k)
      then have "x \<in> nid ` set (concat bs)" using Cons.prems(2,3) bucket_mem [of k bs] by (auto simp del: set_concat)
      then have "x \<notin> nid ` set b" using Cons.prems(1) by auto
      then show ?thesis using Suc Cons by simp
    qed
  qed simp
  then show "distinct (map nid (concat a)) \<Longrightarrow> i < length a \<Longrightarrow> x \<in> nid ` set (a ! i) \<Longrightarrow>
   after_node x a = Some (tl (dropWhile (\<lambda>n. nid n \<noteq> x) (a ! i)))" by (simp add: after_node_def)
qed

lemma skip_empty:
  assumes "i' = i + length (takeWhile (\<lambda>b. b = []) (drop i a))"
  shows "concat (drop i a) = concat (drop i' a)" "i' < length a \<Longrightarrow> a ! i' \<noteq> []" "\<not> i' < length a \<Longrightarrow> concat (drop i a) = []"
proof -
  let ?t = "takeWhile (\<lambda>b. b = []) (drop i a)" and ?d = "dropWhile (\<lambda>b. b = []) (drop i a)"
  have t: "concat ?t = []" by (auto dest: set_takeWhileD)
  have d: "drop i' a = ?d" using assms by (simp add: dropWhile_eq_drop add.commute)
  have "concat (drop i a) = concat (?t @ ?d)" by simp
  also have "\<dots> = concat ?d" unfolding concat_append t by simp
  finally show c: "concat (drop i a) = concat (drop i' a)" unfolding d .
  show "a ! i' \<noteq> []" if "i' < length a"
  proof -
    have "?d \<noteq> []" using that d by (metis drop_eq_Nil not_le)
    then have "hd ?d \<noteq> []" by (rule hd_dropWhile)
    then show ?thesis using that d hd_drop_conv_nth [of i' a] by simp
  qed
  show "concat (drop i a) = []" if "\<not> i' < length a" using c that by simp
qed

lemma mh_current:
  assumes "mh_inv H h" "mh_walking h"
  shows "hdr_key h = (case mh_left h of [] \<Rightarrow> None | n # ns \<Rightarrow> Some (nkey n))"
    "mh_left h = n # ns \<Longrightarrow> hdr_val h = Some (ndata n)"
proof -
  have "hdr_key h = (case mh_left h of [] \<Rightarrow> None | n # ns \<Rightarrow> Some (nkey n)) \<and> (\<forall>n ns. mh_left h = n # ns \<longrightarrow> hdr_val h = Some (ndata n))"
  proof (cases "lastnode h")
    case None
    then show ?thesis using assms(2) by (simp add: mh_walking_def mh_left_def hdr_key_def)
  next
    case (Some a)
    let ?i = "nat (lastidx h)"
    obtain n h0 where n: "?i < length (arr h)" "n \<in> set (arr h ! ?i)" "nid n = a" "h = set_hdr n h0"
      using assms(2) Some by (auto simp: mh_walking_def)
    have d: "distinct (map nid (arr h ! ?i))" using assms(1) n(1) by (intro distinct_bucket) (auto simp: mh_inv_def nodes_ok_def)
    obtain xs ys where b: "arr h ! ?i = xs @ n # ys" using n(2) by (meson split_list)
    have l: "mh_left h = n # ys @ concat (drop (Suc ?i) (arr h))"
      using dropWhile_nid [of xs n ys] d Some n(3) unfolding mh_left_def b by simp
    have "node_at h (nid n) = Some n"
      using assms(1) bucket_mem [OF n(1,2)] by (intro node_at_mem [of "brk h"]) (simp_all add: mh_inv_def)
    moreover have "kptr h = Some (nid n)" "klen h = length (nkey n)" "vlen h = length (ndata n)"
      "vptr h = Some (nid n, DOFF (length (nkey n)) (length (ndata n)))"
      by (simp_all add: n(4) [unfolded set_hdr_def])
    ultimately show ?thesis unfolding l by (simp add: hdr_key_def hdr_val_def)
  qed
  then show "hdr_key h = (case mh_left h of [] \<Rightarrow> None | n # ns \<Rightarrow> Some (nkey n))"
    "mh_left h = n # ns \<Longrightarrow> hdr_val h = Some (ndata n)" by auto
qed

lemma walk_start:
  assumes inv: "mh_inv H h" and i: "nat (lastidx h + 1) = i" and l: "lastnode h = None"
  shows "\<exists>h'. memhash_next h = Some h' \<and> mh_inv H h' \<and> mh_map h' = mh_map h \<and> mh_walking h' \<and> mh_left h' = concat (drop i (arr h))"
proof -
  define i' where "i' = i + length (takeWhile (\<lambda>b. b = []) (drop i (arr h)))"
  note s = skip_empty [OF i'_def]
  show ?thesis
  proof (cases "i' < length (arr h)")
    case True
    let ?n = "hd (arr h ! i')"
    let ?h = "set_hdr ?n (h\<lparr>lastidx := int i', lastnode := Some (nid ?n)\<rparr>)"
    have n: "?n \<in> set (arr h ! i')" "arr h ! i' = ?n # tl (arr h ! i')" using s(2) [OF True] by simp_all
    have f: "lastnode ?h = Some (nid ?n)" "lastidx ?h = int i'" by (simp_all add: set_hdr_def)
    have "memhash_next h = Some ?h" using l i True by (simp add: memhash_next_def Let_def i'_def)
    moreover have "mh_inv H ?h" "mh_map ?h = mh_map h" using inv mh_inv_cong [of ?h h] by simp_all
    moreover have "mh_walking ?h" using n(1) True f by (auto simp: mh_walking_def)
    moreover have "mh_left ?h = concat (drop i (arr h))"
    proof -
      have "dropWhile (\<lambda>m. nid m \<noteq> nid ?n) (arr h ! i') = arr h ! i'" by (subst (1 2) n(2)) simp
      then have "mh_left ?h = arr h ! i' @ concat (drop (Suc i') (arr h))" by (simp add: mh_left_def f)
      also have "\<dots> = concat (drop i' (arr h))" using Cons_nth_drop_Suc [OF True] by (metis concat.simps(2))
      finally show ?thesis using s(1) by simp
    qed
    ultimately show ?thesis by blast
  next
    case False
    let ?h = "clear_hdr (h\<lparr>lastnode := None\<rparr>)"
    have "memhash_next h = Some ?h" using l i False by (simp add: memhash_next_def Let_def i'_def)
    moreover have "mh_inv H ?h" "mh_map ?h = mh_map h" using inv mh_inv_cong [of ?h h] by simp_all
    moreover have "mh_walking ?h" "mh_left ?h = []" by (simp_all add: mh_walking_def mh_left_def clear_hdr_def)
    ultimately show ?thesis using s(3) [OF False] by auto
  qed
qed

lemma walk_next:
  assumes inv: "mh_inv H h" and w: "mh_walking h" and l: "mh_left h \<noteq> []"
  shows "\<exists>h'. memhash_next h = Some h' \<and> mh_inv H h' \<and> mh_map h' = mh_map h \<and> mh_walking h' \<and> mh_left h' = tl (mh_left h)"
proof -
  let ?i = "nat (lastidx h)"
  obtain a where a: "lastnode h = Some a" using l by (cases "lastnode h") (auto simp: mh_left_def)
  obtain n where n: "0 \<le> lastidx h" "?i < length (arr h)" "n \<in> set (arr h ! ?i)" "nid n = a"
    using w a by (auto simp: mh_walking_def)
  have ids: "distinct (map nid (concat (arr h)))" using inv by (simp add: mh_inv_def nodes_ok_def)
  have d: "distinct (map nid (arr h ! ?i))" using distinct_bucket [OF ids n(2)] .
  obtain xs ys where b: "arr h ! ?i = xs @ n # ys" using n(3) by (meson split_list)
  have dw: "dropWhile (\<lambda>m. nid m \<noteq> a) (arr h ! ?i) = n # ys" using dropWhile_nid [of xs n ys] d n(4) unfolding b by simp
  have left: "mh_left h = n # ys @ concat (drop (Suc ?i) (arr h))" using a dw by (simp add: mh_left_def)
  have an: "after_node a (arr h) = Some ys" using after_node_bucket [OF ids n(2), of a] n(3,4) dw by auto
  show ?thesis
  proof (cases ys)
    case Nil
    let ?h = "h\<lparr>lastnode := None\<rparr>"
    have "memhash_next h = memhash_next ?h" using a an Nil by (simp add: memhash_next_def Let_def)
    moreover have "mh_inv H ?h" "mh_map ?h = mh_map h" using inv mh_inv_cong [of ?h h] by simp_all
    moreover have "nat (lastidx ?h + 1) = Suc ?i" using n(1) by simp
    ultimately show ?thesis using walk_start [of H ?h "Suc ?i"] left Nil by simp
  next
    case (Cons m ms)
    let ?h = "set_hdr m (h\<lparr>lastnode := Some (nid m)\<rparr>)"
    have f: "lastnode ?h = Some (nid m)" "lastidx ?h = lastidx h" by (simp_all add: set_hdr_def)
    have "memhash_next h = Some ?h" using a an Cons by (simp add: memhash_next_def)
    moreover have "mh_inv H ?h" "mh_map ?h = mh_map h" using inv mh_inv_cong [of ?h h] by simp_all
    moreover have "m \<in> set (arr h ! ?i)" using b Cons by simp
    then have "mh_walking ?h" using n(1,2) f by (auto simp: mh_walking_def)
    moreover have "mh_left ?h = tl (mh_left h)"
    proof -
      have "arr h ! ?i = (xs @ [n]) @ m # ms" using b Cons by simp
      then have "dropWhile (\<lambda>k. nid k \<noteq> nid m) (arr h ! ?i) = m # ms" using d dropWhile_nid [of "xs @ [n]" m ms] by simp
      then show ?thesis using left Cons f by (simp add: mh_left_def)
    qed
    ultimately show ?thesis by blast
  qed
qed

lemma dom_mh_map: "mh_inv H h \<Longrightarrow> card (dom (mh_map h)) = nodes h \<and> finite (dom (mh_map h))"
proof -
  assume inv: "mh_inv H h"
  have "dom (mh_map h) = set (map nkey (concat (arr h)))"
    by (force simp: mh_map_def dom_map_of_conv_image_fst kvs_def)
  moreover have "card (set (map nkey (concat (arr h)))) = nodes h"
    using inv distinct_card [of "map nkey (concat (arr h))"] by (simp add: mh_inv_def nodes_ok_def del: set_map)
  ultimately show ?thesis by simp
qed

lemma mh_count: "mh_inv H h \<Longrightarrow> hash_count (memhash_ops H) h = Some (h, card (dom (mh_map h)))"
  using dom_mh_map [of H h] by (simp add: hash_count_def memhash_ops_def memhash_count_def)

text \<open>The chained table keeps the contract, for every hash function.\<close>

interpretation mh: hash_deletes "memhash_ops H" "mh_inv H" mh_map mh_walking "\<lambda>h. kvs (mh_left h)" "\<lambda>h k v. True" "2 ^ 29" for H
proof (unfold_locales, goal_cases)
  case (1 h)
  then show ?case using dom_mh_map by blast
next
  case (2 h k)
  then show ?case using fetch_spec [of H h k] by (simp add: memhash_ops_def)
next
  case (3 h k v)
  then show ?case using store_spec [of H h k "Some v" "length v"] dom_mh_map [of H h] by (simp add: memhash_ops_def fill_def)
next
  case (4 h)
  let ?h = "h\<lparr>lastidx := -1, lastnode := None\<rparr>"
  have "mh_inv H ?h" "mh_map ?h = mh_map h" using 4 mh_inv_cong [of ?h h] by simp_all
  then show ?case
    using walk_start [of H ?h 0] 4 by (auto simp: memhash_ops_def memhash_first_def mh_map_def mh_inv_def nodes_ok_def)
next
  case (5 h)
  then show ?case using walk_next [of H h] by (auto simp: memhash_ops_def kvs_def map_tl)
next
  case (6 h)
  then show ?case using mh_current(1) [of H h] by (auto simp: memhash_ops_def kvs_def split: list.split)
next
  case (7 h e es)
  then show ?case using mh_current(2) [of H h] by (auto simp: memhash_ops_def kvs_def)
next
  case (8 h cnt)
  then show ?case using dom_mh_map [of H h] by (auto simp: memhash_ops_def memhash_count_def)
next
  case (9 h k v)
  then show ?case by simp
next
  case (10 h k)
  then show ?case using delete_spec [of H h k] by (auto simp: memhash_ops_def hash_delete_def)
qed

interpretation mh_diff: key_diff "memhash_ops H" "mh_inv H" mh_map mh_walking "\<lambda>h. kvs (mh_left h)" "\<lambda>h k v. True" "2 ^ 29"
  "memhash_ops H" "mh_inv H" mh_map mh_walking "\<lambda>h. kvs (mh_left h)" "\<lambda>h k v. True" "2 ^ 29" for H
  by unfold_locales

interpretation mh_diff3: key_diff3 "memhash_ops H" "mh_inv H" mh_map mh_walking "\<lambda>h. kvs (mh_left h)" "\<lambda>h k v. True" "2 ^ 29"
  "memhash_ops H" "mh_inv H" mh_map mh_walking "\<lambda>h. kvs (mh_left h)" "\<lambda>h k v. True" "2 ^ 29"
  "memhash_ops H" "mh_inv H" mh_map mh_walking "\<lambda>h. kvs (mh_left h)" "\<lambda>h k v. True" "2 ^ 29" for H
  by unfold_locales

section \<open>Layout of a node\<close>

lemma and_not_diff: "(x :: int) AND NOT m = x - (x AND m)"
proof -
  have "x - (x AND m) = x AND NOT (x AND m)" by (rule disjunctive_diff) (simp add: bit_and_iff)
  also have "\<dots> = x AND NOT m" by (rule bit_eqI) (auto simp: bit_and_iff bit_or_iff bit_not_iff)
  finally show ?thesis by simp
qed

lemma and_low_bits: "(x :: int) AND 7 = x mod 8" "x AND 3 = x mod 4" "x AND 1 = x mod 2"
proof -
  have "x AND 7 = take_bit 3 x" "x AND 3 = take_bit 2 x" by (simp_all add: take_bit_eq_mask mask_eq_exp_minus_1)
  then show "x AND 7 = x mod 8" "x AND 3 = x mod 4" by (simp_all add: take_bit_eq_mod)
  show "x AND 1 = x mod 2" by (simp add: and_one_eq)
qed

lemma wrap32_fits: "x \<le> int INT_MAX \<Longrightarrow> 0 \<le> x \<Longrightarrow> wrap32 x = x"
  by (simp add: wrap32_def INT_MAX_def signed_take_bit_int_eq_self)

lemma wrap32_over: "int INT_MAX < x \<Longrightarrow> x < 2 ^ 32 \<Longrightarrow> wrap32 x = x - 2 ^ 32"
proof -
  assume x: "int INT_MAX < x" "x < 2 ^ 32"
  then have "2 ^ 31 \<le> x" by (simp add: INT_MAX_def)
  then have "(x - 2 ^ 31) mod 2 ^ 32 = x - 2 ^ 31" using x(2) by (intro mod_pos_pos_trivial) simp_all
  moreover have "(x + 2 ^ 31) mod 2 ^ 32 = (x + 2 ^ 31 - 2 ^ 32) mod (2 ^ 32 :: int)" by (simp only: minus_mod_self2)
  ultimately have "(x + 2 ^ 31) mod 2 ^ 32 = x - 2 ^ 31" by simp
  then show ?thesis unfolding wrap32_def signed_take_bit_eq_take_bit_shift take_bit_eq_mod by simp
qed

lemma DOFF_eq:
  assumes "kl + 7 \<le> INT_MAX"
  shows "DOFF kl dl = int (if 8 \<le> dl then (kl + 7) div 8 * 8 else if 4 \<le> dl then (kl + 3) div 4 * 4
     else if 2 \<le> dl then (kl + 1) div 2 * 2 else kl)"
proof -
  have w: "wrap32 (int kl + 7) = int (kl + 7)" "wrap32 (int kl + 3) = int (kl + 3)" "wrap32 (int kl + 1) = int (kl + 1)"
    using assms by (simp_all add: wrap32_fits)
  have d: "int x - int x mod int m = int (x div m * m)" for x m :: nat by (simp add: minus_mod_eq_div_mult zdiv_int)
  show ?thesis
    unfolding DOFF_def Let_def w and_not_diff and_low_bits using d [of "kl + 7" 8] d [of "kl + 3" 4] d [of "kl + 1" 2]
    by (simp only: of_nat_numeral if_distrib [of int])
qed

section \<open>Properties\<close>

text \<open>Programs of table operations, and what they do to a map.\<close>

datatype hop = Store string "string option" nat | Insert string "string option" nat | Delete string

fun hop_run :: "(string \<Rightarrow> u32) \<Rightarrow> hop list \<Rightarrow> memhash \<Rightarrow> memhash option" where
  "hop_run H [] h = Some h"
| "hop_run H (Store k d l # ps) h = hop_run H ps (fst (memhash_store H h k d l))"
| "hop_run H (Insert k d l # ps) h = hop_run H ps (fst (memhash_insert H h k d l))"
| "hop_run H (Delete k # ps) h = Option.bind (memhash_delete H h k) (\<lambda>(h, r). hop_run H ps h)"

fun map_run :: "hop list \<Rightarrow> (string \<Rightarrow> string option) \<Rightarrow> string \<Rightarrow> string option" where
  "map_run [] m = m"
| "map_run (Store k d l # ps) m = map_run ps (m(k \<mapsto> fill d l))"
| "map_run (Insert k d l # ps) m = map_run ps (if m k = None then m(k \<mapsto> fill d l) else m)"
| "map_run (Delete k # ps) m = map_run ps (m(k := None))"

lemma card_dom_upd: "finite (dom m) \<Longrightarrow> card (dom (m(k \<mapsto> v))) \<le> Suc (card (dom m))"
  by (simp add: card_insert_if)

lemma hop_run_map:
  "mh_inv H h \<Longrightarrow> nodes h + length ps \<le> 2 ^ 29 \<Longrightarrow>
   \<exists>h'. hop_run H ps h = Some h' \<and> mh_inv H h' \<and> mh_map h' = map_run ps (mh_map h)"
proof (induction ps arbitrary: h)
  case (Cons p ps)
  have c: "nodes h < 2 ^ 29" using Cons.prems(2) by simp
  have n: "nodes h' + length ps \<le> 2 ^ 29" if "mh_inv H h'" "card (dom (mh_map h')) \<le> Suc (card (dom (mh_map h)))" for h'
    using that Cons.prems dom_mh_map [of H h'] dom_mh_map [of H h] by simp
  have u: "card (dom ((mh_map h)(k \<mapsto> v))) \<le> Suc (card (dom (mh_map h)))" for k v
    using dom_mh_map [OF Cons.prems(1)] by (intro card_dom_upd) simp
  show ?case
  proof (cases p)
    case (Store k d l)
    note s = store_spec [OF Cons.prems(1) c, of k d l]
    have "nodes (fst (memhash_store H h k d l)) + length ps \<le> 2 ^ 29" using s u by (intro n) simp_all
    from Cons.IH [OF s [THEN conjunct1] this] show ?thesis unfolding Store hop_run.simps map_run.simps s [THEN conjunct2] .
  next
    case (Insert k d l)
    note s = insert_spec [OF Cons.prems(1) c, of k d l]
    have "nodes (fst (memhash_insert H h k d l)) + length ps \<le> 2 ^ 29" using s u by (intro n) simp_all
    from Cons.IH [OF s [THEN conjunct1] this] show ?thesis unfolding Insert hop_run.simps map_run.simps s [THEN conjunct2] .
  next
    case (Delete k)
    obtain h1 r where d: "memhash_delete H h k = Some (h1, r)" "mh_inv H h1" "mh_map h1 = (mh_map h)(k := None)"
      using delete_spec [OF Cons.prems(1), of k] by blast
    have "card (dom (mh_map h) - {k}) \<le> card (dom (mh_map h))"
      using dom_mh_map [OF Cons.prems(1)] by (intro card_mono) auto
    then have "nodes h1 + length ps \<le> 2 ^ 29" using d by (intro n) simp_all
    from Cons.IH [OF d(2) this] show ?thesis unfolding Delete hop_run.simps map_run.simps d(1,3) Option.bind_lunit prod.case .
  qed
qed simp

lemma mh_inv_new: "mh_inv H memhash_new" "mh_map memhash_new = Map.empty"
proof -
  have "buckets_ok H 63 (replicate (63 + 1) [])" by (rule buckets_ok_empty)
  moreover have "concat (replicate 64 []) = ([] :: node list)" by (simp add: concat_eq_Nil_conv)
  ultimately show "mh_inv H memhash_new" "mh_map memhash_new = Map.empty"
    by (simp_all add: mh_inv_def mh_map_def memhash_new_def nodes_ok_def kvs_def)
qed

text \<open>
  C28. A program of stores, inserts and deletes on a new table runs without a failing assertion
  and leaves the table in its invariant, with the entries that the same program gives for a map, whatever the hash
  function is and however often the table has been split; a fetch gives the value of the map.
\<close>

theorem memhash_refines_map:
  assumes "length ps \<le> 2 ^ 29"
  shows "\<exists>h. hop_run H ps memhash_new = Some h \<and> mh_inv H h \<and> mh_map h = map_run ps Map.empty \<and>
    (\<forall>k. hdr_val (memhash_fetch H h k) = map_run ps Map.empty k)"
proof -
  have "nodes memhash_new = 0" by (simp add: memhash_new_def)
  then obtain h where "hop_run H ps memhash_new = Some h" "mh_inv H h" "mh_map h = map_run ps Map.empty"
    using hop_run_map [OF mh_inv_new(1), of ps H] assms mh_inv_new(2) by auto
  then show ?thesis using fetch_spec(3) [of H h] by auto
qed

definition ex_program :: "hop list" where
  "ex_program = [Store ''a'' (Some ''1'') 1, Insert ''a'' (Some ''2'') 1, Store ''b'' None 2, Delete ''a'', Insert ''a'' (Some ''xyz'') 2]"

theorem memhash_refines_map_witness:
  "\<exists>h. hop_run (\<lambda>k. 5) ex_program memhash_new = Some h \<and> hdr_val (memhash_fetch (\<lambda>k. 5) h ''a'') = Some ''xy'' \<and>
     hdr_val (memhash_fetch (\<lambda>k. 5) h ''b'') = Some [NUL, NUL]"
proof -
  have l: "length ex_program \<le> 2 ^ 29" by (simp add: ex_program_def)
  have "map_run ex_program Map.empty ''a'' = Some ''xy''" "map_run ex_program Map.empty ''b'' = Some [NUL, NUL]"
    by (simp_all add: ex_program_def fill_def numeral_2_eq_2)
  then show ?thesis using memhash_refines_map [OF l, of "\<lambda>k. 5"] by auto
qed

text \<open>
  C29. The key differences of hash.c on tables of this kind: \<open>hash_keyDiff\<close> removes exactly the
  keys of the second table and says whether something is left, and \<open>hash_keyDiff3\<close> adds to the
  third table exactly the entries of the first whose keys are not in the second and says whether there were any.
  \<open>hash_count\<close> of the two results is the size of the difference and of the extended table.
\<close>

theorem memhash_keyDiffs:
  assumes "mh_inv H A" "mh_inv H B" "mh_inv H C" "card (dom (mh_map C)) + card (dom (mh_map A)) \<le> 2 ^ 29"
  shows "(\<exists>A' B'. hash_keyDiff (memhash_ops H) (memhash_ops H) A B = Some (A', B', mh_map A' \<noteq> Map.empty) \<and>
      mh_inv H A' \<and> mh_inv H B' \<and> mh_map A' = mh_map A |` (- dom (mh_map B)) \<and> mh_map B' = mh_map B \<and>
      hash_count (memhash_ops H) A' = Some (A', card (dom (mh_map A) - dom (mh_map B)))) \<and>
    (\<exists>A' B' C'. hash_keyDiff3 (memhash_ops H) (memhash_ops H) (memhash_ops H) A B C =
        Some (A', B', C', if dom (mh_map A) \<subseteq> dom (mh_map B) then 0 else 1) \<and>
      mh_inv H A' \<and> mh_map A' = mh_map A \<and> mh_inv H B' \<and> mh_map B' = mh_map B \<and>
      mh_inv H C' \<and> mh_map C' = mh_map C ++ mh_map A |` (- dom (mh_map B)) \<and>
      hash_count (memhash_ops H) C' = Some (C', card (dom (mh_map C) \<union> (dom (mh_map A) - dom (mh_map B)))))"
proof -
  have "dom (mh_map A |` (- dom (mh_map B))) = dom (mh_map A) - dom (mh_map B)"
    "dom (mh_map C ++ mh_map A |` (- dom (mh_map B))) = dom (mh_map C) \<union> (dom (mh_map A) - dom (mh_map B))" by auto
  then show ?thesis
    using mh_diff.keyDiff_removes [OF assms(1,2)] mh_diff3.keyDiff3_adds [OF assms(1-3) TrueI assms(4)] mh_count by metis
qed

theorem memhash_keyDiffs_witness:
  "let ops = memhash_ops (\<lambda>k. 5); A = fst (memhash_store (\<lambda>k. 5) memhash_new ''a'' (Some ''1'') 1)
   in \<exists>A' B' C'. hash_keyDiff3 ops ops ops A memhash_new memhash_new = Some (A', B', C', 1) \<and> mh_map C' = [''a'' \<mapsto> ''1''] \<and> hash_count ops C' = Some (C', 1)"
proof -
  let ?H = "\<lambda>k :: string. 5 :: u32"
  let ?A = "fst (memhash_store ?H memhash_new ''a'' (Some ''1'') 1)"
  have "nodes memhash_new < 2 ^ 29" by (simp add: memhash_new_def)
  then have A: "mh_inv ?H ?A" "mh_map ?A = [''a'' \<mapsto> ''1'']"
    using store_spec [OF mh_inv_new(1), of ?H "''a''" "Some ''1''" 1] by (simp_all add: fill_def mh_inv_new(2))
  note n = mh_inv_new(1) [of ?H]
  have c: "card (dom (mh_map memhash_new)) + card (dom (mh_map ?A)) \<le> 2 ^ 29" unfolding mh_inv_new(2) A(2) by simp
  have n1: "card (dom (mh_map memhash_new) \<union> (dom (mh_map ?A) - dom (mh_map memhash_new))) = 1" unfolding mh_inv_new(2) A(2) by simp
  have d: "\<not> dom (mh_map ?A) \<subseteq> dom (mh_map memhash_new)" "mh_map memhash_new ++ mh_map ?A |` (- dom (mh_map memhash_new)) = [''a'' \<mapsto> ''1'']"
    unfolding mh_inv_new(2) A(2) by simp_all
  from conjunct2 [OF memhash_keyDiffs [OF A(1) n n c]] show ?thesis unfolding Let_def d(2) n1 if_not_P [OF d(1)] by blast
qed

text \<open>
  C30. Storing a shorter value over a longer one stores it, and returns a pointer to it, but leaves
  the pointer and the length of the old value in the header: they are those that a fetch before
  the store gives.  So the header does not describe the value of any node until the next operation.
\<close>

theorem memhash_store_header:
  assumes "mh_inv H h" "mh_map h k = Some d" "l < length d"
  shows "\<exists>h' a. memhash_store H h k dptr l = (h', Some (a, DOFF (length k) l)) \<and>
    vptr h' = Some (a, DOFF (length k) (length d)) \<and> vlen h' = length d \<and>
    vptr h' = vptr (memhash_fetch H h k) \<and> vlen h' = vlen (memhash_fetch H h k) \<and>
    hdr_val h' = None \<and> mh_map h' = (mh_map h)(k \<mapsto> fill dptr l)"
proof -
  obtain i j h1 where f: "find_nodep H h k = (i, j, h1)" by (cases "find_nodep H h k") auto
  note r = find_nodep_result [OF f]
  have j: "j < length (arr h ! i)"
    using r(1,8) assms(1,2) mh_key_absent(1) [OF assms(1), of k] by (cases "j < length (arr h ! i)") auto
  have k: "nkey (arr h ! i ! j) = k" and h1: "h1 = set_hdr (arr h ! i ! j) h" using r(7) [OF j] by simp_all
  have d: "ndata (arr h ! i ! j) = d" using mh_map_found [OF assms(1) r(1) j k] assms(2) by simp
  let ?h = "h1\<lparr>arr := (arr h1)[i := (arr h1 ! i)[j := (arr h1 ! i ! j)\<lparr>ndata := fill dptr l\<rparr>]]\<rparr>"
  let ?a = "nid (arr h ! i ! j)"
  have st: "memhash_store H h k dptr l = (?h, Some (?a, DOFF (length k) l))"
    using j assms(3) d r(2) by (simp add: memhash_store_def f Let_def)
  have v: "vptr ?h = Some (?a, DOFF (length k) (length d))" "vlen ?h = length d" using d k by (simp_all add: h1 set_hdr_def)
  have "memhash_fetch H h k = h1" using j r(2) by (simp add: memhash_fetch_def f)
  then have ft: "vptr (memhash_fetch H h k) = vptr ?h" "vlen (memhash_fetch H h k) = vlen ?h" by simp_all
  have inv1: "mh_inv H h1" "mh_map h1 = mh_map h" using mh_inv_cong [of h1 h] r(2-5) assms(1) by simp_all
  then have ov: "mh_inv H ?h" "mh_map ?h = (mh_map h)(k \<mapsto> fill dptr l)"
    using overwrite_spec [of H h1 i k j ?h "fill dptr l"] r(1-3) j k by simp_all
  have "hdr_val ?h = None"
  proof -
    define n h' where "n = (arr h1 ! i ! j)\<lparr>ndata := fill dptr l\<rparr>" and "h' = ?h"
    have "i < length (arr h1)" "j < length (arr h1 ! i)" using r(1,2) j mh_bucket [OF assms(1)] by simp_all
    then have m: "n \<in> set (arr h' ! i)" "i < length (arr h')" by (simp_all add: h'_def n_def set_update_memI)
    have "nodes_ok (brk h') (concat (arr h'))" using ov(1) by (simp add: mh_inv_def h'_def)
    then have "node_at h' (nid n) = Some n" by (rule node_at_mem [OF _ bucket_mem [OF m(2,1)]])
    moreover have "nid n = ?a" "ndata n = fill dptr l" using r(2) by (simp_all add: n_def)
    moreover have "length (fill dptr l) \<le> l" by (simp add: fill_def split: option.split)
    ultimately have "hdr_val h' = None" using v [folded h'_def] assms(3) by (simp add: hdr_val_def)
    then show ?thesis by (simp add: h'_def)
  qed
  then show ?thesis using st v ft ov(2) by simp
qed

theorem memhash_store_header_witness:
  "let h = fst (memhash_store (\<lambda>k. 5) memhash_new ''k'' (Some ''long'') 4); h' = fst (memhash_store (\<lambda>k. 5) h ''k'' (Some ''x'') 1)
   in (\<exists>a. vptr h' = Some (a, 4)) \<and> vlen h' = 4 \<and> mh_map h' = [''k'' \<mapsto> ''x'']"
proof -
  let ?H = "\<lambda>k :: string. 5 :: u32"
  let ?h = "fst (memhash_store ?H memhash_new ''k'' (Some ''long'') 4)"
  have n: "nodes memhash_new < 2 ^ 29" by (simp add: memhash_new_def)
  have h: "mh_inv ?H ?h" "mh_map ?h = [''k'' \<mapsto> ''long'']"
    using store_spec [OF mh_inv_new(1) n, of ?H "''k''" "Some ''long''" 4] by (simp_all add: fill_def mh_inv_new(2))
  have "DOFF (length ''k'') (length ''long'') = 4" by (simp add: DOFF_eq INT_MAX_def)
  then show ?thesis using memhash_store_header [OF h(1), of "''k''" "''long''" 1 "Some ''x''"] h(2) by (auto simp: fill_def)
qed

text \<open>
  C31. The data of a node starts after the key, with at most 7 bytes between them, and shorter data
  stored in place ends no later than the longer data the node was allocated for, as long as the
  length of the key leaves room for the alignment in an \<open>int\<close>.  For a longer key that still has a
  length in an \<open>int\<close>, and data of 8 bytes or more, the offset comes out negative.
\<close>

theorem DOFF_bounds:
  assumes "kl \<le> INT_MAX" "l \<le> d"
  shows "if kl + 7 \<le> INT_MAX
    then int kl \<le> DOFF kl l \<and> DOFF kl l \<le> int kl + 7 \<and> DOFF kl l + int l \<le> DOFF kl d + int d
    else 8 \<le> d \<longrightarrow> DOFF kl d < 0"
proof (cases "kl + 7 \<le> INT_MAX")
  case True
  have d: "kl \<le> (kl + 7) div 8 * 8 \<and> (kl + 7) div 8 * 8 \<le> kl + 7" "kl \<le> (kl + 3) div 4 * 4 \<and> (kl + 3) div 4 * 4 \<le> kl + 3"
    "kl \<le> (kl + 1) div 2 * 2 \<and> (kl + 1) div 2 * 2 \<le> kl + 1" by linarith+
  have "(kl + 3) div 4 \<le> (8 * ((kl + 7) div 8) + 3) div 4" "(kl + 1) div 2 \<le> (4 * ((kl + 3) div 4) + 1) div 2"
    using d by (intro div_le_mono; linarith)+
  moreover have "(8 * x + 3) div 4 = 2 * x" "(4 * x + 1) div 2 = 2 * x" for x :: nat by linarith+
  ultimately have "(kl + 3) div 4 * 4 \<le> (kl + 7) div 8 * 8" "(kl + 1) div 2 * 2 \<le> (kl + 3) div 4 * 4" by simp_all
  note d = d this
  define a b c where "a = (kl + 7) div 8 * 8" and "b = (kl + 3) div 4 * 4" and "c = (kl + 1) div 2 * 2"
  note d = d [folded a_def b_def c_def]
  show ?thesis using d assms(2) True unfolding if_P [OF True] DOFF_eq [OF True] a_def [symmetric] b_def [symmetric] c_def [symmetric] by auto
next
  case False
  have "wrap32 (int kl + 7) = int kl + 7 - 2 ^ 32" using False assms(1) by (intro wrap32_over) (auto simp: INT_MAX_def)
  then have "DOFF kl d \<le> int kl + 7 - 2 ^ 32" if "8 \<le> d" using that by (simp add: DOFF_def and_not_diff and_low_bits)
  then show ?thesis using False assms(1) by (auto simp: INT_MAX_def)
qed

theorem DOFF_bounds_witness:
  "5 \<le> DOFF 5 3 \<and> DOFF 5 3 \<le> 12 \<and> DOFF 5 3 + 3 \<le> DOFF 5 9 + 9 \<and> DOFF (2 ^ 31 - 3) 9 < 0"
  using DOFF_bounds [of 5 3 9] DOFF_bounds [of "2 ^ 31 - 3" 3 9] by (simp add: INT_MAX_def)

end
