(* ===== verification/BK_Data.thy ===== *)
theory BK_Data
  imports BK_Prelude "HOL-Library.Monad_Syntax"
begin

text \<open>
  The growing memory region of \<open>libc/utils/data.c\<close>.  Lengths and sizes are 32-bit words.  \<open>buf\<close>
  holds the bytes that have been written; a write beyond the allocated size is \<open>None\<close>, like a
  failing assertion.
\<close>

unbundle bit_operations_syntax

section \<open>Model\<close>

record DATA =
  buf :: string
  len :: u32
  data_size :: u32

definition data_new :: DATA where
  "data_new = \<lparr>buf = [], len = 0, data_size = 0\<rparr>"

definition data_setSize :: "DATA \<Rightarrow> u32 \<Rightarrow> DATA option" where
  "data_setSize d sz = (if len d \<le> sz then Some (d\<lparr>buf := take (unat sz) (buf d), data_size := sz\<rparr>) else None)"

text \<open>\<open>while (size < newlen) size *= 2;\<close>\<close>

partial_function (option) grow :: "u32 \<Rightarrow> u32 \<Rightarrow> u32 option" where
  "grow sz newlen = (if sz < newlen then grow (sz * 2) newlen else Some sz)"

definition data_resize :: "DATA \<Rightarrow> u32 \<Rightarrow> DATA option" where
  "data_resize d newlen =
     (if data_size d < newlen then
        do { sz \<leftarrow> (if newlen \<le> push_bit 30 2 then grow 64 newlen
                   else if newlen < push_bit 30 3 then Some (push_bit 30 3)
                   else if newlen < 0xfff00000 then Some 0xfff00000 else None);
             data_setSize d sz }
      else Some d)"

text \<open>\<open>memcpy(d->buf + off, bytes, n)\<close>\<close>

definition data_write :: "DATA \<Rightarrow> nat \<Rightarrow> string \<Rightarrow> DATA option" where
  "data_write d off bs =
     (if off + length bs \<le> unat (data_size d)
      then Some (d\<lparr>buf := take off (buf d) @ bs @ drop (off + length bs) (buf d)\<rparr>) else None)"

definition data_append :: "DATA \<Rightarrow> string \<Rightarrow> DATA option" where
  "data_append d data =
     do { let newlen = len d + of_nat (length data);
          d \<leftarrow> data_resize d (newlen + 1);
          d \<leftarrow> data_write d (unat (len d)) data;
          let d = d\<lparr>len := newlen\<rparr>;
          data_write d (unat newlen) [NUL] }"

section \<open>Growing\<close>

lemma unat_2p: "k < 32 \<Longrightarrow> unat ((2 :: u32) ^ k) = 2 ^ k"
  using unsigned_of_nat [of "2 ^ k", where ?'a = nat and ?'b = 32] by (simp add: take_bit_nat_eq_self)

lemma grow_pow2:
  assumes "newlen \<le> push_bit 30 (2 :: u32)"
  shows "i \<le> 25 \<Longrightarrow> \<exists>sz. grow (push_bit (31 - i) 1) newlen = Some sz \<and> newlen \<le> sz \<and> sz \<le> push_bit 30 2"
proof (induction i)
  case 0
  then show ?case using assms by (subst grow.simps) (simp add: not_less [symmetric])
next
  case (Suc i)
  have d: "push_bit (31 - Suc i) 1 * (2 :: u32) = push_bit (31 - i) 1"
  proof -
    have "31 - i = Suc (31 - Suc i)" using Suc.prems by simp
    then show ?thesis unfolding push_bit_eq_mult mult_1 by (simp only: power_Suc2)
  qed
  have le: "push_bit (31 - Suc i) (1 :: u32) \<le> push_bit 30 2"
  proof -
    have "(2 :: nat) ^ (31 - Suc i) \<le> 2 ^ 31" by (intro power_increasing) simp_all
    then show ?thesis using Suc.prems by (simp add: word_le_nat_alt push_bit_eq_mult unat_2p)
  qed
  show ?case using Suc d le by (subst grow.simps) (auto simp: not_less)
qed

lemma grow_64: "newlen \<le> push_bit 30 (2 :: u32) \<Longrightarrow> \<exists>sz. grow 64 newlen = Some sz \<and> newlen \<le> sz \<and> sz \<le> 0xfff00000"
  using grow_pow2 [of newlen 25] by (auto simp: word_le_nat_alt)

text \<open>A region is well formed when its data lies in the allocation.\<close>

definition data_ok :: "DATA \<Rightarrow> bool" where
  "data_ok d \<longleftrightarrow> unat (len d) \<le> length (buf d) \<and> length (buf d) \<le> unat (data_size d) \<and> data_size d \<le> 0xfff00000"

lemma data_new_ok: "data_ok data_new"
  by (simp add: data_ok_def data_new_def)

lemma data_resize_some:
  assumes "newlen < 0xfff00000" "length (buf d) \<le> unat (data_size d)" "data_size d \<le> 0xfff00000" "len d \<le> data_size d \<or> len d \<le> newlen"
  shows "\<exists>sz. data_resize d newlen = Some (d\<lparr>data_size := sz\<rparr>) \<and> newlen \<le> sz \<and> data_size d \<le> sz \<and> sz \<le> 0xfff00000"
proof (cases "data_size d < newlen")
  case False
  then have "data_resize d newlen = Some d" by (simp only: data_resize_def if_False)
  then show ?thesis using assms False by (intro exI [of _ "data_size d"]) (simp add: not_less)
next
  case True
  have set: "data_setSize d sz = Some (d\<lparr>data_size := sz\<rparr>)" if "newlen \<le> sz" for sz
    using True assms(2,4) that by (cases d) (auto simp: data_setSize_def word_le_nat_alt word_less_nat_alt)
  have "\<exists>sz. (if newlen \<le> push_bit 30 2 then grow 64 newlen
                   else if newlen < push_bit 30 3 then Some (push_bit 30 3)
                   else if newlen < 0xfff00000 then Some 0xfff00000 else None) = Some sz \<and> newlen \<le> sz \<and> sz \<le> 0xfff00000"
    using grow_64 [of newlen] assms(1) by auto
  then obtain sz where "data_resize d newlen = data_setSize d sz" "newlen \<le> sz" "sz \<le> 0xfff00000"
    using True unfolding data_resize_def by auto
  then show ?thesis using set True by (intro exI [of _ sz]) auto
qed

lemma data_resize_limit:
  assumes "data_resize d newlen = Some d'" "data_size d \<le> 0xfff00000"
  shows "data_size d' \<le> 0xfff00000 \<and> len d' = len d"
proof (cases "data_size d < newlen")
  case False
  then have "data_resize d newlen = Some d" by (simp only: data_resize_def if_False)
  then show ?thesis using assms by simp
next
  case True
  then obtain sz where "(if newlen \<le> push_bit 30 2 then grow 64 newlen
                   else if newlen < push_bit 30 3 then Some (push_bit 30 3)
                   else if newlen < 0xfff00000 then Some 0xfff00000 else None) = Some sz" "data_setSize d sz = Some d'"
    using assms(1) unfolding data_resize_def by (auto simp: bind_eq_Some_conv)
  moreover from this(1) have "sz \<le> 0xfff00000" using grow_64 [of newlen] by (simp split: if_splits)
  ultimately show ?thesis by (simp add: data_setSize_def split: if_splits) auto
qed

lemma data_write_len [simp]: "data_write d off bs = Some d' \<Longrightarrow> len d' = len d \<and> data_size d' = data_size d"
  by (auto simp: data_write_def split: if_splits)

section \<open>Properties\<close>

lemma data_append_some:
  assumes ok: "data_ok d" and n: "unat (len d) + length bs + 1 < 0xfff00000"
  shows "\<exists>d'. data_append d bs = Some d' \<and> data_ok d' \<and> unat (len d') = unat (len d) + length bs \<and>
    take (unat (len d')) (buf d') = take (unat (len d)) (buf d) @ bs \<and> unat (len d') < length (buf d') \<and> buf d' ! unat (len d') = NUL"
proof -
  define m where "m = len d + of_nat (length bs)"
  have u: "unat m = unat (len d) + length bs" "unat (m + 1) = unat (len d) + length bs + 1"
    using n by (simp_all add: m_def unat_word_ariths unsigned_of_nat take_bit_nat_eq_self)
  have "m + 1 < 0xfff00000" "len d \<le> m + 1" using n by (simp_all add: word_less_nat_alt word_le_nat_alt u)
  then obtain sz where r: "data_resize d (m + 1) = Some (d\<lparr>data_size := sz\<rparr>)" "m + 1 \<le> sz" "sz \<le> 0xfff00000" "data_size d \<le> sz"
    using data_resize_some [of "m + 1" d] ok by (auto simp: data_ok_def)
  have l: "unat (len d) \<le> length (buf d)" "length (buf d) \<le> unat sz"
    using ok r(4) by (auto simp: data_ok_def word_le_nat_alt)
  have sz: "unat (len d) + length bs + 1 \<le> unat sz" using r(2) by (simp only: word_le_nat_alt u)
  then have sz1: "unat (len d) + length bs \<le> unat sz" by linarith
  define b1 where "b1 = take (unat (len d)) (buf d) @ bs @ drop (unat (len d) + length bs) (buf d)"
  define b2 where "b2 = take (unat m) b1 @ NUL # drop (unat m + 1) b1"
  have "data_write (d\<lparr>data_size := sz\<rparr>) (unat (len d)) bs = Some (d\<lparr>data_size := sz, buf := b1\<rparr>)"
    using sz1 unfolding data_write_def b1_def by simp
  moreover have "data_write (d\<lparr>data_size := sz, buf := b1, len := m\<rparr>) (unat m) [NUL] = Some (d\<lparr>data_size := sz, buf := b2, len := m\<rparr>)"
    using sz unfolding data_write_def b2_def u by simp
  ultimately have "data_append d bs = Some (d\<lparr>data_size := sz, buf := b2, len := m\<rparr>)"
    by (simp add: data_append_def r(1) flip: m_def)
  moreover have t: "take (unat m) b1 = take (unat (len d)) (buf d) @ bs" using l by (simp add: u b1_def)
  then have "take (unat m) b2 = take (unat (len d)) (buf d) @ bs" "unat m < length b2" "b2 ! unat m = NUL"
    using l by (simp_all add: b2_def u nth_append)
  moreover have "length b2 \<le> unat sz" using l sz by (simp add: b2_def b1_def u)
  ultimately show ?thesis using r(3) by (simp add: data_ok_def u)
qed

lemma data_append_none:
  assumes ok: "data_ok d" and n: "0xfff00000 < unat (len d) + length bs + 1" "length bs < 2 ^ 32"
  shows "data_append d bs = None"
proof (cases "data_resize d (len d + of_nat (length bs) + 1)")
  case None
  then show ?thesis by (simp add: data_append_def)
next
  case (Some d1)
  let ?m = "len d + of_nat (length bs) + 1"
  have l: "data_size d1 \<le> 0xfff00000" "len d1 = len d" using data_resize_limit [OF Some] ok by (auto simp: data_ok_def)
  have "unat (data_size d1) < unat (len d) + length bs"
  proof (cases "unat (len d) + length bs = 0xfff00000")
    case True
    then have "unat ?m = unat (0xfff00001 :: u32)" by (simp add: unat_word_ariths unsigned_of_nat take_bit_nat_eq_self)
    then have "?m = 0xfff00001" by (simp only: word_unat_eq_iff)
    moreover have "data_size d < 0xfff00001" using ok by (simp add: data_ok_def word_less_nat_alt word_le_nat_alt)
    ultimately show ?thesis using Some by (simp add: data_resize_def)
  next
    case False
    then show ?thesis using n(1) l(1) by (simp add: word_le_nat_alt)
  qed
  then have "data_write d1 (unat (len d1)) bs = None" unfolding data_write_def l(2) by (simp only: not_le [symmetric] if_False)
  then show ?thesis by (simp add: data_append_def Some)
qed

text \<open>
  C32. Appending to a region keeps the data, puts the new bytes after it and a NUL after them, inside
  the allocation, up to the size limit of the region; beyond the limit the append never returns
  normally: the assertion on the size fails, or the length wraps around and the copy runs out of
  the allocation.
\<close>

theorem data_append_limit:
  assumes "data_ok d" "length bs < 2 ^ 32"
  shows "(unat (len d) + length bs + 1 < 0xfff00000 \<longrightarrow>
      (\<exists>d'. data_append d bs = Some d' \<and> data_ok d' \<and> unat (len d') = unat (len d) + length bs \<and>
         take (unat (len d')) (buf d') = take (unat (len d)) (buf d) @ bs \<and>
         unat (len d') < length (buf d') \<and> buf d' ! unat (len d') = NUL)) \<and>
    (0xfff00000 < unat (len d) + length bs + 1 \<longrightarrow> data_append d bs = None)"
  using data_append_some [of d bs] data_append_none [of d bs] assms by blast

theorem data_append_limit_witness:
  "data_ok data_new \<and> (\<exists>d'. data_append data_new ''ab'' = Some d' \<and> take (unat (len d')) (buf d') = ''ab'')"
  using data_append_limit [of data_new "''ab''"] data_new_ok by (auto simp: data_new_def)

end
