(* ===== verification/BK_U32hash.thy ===== *)
theory BK_U32hash
  imports BK_Hash BK_Data
begin

text \<open>
  The open addressing table \<open>hash/u32hash.c\<close>: keys are non-zero 32-bit words, values have the
  fixed length given when the table is made.  A value of four bytes is kept in the table, a longer
  one in a memory region.  Pointers into the table are indices.  Words are stored least
  significant byte first.
\<close>

unbundle bit_operations_syntax

section \<open>Model\<close>

record keyval =
  kv_key :: u32
  kv_val :: u32

datatype place = InTable nat | InVals nat

record u32hash =
  u_vlen :: nat
  table :: "keyval list"
  tsize :: u32
  cnt :: u32
  vals :: DATA
  u_kptr :: "nat option"
  u_vptr :: "place option"

definition u32_of_bytes :: "string \<Rightarrow> u32" where
  "u32_of_bytes s = of_nat (foldr (\<lambda>c n. of_char c + 256 * n) s 0)"

definition bytes_of_u32 :: "u32 \<Rightarrow> string" where
  "bytes_of_u32 w = map (\<lambda>i. char_of (unat w div 256 ^ i)) [0, 1, 2, 3]"

definition keyval_zero :: keyval where
  "keyval_zero = \<lparr>kv_key = 0, kv_val = 0\<rparr>"

definition u32hash_new :: "nat \<Rightarrow> nat \<Rightarrow> u32hash option" where
  "u32hash_new klen vlen =
     (if klen = 4 \<and> vlen \<ge> 4
      then Some \<lparr>u_vlen = vlen, table = replicate 32 keyval_zero, tsize = 32, cnt = 0, vals = data_new, u_kptr = None, u_vptr = None\<rparr>
      else None)"

definition VPTR :: "u32hash \<Rightarrow> nat \<Rightarrow> place" where
  "VPTR h n = (if u_vlen h > 4 then InVals (unat (kv_val (table h ! n))) else InTable n)"

text \<open>The loop of \<open>lookup\<close>; an index outside the table is \<open>None\<close>.\<close>

partial_function (option) probe :: "keyval list \<Rightarrow> u32 \<Rightarrow> u32 \<Rightarrow> u32 \<Rightarrow> nat option" where
  "probe tab sz key n =
     (if unat n \<ge> length tab then None
      else if kv_key (tab ! unat n) \<noteq> 0 \<and> kv_key (tab ! unat n) \<noteq> key then probe tab sz key ((n + 1) AND (sz - 1))
      else Some (unat n))"

definition lookup :: "(u32 \<Rightarrow> u32) \<Rightarrow> u32hash \<Rightarrow> u32 \<Rightarrow> (u32hash \<times> nat) option" where
  "lookup H h key =
     do { n \<leftarrow> probe (table h) (tsize h) key (H key AND (tsize h - 1));
          if kv_key (table h ! n) \<noteq> 0
          then Some (h\<lparr>u_kptr := Some n, u_vptr := Some (VPTR h n)\<rparr>, n)
          else Some (h\<lparr>u_kptr := None, u_vptr := None\<rparr>, n) }"

definition u32hash_fetch :: "(u32 \<Rightarrow> u32) \<Rightarrow> u32hash \<Rightarrow> u32 \<Rightarrow> u32hash option" where
  "u32hash_fetch H h key = map_option fst (lookup H h key)"

text \<open>The loop of \<open>resize\<close> over the old table.\<close>

fun reinsert :: "(u32 \<Rightarrow> u32) \<Rightarrow> keyval list \<Rightarrow> u32hash \<Rightarrow> u32hash option" where
  "reinsert H [] h = Some h"
| "reinsert H (e # es) h =
     (if kv_key e = 0 then reinsert H es h
      else do { (h, n) \<leftarrow> lookup H h (kv_key e); reinsert H es (h\<lparr>table := (table h)[n := e]\<rparr>) })"

definition resize :: "(u32 \<Rightarrow> u32) \<Rightarrow> u32hash \<Rightarrow> u32hash option" where
  "resize H h =
     (let sz = 2 * tsize h
      in reinsert H (table h) (h\<lparr>tsize := sz, table := replicate (unat sz) keyval_zero\<rparr>))"

text \<open>\<open>memcpy\<close> of the value to a place, or \<open>memset\<close> to 0 without a value.\<close>

definition u32_fill :: "string option \<Rightarrow> nat \<Rightarrow> string" where
  "u32_fill vp vl = (case vp of Some v \<Rightarrow> take vl v | None \<Rightarrow> replicate vl NUL)"

definition write_val :: "u32hash \<Rightarrow> place \<Rightarrow> string \<Rightarrow> u32hash option" where
  "write_val h p bs =
     (case p of
        InTable n \<Rightarrow> Some (h\<lparr>table := (table h)[n := (table h ! n)\<lparr>kv_val := u32_of_bytes bs\<rparr>]\<rparr>)
      | InVals off \<Rightarrow> map_option (\<lambda>d. h\<lparr>vals := d\<rparr>) (data_write (vals h) off bs))"

definition new_entry :: "u32hash \<Rightarrow> nat \<Rightarrow> u32 \<Rightarrow> string option \<Rightarrow> nat \<Rightarrow> u32hash option" where
  "new_entry h n key vp vl =
     (let h = h\<lparr>cnt := cnt h + 1, table := (table h)[n := (table h ! n)\<lparr>kv_key := key\<rparr>], u_kptr := Some n\<rparr>
      in if u_vlen h > 4 then
           do { let off = len (vals h);
                d \<leftarrow> data_resize ((vals h)\<lparr>len := off + of_nat vl\<rparr>) (off + of_nat vl);
                write_val (h\<lparr>table := (table h)[n := (table h ! n)\<lparr>kv_val := off\<rparr>], vals := d, u_vptr := Some (InVals (unat off))\<rparr>)
                  (InVals (unat off)) (u32_fill vp vl) }
         else
           Some (h\<lparr>table := (table h)[n := (table h ! n)\<lparr>kv_val := (case vp of Some v \<Rightarrow> u32_of_bytes v | None \<Rightarrow> 0)\<rparr>],
                   u_vptr := Some (InTable n)\<rparr>))"

definition u32hash_insert :: "(u32 \<Rightarrow> u32) \<Rightarrow> u32hash \<Rightarrow> u32 \<Rightarrow> string option \<Rightarrow> nat \<Rightarrow> (u32hash \<times> place option) option" where
  "u32hash_insert H h key vp vl =
     (if vl \<noteq> u_vlen h \<or> key = 0 then None
      else do { h \<leftarrow> (if cnt h > 3 * tsize h div 4 then resize H h else Some h);
                (h, n) \<leftarrow> lookup H h key;
                if u_vptr h \<noteq> None then Some (h, None)
                else do { h \<leftarrow> new_entry h n key vp vl; Some (h, u_vptr h) } })"

definition u32hash_store :: "(u32 \<Rightarrow> u32) \<Rightarrow> u32hash \<Rightarrow> u32 \<Rightarrow> string option \<Rightarrow> nat \<Rightarrow> (u32hash \<times> place option) option" where
  "u32hash_store H h key vp vl =
     do { (h, r) \<leftarrow> u32hash_insert H h key vp vl;
          h \<leftarrow> (case (r, u_vptr h) of (None, Some p) \<Rightarrow> write_val h p (u32_fill vp vl) | _ \<Rightarrow> Some h);
          Some (h, u_vptr h) }"

definition u32hash_next :: "u32hash \<Rightarrow> u32hash option" where
  "u32hash_next h =
     (case u_kptr h of
        None \<Rightarrow> None
      | Some n \<Rightarrow>
          if n < unat (tsize h) then
            (let m = Suc n + length (takeWhile (\<lambda>e. kv_key e = 0) (drop (Suc n) (table h)))
             in if m < unat (tsize h)
                then Some (h\<lparr>u_kptr := Some m, u_vptr := Some (VPTR h m)\<rparr>)
                else Some (h\<lparr>u_kptr := None, u_vptr := None\<rparr>))
          else None)"

definition u32hash_first :: "u32hash \<Rightarrow> u32hash option" where
  "u32hash_first h =
     (let h = h\<lparr>u_kptr := Some 0\<rparr>
      in if kv_key (table h ! 0) \<noteq> 0 then Some (h\<lparr>u_vptr := Some (VPTR h 0)\<rparr>) else u32hash_next h)"

definition u32hash_count :: "u32hash \<Rightarrow> nat" where
  "u32hash_count h = unat (cnt h)"

text \<open>What the pointers of the header point to.\<close>

definition read_val :: "u32hash \<Rightarrow> place \<Rightarrow> string" where
  "read_val h p =
     (case p of
        InTable n \<Rightarrow> bytes_of_u32 (kv_val (table h ! n))
      | InVals off \<Rightarrow> take (u_vlen h) (drop off (buf (vals h))))"

definition u32hash_ops :: "(u32 \<Rightarrow> u32) \<Rightarrow> (u32hash, u32, string) hashops" where
  "u32hash_ops H =
     \<lparr>op_fetch = u32hash_fetch H,
      op_store = (\<lambda>h k v. map_option fst (u32hash_store H h k (Some v) (length v))),
      op_delete = None,
      op_first = u32hash_first, op_next = u32hash_next,
      op_key = (\<lambda>h. map_option (\<lambda>n. kv_key (table h ! n)) (u_kptr h)),
      op_val = (\<lambda>h. map_option (read_val h) (u_vptr h)),
      op_count = Some u32hash_count\<rparr>"

section \<open>Probing\<close>

lemma unat_and_mask:
  assumes "unat sz = 2 ^ e" "e \<le> 30"
  shows "unat ((w :: u32) AND (sz - 1)) = unat w mod 2 ^ e"
proof -
  have "sz = 2 ^ e" using assms unat_2p [of e] by (simp add: word_unat_eq_iff)
  then have "w AND (sz - 1) = take_bit e w" by (simp add: take_bit_eq_mask mask_eq_exp_minus_1)
  then have "unat (w AND (sz - 1)) = take_bit e (unat w)" by (simp only: unsigned_take_bit_eq)
  then show ?thesis by (simp only: take_bit_eq_mod)
qed

lemma unat_next_slot:
  assumes "unat sz = 2 ^ e" "e \<le> 30" "unat (n :: u32) = s mod 2 ^ e"
  shows "unat ((n + 1) AND (sz - 1)) = Suc s mod 2 ^ e"
proof -
  have "(2 :: nat) ^ e \<le> 1073741824" using power_increasing [OF assms(2), of "2 :: nat"] by simp
  moreover have "s mod 2 ^ e < 2 ^ e" by simp
  ultimately have "unat n + 1 < 4294967296" unfolding assms(3) by linarith
  then have "unat (n + 1) = unat n + 1" by (simp add: unat_word_ariths)
  then show ?thesis using assms by (simp add: unat_and_mask mod_Suc_eq)
qed

text \<open>The empty slots, seen from a start slot: everything before slot \<open>i\<close> is in use.\<close>

definition slot_reach :: "u32 list \<Rightarrow> nat \<Rightarrow> nat \<Rightarrow> bool" where
  "slot_reach ks s i \<longleftrightarrow> (\<exists>d. i = (s + d) mod length ks \<and> (\<forall>d'<d. ks ! ((s + d') mod length ks) \<noteq> 0))"

definition home :: "(u32 \<Rightarrow> u32) \<Rightarrow> u32 list \<Rightarrow> u32 \<Rightarrow> nat" where
  "home H ks k = unat (H k) mod length ks"

definition keys_ok :: "(u32 \<Rightarrow> u32) \<Rightarrow> u32 list \<Rightarrow> bool" where
  "keys_ok H ks \<longleftrightarrow> (\<exists>e\<le>30. length ks = 2 ^ e) \<and> distinct (filter (\<lambda>k. k \<noteq> 0) ks) \<and>
     (\<forall>i<length ks. ks ! i \<noteq> 0 \<longrightarrow> slot_reach ks (home H ks (ks ! i)) i)"

lemma probe_at:
  assumes "length tab = 2 ^ e" "e \<le> 30" "unat sz = 2 ^ e"
  shows "\<forall>d'<d. kv_key (tab ! ((s + d') mod 2 ^ e)) \<noteq> 0 \<and> kv_key (tab ! ((s + d') mod 2 ^ e)) \<noteq> key \<Longrightarrow>
    kv_key (tab ! ((s + d) mod 2 ^ e)) = 0 \<or> kv_key (tab ! ((s + d) mod 2 ^ e)) = key \<Longrightarrow>
    unat n = s mod 2 ^ e \<Longrightarrow> probe tab sz key n = Some ((s + d) mod 2 ^ e)"
proof (induction d arbitrary: s n)
  case 0
  have "unat n < length tab" using assms(1) 0(3) by simp
  moreover have "kv_key (tab ! unat n) = 0 \<or> kv_key (tab ! unat n) = key" using 0(2,3) by simp
  ultimately have "probe tab sz key n = Some (unat n)" by (subst probe.simps) auto
  then show ?case using 0(3) by simp
next
  case (Suc d)
  have "kv_key (tab ! unat n) \<noteq> 0" "kv_key (tab ! unat n) \<noteq> key" using Suc.prems(1,3) by force+
  moreover have "unat n < length tab" using assms(1) Suc.prems(3) by simp
  ultimately have "probe tab sz key n = probe tab sz key ((n + 1) AND (sz - 1))"
    by (subst probe.simps) auto
  also have "\<dots> = Some ((Suc s + d) mod 2 ^ e)"
  proof (rule Suc.IH)
    show "\<forall>d'<d. kv_key (tab ! ((Suc s + d') mod 2 ^ e)) \<noteq> 0 \<and> kv_key (tab ! ((Suc s + d') mod 2 ^ e)) \<noteq> key"
      using Suc.prems(1) by (metis Suc_less_eq add_Suc add_Suc_right)
  qed (use Suc.prems unat_next_slot [OF assms(3,2) Suc.prems(3)] in simp_all)
  finally show ?case by simp
qed

lemma probe_spec:
  assumes ok: "keys_ok H (map kv_key tab)" and sz: "length tab = unat sz" and free: "0 \<in> kv_key ` set tab"
  obtains n where "probe tab sz key (H key AND (sz - 1)) = Some n" "n < length tab"
    "if key \<noteq> 0 \<and> key \<in> kv_key ` set tab then kv_key (tab ! n) = key
     else kv_key (tab ! n) = 0 \<and> slot_reach (map kv_key tab) (home H (map kv_key tab) key) n"
proof -
  let ?s = "unat (H key)" and ?N = "length tab"
  let ?stop = "\<lambda>d. kv_key (tab ! ((?s + d) mod ?N)) = 0 \<or> kv_key (tab ! ((?s + d) mod ?N)) = key"
  obtain e where e: "?N = 2 ^ e" "e \<le> 30" using ok by (auto simp: keys_ok_def)
  have N: "0 < ?N" by (simp add: e)
  have ix [simp]: "x mod ?N < ?N" for x by (simp add: e)
  obtain j where j: "j < ?N" "kv_key (tab ! j) = 0" using free by (auto simp: in_set_conv_nth)
  have "(?s + (j + (?N - ?s mod ?N))) mod ?N = j"
  proof -
    have "?s mod ?N < ?N" using N by simp
    then have "?s mod ?N + (j + (?N - ?s mod ?N)) = j + ?N" by linarith
    then show ?thesis using j(1) by (metis mod_add_left_eq mod_add_self2 mod_less)
  qed
  then have ex: "\<exists>d. ?stop d" using j(2) by metis
  define d where "d = (LEAST d. ?stop d)"
  have d: "?stop d" unfolding d_def by (rule LeastI_ex [OF ex])
  have before: "\<not> ?stop d'" if "d' < d" for d' using that not_less_Least unfolding d_def by blast
  define n where "n = (?s + d) mod ?N"
  have p: "probe tab sz key (H key AND (sz - 1)) = Some n"
    unfolding n_def e(1)
  proof (rule probe_at)
    show "unat (H key AND (sz - 1)) = ?s mod 2 ^ e" using unat_and_mask e sz by simp
  qed (use d before e sz in auto)
  have nN: "n < ?N" using N by (simp add: n_def)
  have r: "slot_reach (map kv_key tab) (home H (map kv_key tab) key) n"
    unfolding slot_reach_def home_def using before nN
    by (intro exI [of _ d]) (simp add: n_def mod_add_left_eq)
  have "kv_key (tab ! n) = key" if k: "key \<noteq> 0" "key \<in> kv_key ` set tab"
  proof -
    obtain i where i: "i < ?N" "kv_key (tab ! i) = key" using k(2) by (auto simp: in_set_conv_nth)
    then have "slot_reach (map kv_key tab) (home H (map kv_key tab) key) i" using ok k(1) by (auto simp: keys_ok_def)
    then obtain di where di: "i = (?s + di) mod ?N" "\<And>d'. d' < di \<Longrightarrow> kv_key (tab ! ((?s + d') mod ?N)) \<noteq> 0"
      using N by (auto simp: slot_reach_def home_def mod_add_left_eq)
    have "\<not> d < di" if "kv_key (tab ! n) = 0" using di(2) that by (auto simp: n_def)
    moreover have "\<not> di < d" using before di(1) i(2) by metis
    ultimately show ?thesis using d di(1) i(2) by (metis n_def linorder_neqE_nat)
  qed
  moreover have "kv_key (tab ! n) = 0" if "\<not> (key \<noteq> 0 \<and> key \<in> kv_key ` set tab)"
  proof -
    have "kv_key (tab ! n) \<in> kv_key ` set tab" using nN by simp
    then show ?thesis using d that unfolding n_def by metis
  qed
  ultimately show ?thesis using that p nN r by auto
qed

section \<open>Entries of a table\<close>

definition kvs_of :: "keyval list \<Rightarrow> (u32 \<times> u32) list" where
  "kvs_of tab = map (\<lambda>e. (kv_key e, kv_val e)) (filter (\<lambda>e. kv_key e \<noteq> 0) tab)"

lemma kvs_of_append [simp]: "kvs_of (xs @ ys) = kvs_of xs @ kvs_of ys"
  by (simp add: kvs_of_def)

lemma kvs_of_Cons [simp]: "kvs_of (e # es) = (if kv_key e = 0 then [] else [(kv_key e, kv_val e)]) @ kvs_of es"
  by (simp add: kvs_of_def)

lemma kvs_of_Nil [simp]: "kvs_of [] = []"
  by (simp add: kvs_of_def)

lemma kvs_of_zero [simp]: "kvs_of (replicate n keyval_zero) = []"
  by (induction n) (simp_all add: keyval_zero_def)

lemma fst_kvs_of: "map fst (kvs_of tab) = filter (\<lambda>k. k \<noteq> 0) (map kv_key tab)"
  by (simp add: kvs_of_def filter_map comp_def)

lemma fst_set_kvs_of: "fst ` set (kvs_of tab) = kv_key ` set tab - {0}"
  by (auto simp: kvs_of_def image_image)

lemma kvs_of_no_zero: "(0, v) \<notin> set (kvs_of tab)"
  by (auto simp: kvs_of_def)

lemma keys_ok_distinct: "keys_ok H (map kv_key tab) \<Longrightarrow> distinct (map fst (kvs_of tab))"
  by (simp add: fst_kvs_of keys_ok_def)

lemma free_slot:
  assumes "length (kvs_of tab) < length tab"
  shows "0 \<in> kv_key ` set tab"
proof (rule ccontr)
  assume "0 \<notin> kv_key ` set tab"
  then have "filter (\<lambda>e. kv_key e \<noteq> 0) tab = tab" by (intro filter_True) auto
  then show False using assms by (simp add: kvs_of_def)
qed

lemma split_at: "n < length xs \<Longrightarrow> xs = take n xs @ xs ! n # drop (Suc n) xs"
  by (simp add: Cons_nth_drop_Suc)

lemma kvs_of_place:
  assumes "n < length tab" "kv_key (tab ! n) = 0" "kv_key e \<noteq> 0"
  shows "set (kvs_of (tab[n := e])) = insert (kv_key e, kv_val e) (set (kvs_of tab))"
    "length (kvs_of (tab[n := e])) = Suc (length (kvs_of tab))"
proof -
  have "kvs_of tab = kvs_of (take n tab) @ kvs_of (drop (Suc n) tab)"
    using assms(2) arg_cong [OF split_at [OF assms(1)], of kvs_of] by simp
  moreover have "kvs_of (tab[n := e]) = kvs_of (take n tab) @ (kv_key e, kv_val e) # kvs_of (drop (Suc n) tab)"
    using assms by (simp add: upd_conv_take_nth_drop)
  ultimately show "set (kvs_of (tab[n := e])) = insert (kv_key e, kv_val e) (set (kvs_of tab))"
    "length (kvs_of (tab[n := e])) = Suc (length (kvs_of tab))" by simp_all
qed

lemma kvs_of_value:
  assumes "n < length tab" "kv_key (tab ! n) = k" "k \<noteq> 0" "distinct (map fst (kvs_of tab))"
  shows "map_of (kvs_of (tab[n := (tab ! n)\<lparr>kv_val := v\<rparr>])) = (map_of (kvs_of tab))(k \<mapsto> v)"
proof -
  have e: "kvs_of tab = kvs_of (take n tab) @ (k, kv_val (tab ! n)) # kvs_of (drop (Suc n) tab)"
    using assms(2,3) arg_cong [OF split_at [OF assms(1)], of kvs_of] by simp
  then have "k \<notin> fst ` set (kvs_of (take n tab))" using assms(4) by simp
  then have "map_of (kvs_of (take n tab)) k = None" by (simp add: map_of_eq_None_iff)
  moreover have "kvs_of (tab[n := (tab ! n)\<lparr>kv_val := v\<rparr>]) = kvs_of (take n tab) @ (k, v) # kvs_of (drop (Suc n) tab)"
    using assms by (simp add: upd_conv_take_nth_drop)
  ultimately show ?thesis using e by (auto simp: map_add_def fun_eq_iff split: option.splits)
qed

lemma keys_ok_place:
  assumes ok: "keys_ok H ks" and n: "n < length ks" "ks ! n = 0" and k: "k \<noteq> 0" "k \<notin> set ks" and r: "slot_reach ks (home H ks k) n"
  shows "keys_ok H (ks[n := k])"
proof -
  have mono: "slot_reach (ks[n := k]) s i" if "slot_reach ks s i" for s i
  proof -
    from that obtain d where d: "i = (s + d) mod length ks" "\<forall>d'<d. ks ! ((s + d') mod length ks) \<noteq> 0" by (auto simp: slot_reach_def)
    have "ks[n := k] ! j \<noteq> 0" if "ks ! j \<noteq> 0" for j using that n k(1) by (cases "j = n") simp_all
    then show ?thesis using d by (auto simp: slot_reach_def)
  qed
  have "filter (\<lambda>k. k \<noteq> 0) ks = filter (\<lambda>k. k \<noteq> 0) (take n ks) @ filter (\<lambda>k. k \<noteq> 0) (drop (Suc n) ks)"
    using n(2) arg_cong [OF split_at [OF n(1)], of "filter (\<lambda>k. k \<noteq> 0)"] by simp
  moreover have "k \<notin> set (take n ks)" "k \<notin> set (drop (Suc n) ks)" using k(2) by (auto dest: in_set_takeD in_set_dropD)
  ultimately have "distinct (filter (\<lambda>k. k \<noteq> 0) (ks[n := k]))"
    using ok n k(1) by (simp add: keys_ok_def upd_conv_take_nth_drop)
  moreover have "slot_reach (ks[n := k]) (home H (ks[n := k]) (ks[n := k] ! i)) i" if "i < length ks" "ks[n := k] ! i \<noteq> 0" for i
    using that ok r n(1) by (cases "i = n") (auto intro: mono simp: keys_ok_def home_def)
  ultimately show ?thesis using ok by (simp add: keys_ok_def)
qed

section \<open>Invariant and operations\<close>

definition tbl_ok :: "(u32 \<Rightarrow> u32) \<Rightarrow> u32hash \<Rightarrow> bool" where
  "tbl_ok H h \<longleftrightarrow> keys_ok H (map kv_key (table h)) \<and> length (table h) = unat (tsize h)"

definition vals_ok :: "nat \<Rightarrow> nat \<Rightarrow> (u32 \<times> u32) set \<Rightarrow> DATA \<Rightarrow> bool" where
  "vals_ok L c E d \<longleftrightarrow>
     length (buf d) = c * L \<and> unat (len d) = c * L \<and> c * L \<le> unat (data_size d) \<and> data_size d \<le> 0xfff00000 \<and>
     inj_on snd E \<and> (\<forall>e\<in>E. \<exists>j<c. unat (snd e) = j * L)"

definition u32_inv :: "(u32 \<Rightarrow> u32) \<Rightarrow> nat \<Rightarrow> u32hash \<Rightarrow> bool" where
  "u32_inv H L h \<longleftrightarrow>
     u_vlen h = L \<and> 4 \<le> L \<and> tbl_ok H h \<and> 32 \<le> unat (tsize h) \<and>
     unat (cnt h) = length (kvs_of (table h)) \<and> 4 * unat (cnt h) \<le> 3 * unat (tsize h) + 4 \<and>
     (4 < L \<longrightarrow> vals_ok L (unat (cnt h)) (set (kvs_of (table h))) (vals h))"

definition val_of :: "u32hash \<Rightarrow> u32 \<Rightarrow> string" where
  "val_of h w = (if 4 < u_vlen h then take (u_vlen h) (drop (unat w) (buf (vals h))) else bytes_of_u32 w)"

definition u32_map :: "u32hash \<Rightarrow> u32 \<Rightarrow> string option" where
  "u32_map h k = map_option (val_of h) (map_of (kvs_of (table h)) k)"

lemma lookup_spec:
  assumes "tbl_ok H h" "length (kvs_of (table h)) < length (table h)"
  obtains n where "n < length (table h)" "map_of (kvs_of (table h)) key = None" "kv_key (table h ! n) = 0"
      "slot_reach (map kv_key (table h)) (home H (map kv_key (table h)) key) n"
      "lookup H h key = Some (h\<lparr>u_kptr := None, u_vptr := None\<rparr>, n)"
  | n where "n < length (table h)" "key \<noteq> 0" "map_of (kvs_of (table h)) key = Some (kv_val (table h ! n))" "kv_key (table h ! n) = key"
      "lookup H h key = Some (h\<lparr>u_kptr := Some n, u_vptr := Some (VPTR h n)\<rparr>, n)"
proof -
  obtain n where n: "probe (table h) (tsize h) key (H key AND (tsize h - 1)) = Some n" "n < length (table h)"
    "if key \<noteq> 0 \<and> key \<in> kv_key ` set (table h) then kv_key (table h ! n) = key
     else kv_key (table h ! n) = 0 \<and> slot_reach (map kv_key (table h)) (home H (map kv_key (table h)) key) n"
    using probe_spec [of H "table h" "tsize h" key] assms free_slot by (auto simp: tbl_ok_def)
  show ?thesis
  proof (cases "key \<noteq> 0 \<and> key \<in> kv_key ` set (table h)")
    case True
    have k: "kv_key (table h ! n) = key" using n(3) True by simp
    have "(key, kv_val (table h ! n)) \<in> set (kvs_of (table h))" using k True n(2) by (auto simp: kvs_of_def)
    then have m: "map_of (kvs_of (table h)) key = Some (kv_val (table h ! n))"
      using keys_ok_distinct assms(1) by (intro map_of_is_SomeI) (auto simp: tbl_ok_def)
    have "lookup H h key = Some (h\<lparr>u_kptr := Some n, u_vptr := Some (VPTR h n)\<rparr>, n)" using k True n(1) by (simp add: lookup_def)
    then show ?thesis using k True m n(2) that(2) by blast
  next
    case False
    then have "key \<notin> fst ` set (kvs_of (table h))" by (auto simp: fst_set_kvs_of)
    then have "map_of (kvs_of (table h)) key = None" by (simp add: map_of_eq_None_iff)
    moreover have z: "kv_key (table h ! n) = 0" and "slot_reach (map kv_key (table h)) (home H (map kv_key (table h)) key) n"
      using n(3) unfolding if_not_P [OF False] by simp_all
    moreover have "lookup H h key = Some (h\<lparr>u_kptr := None, u_vptr := None\<rparr>, n)" using z n(1) by (simp add: lookup_def)
    ultimately show ?thesis using that(1) n(2) by blast
  qed
qed

lemma reinsert_spec:
  "tbl_ok H h \<Longrightarrow> distinct (map fst (kvs_of es)) \<Longrightarrow> fst ` set (kvs_of es) \<inter> fst ` set (kvs_of (table h)) = {} \<Longrightarrow>
   length (kvs_of es) + length (kvs_of (table h)) \<le> length (table h) \<Longrightarrow>
   \<exists>t p q. reinsert H es h = Some (h\<lparr>table := t, u_kptr := p, u_vptr := q\<rparr>) \<and> keys_ok H (map kv_key t) \<and>
     length t = length (table h) \<and> set (kvs_of t) = set (kvs_of (table h)) \<union> set (kvs_of es) \<and>
     length (kvs_of t) = length (kvs_of (table h)) + length (kvs_of es)"
proof (induction es arbitrary: h)
  case Nil
  then show ?case
    by (intro exI [of _ "table h"] exI [of _ "u_kptr h"] exI [of _ "u_vptr h"]) (simp add: tbl_ok_def)
next
  case (Cons e es)
  show ?case
  proof (cases "kv_key e = 0")
    case True
    then show ?thesis using Cons by simp
  next
    case False
    have new: "map_of (kvs_of (table h)) (kv_key e) = None" using Cons.prems(3) False by (auto simp: map_of_eq_None_iff)
    have room: "length (kvs_of (table h)) < length (table h)" using Cons.prems(4) False by simp
    obtain n where n: "n < length (table h)" "kv_key (table h ! n) = 0"
      "slot_reach (map kv_key (table h)) (home H (map kv_key (table h)) (kv_key e)) n"
      "lookup H h (kv_key e) = Some (h\<lparr>u_kptr := None, u_vptr := None\<rparr>, n)"
      using lookup_spec [OF Cons.prems(1) room, of "kv_key e"] new by (metis option.distinct(1))
    define h1 where "h1 = h\<lparr>u_kptr := None, u_vptr := None, table := (table h)[n := e]\<rparr>"
    have "kv_key e \<notin> set (map kv_key (table h))" using new False by (auto simp: map_of_eq_None_iff fst_set_kvs_of)
    then have "tbl_ok H h1"
      using keys_ok_place [of H "map kv_key (table h)" n "kv_key e"] n False Cons.prems(1) by (simp add: h1_def tbl_ok_def map_update)
    moreover note p = kvs_of_place [OF n(1,2) False]
    have k: "set (kvs_of (table h1)) = insert (kv_key e, kv_val e) (set (kvs_of (table h)))"
      "length (kvs_of (table h1)) = Suc (length (kvs_of (table h)))" using p by (simp_all add: h1_def)
    moreover have "fst ` set (kvs_of es) \<inter> fst ` set (kvs_of (table h1)) = {}"
      unfolding k(1) using Cons.prems(2,3) False by auto
    moreover have "distinct (map fst (kvs_of es))" "length (kvs_of es) + length (kvs_of (table h1)) \<le> length (table h1)"
      using Cons.prems(2,4) k(2) False by (simp_all add: h1_def)
    ultimately obtain t p q where "reinsert H es h1 = Some (h1\<lparr>table := t, u_kptr := p, u_vptr := q\<rparr>)" "keys_ok H (map kv_key t)"
     "length t = length (table h1)" "set (kvs_of t) = set (kvs_of (table h1)) \<union> set (kvs_of es)"
     "length (kvs_of t) = length (kvs_of (table h1)) + length (kvs_of es)"
      using Cons.IH [of h1] by (elim meta_impE) (assumption+, elim exE conjE, erule (4) that)
    moreover have "reinsert H (e # es) h = reinsert H es h1" using False n(4) by (simp add: h1_def)
    ultimately show ?thesis using False k
      by (intro exI [of _ t] exI [of _ p] exI [of _ q]) (simp add: h1_def)
  qed
qed

lemma inv_room: "u32_inv H L h \<Longrightarrow> length (kvs_of (table h)) < length (table h)"
  by (auto simp: u32_inv_def tbl_ok_def)

lemma inv_distinct: "u32_inv H L h \<Longrightarrow> distinct (map fst (kvs_of (table h)))"
  using keys_ok_distinct by (auto simp: u32_inv_def tbl_ok_def)

lemma u32_cong:
  assumes "u32_inv H L h" "tbl_ok H h'" "u_vlen h' = u_vlen h" "cnt h' = cnt h" "vals h' = vals h"
    "set (kvs_of (table h')) = set (kvs_of (table h))" "length (kvs_of (table h')) = length (kvs_of (table h))"
    "unat (tsize h) \<le> unat (tsize h')"
  shows "u32_inv H L h' \<and> u32_map h' = u32_map h"
proof -
  have "distinct (map fst (kvs_of (table h)))" "distinct (map fst (kvs_of (table h')))"
    using assms(1,2) keys_ok_distinct by (auto simp: u32_inv_def tbl_ok_def)
  then have "map_of (kvs_of (table h')) = map_of (kvs_of (table h))" using assms(6) by (simp add: map_of_inject_set)
  moreover have "val_of h' = val_of h" using assms by (simp add: val_of_def fun_eq_iff)
  ultimately have "u32_map h' = u32_map h" by (intro ext) (simp add: u32_map_def)
  moreover have "u32_inv H L h'" using assms unfolding u32_inv_def by (elim conjE) simp
  ultimately show ?thesis by simp
qed

lemma resize_spec:
  assumes inv: "u32_inv H L h" and sz: "unat (tsize h) \<le> 2 ^ 29"
  shows "\<exists>h'. resize H h = Some h' \<and> u32_inv H L h' \<and> u32_map h' = u32_map h \<and> cnt h' = cnt h \<and> unat (tsize h') = 2 * unat (tsize h)"
proof -
  define h1 where "h1 = h\<lparr>tsize := 2 * tsize h, table := replicate (unat (2 * tsize h)) keyval_zero\<rparr>"
  have u: "unat (2 * tsize h) = 2 * unat (tsize h)" using sz by (simp add: unat_word_ariths)
  obtain e where e: "unat (tsize h) = 2 ^ e" "e \<le> 30" using inv by (auto simp: u32_inv_def tbl_ok_def keys_ok_def)
  have "e \<le> 29" using sz power_le_imp_le_exp [of "2 :: nat" e 29] unfolding e(1) by linarith
  then have "keys_ok H (map kv_key (table h1))"
    unfolding keys_ok_def by (intro conjI exI [of _ "Suc e"]) (simp_all add: h1_def u e keyval_zero_def)
  then have ok: "tbl_ok H h1" by (simp add: tbl_ok_def h1_def u)
  have len: "length (table h) = unat (tsize h)" using inv by (simp add: u32_inv_def tbl_ok_def)
  obtain t p q where t: "reinsert H (table h) h1 = Some (h1\<lparr>table := t, u_kptr := p, u_vptr := q\<rparr>)" "keys_ok H (map kv_key t)"
    "length t = length (table h1)" "set (kvs_of t) = set (kvs_of (table h))" "length (kvs_of t) = length (kvs_of (table h))"
    using reinsert_spec [OF ok inv_distinct [OF inv]] inv_room [OF inv] len by (auto simp: h1_def u)
  let ?h = "h1\<lparr>table := t, u_kptr := p, u_vptr := q\<rparr>"
  have "u32_inv H L ?h \<and> u32_map ?h = u32_map h"
    using t u by (intro u32_cong [OF inv]) (simp_all add: tbl_ok_def h1_def)
  moreover have "resize H h = Some ?h" using t(1) by (simp add: resize_def h1_def)
  ultimately show ?thesis by (auto simp: h1_def u)
qed

lemma val_of_hdr: "val_of (h\<lparr>u_kptr := p\<rparr>) = val_of h" "val_of (h\<lparr>u_vptr := q\<rparr>) = val_of h"
  by (simp_all add: val_of_def fun_eq_iff)

lemma u32_hdr_cong [simp]:
  "u32_inv H L (h\<lparr>u_kptr := p\<rparr>) = u32_inv H L h" "u32_inv H L (h\<lparr>u_vptr := q\<rparr>) = u32_inv H L h"
  "u32_map (h\<lparr>u_kptr := p\<rparr>) = u32_map h" "u32_map (h\<lparr>u_vptr := q\<rparr>) = u32_map h"
  by (simp_all add: u32_inv_def tbl_ok_def u32_map_def fun_eq_iff val_of_hdr)

lemma read_VPTR: "n < length (table h) \<Longrightarrow> read_val h (VPTR h n) = val_of h (kv_val (table h ! n))"
  by (simp add: read_val_def VPTR_def val_of_def)

lemma u32_fetch_spec:
  assumes "u32_inv H L h"
  shows "\<exists>h'. u32hash_fetch H h k = Some h' \<and> u32_inv H L h' \<and> u32_map h' = u32_map h \<and>
    map_option (read_val h') (u_vptr h') = u32_map h k"
proof -
  have "tbl_ok H h" using assms by (simp add: u32_inv_def)
  then show ?thesis
    using inv_room [OF assms]
  proof (cases rule: lookup_spec [where key = k])
    case (1 n)
    then show ?thesis using assms by (simp add: u32hash_fetch_def u32_map_def)
  next
    case (2 n)
    have "read_val (h\<lparr>u_kptr := Some n, u_vptr := Some (VPTR h n)\<rparr>) = read_val h" by (simp add: read_val_def fun_eq_iff split: place.split)
    then show ?thesis using 2 assms read_VPTR [OF 2(1)] by (simp add: u32hash_fetch_def u32_map_def)
  qed
qed

section \<open>Storing\<close>

lemma bytes_of_u32_of_bytes: "length s = 4 \<Longrightarrow> bytes_of_u32 (u32_of_bytes s) = s"
proof -
  assume "length s = 4"
  then obtain a b c d where s: "s = [a, b, c, d]" by (auto simp: length_Suc_conv numeral_eq_Suc)
  let ?n = "\<lambda>c. (of_char c :: nat)"
  have lt: "?n x < 256" for x using of_char_mod_256 [of x, where ?'a = nat] by (metis mod_less_divisor zero_less_numeral)
  define m where "m = ?n a + 256 * (?n b + 256 * (?n c + 256 * ?n d))"
  have step: "?n x + 256 * y < 256 * k" if "y < k" for x and y k :: nat using lt [of x] that by linarith
  have "m < 256 * (256 * (256 * 256))" unfolding m_def by (intro step lt)
  then have "m < 4294967296" by simp
  moreover have "u32_of_bytes s = of_nat m" by (simp only: u32_of_bytes_def s m_def foldr.simps comp_def id_def mult_0_right add_0_right)
  ultimately have "unat (u32_of_bytes s) = m" by (simp add: unsigned_of_nat take_bit_nat_eq_self)
  moreover have "char_of (?n x + 256 * y) = x" for x y
  proof -
    have "char_of (?n x + 256 * y) = (char_of ((?n x + 256 * y) mod 256) :: char)" by (simp only: char_of_mod_256)
    then show ?thesis by (simp only: mod_mult_self2 of_char_mod_256 char_of_char)
  qed
  moreover have dv: "(?n x + 256 * y) div 256 = y" for x y using lt [of x] by simp
  have "m div 256 = ?n b + 256 * (?n c + 256 * ?n d)" "m div 256 ^ 2 = ?n c + 256 * ?n d" "m div 256 ^ 3 = ?n d"
    by (simp_all only: m_def div_mult2_eq power2_eq_square power3_eq_cube dv)
  moreover have "char_of (?n x) = x" for x by simp
  ultimately show ?thesis unfolding bytes_of_u32_def s by (simp only: list.map power_0 power_one_right div_by_1) (simp only: m_def)
qed

lemma read_before: "a + L \<le> b \<Longrightarrow> b \<le> length xs \<Longrightarrow> take L (drop a (take b xs @ ys)) = take L (drop a xs)"
  by (rule nth_equalityI) (auto simp: nth_append)

lemma read_after: "b + length bs \<le> a \<Longrightarrow> b \<le> length xs \<Longrightarrow> drop a (take b xs @ bs @ drop (b + length bs) xs) = drop a xs"
  by (simp add: add.commute)

lemma chunk_write:
  assumes "length bs = L" "j < c" "i < c" "length xs = c * L"
  shows "take L (drop (i * L) (take (j * L) xs @ bs @ drop (j * L + L) xs)) = (if i = j then bs else take L (drop (i * L) xs))"
proof -
  have j: "j * L + L \<le> c * L" using mult_le_mono1 [of "Suc j" c L] assms(2) by simp
  then have jl: "j * L \<le> length xs" using assms(4) by linarith
  consider "i = j" | "i * L + L \<le> j * L" "i \<noteq> j" | "j * L + L \<le> i * L" "i \<noteq> j"
    using mult_le_mono1 [of "Suc i" j L] mult_le_mono1 [of "Suc j" i L] by (cases i j rule: linorder_cases) auto
  then show ?thesis
  proof cases
    case 1
    have "length (take (j * L) xs) = j * L" using jl by simp
    then show ?thesis using 1 assms(1) by simp
  next
    case 2
    then show ?thesis unfolding read_before [OF 2(1) jl] by (simp only: if_False)
  next
    case 3
    then show ?thesis using read_after [of "j * L" bs "i * L" xs] jl unfolding assms(1) by (simp only: if_False)
  qed
qed

lemma map_of_insert_set:
  assumes "distinct (map fst ys)" "distinct (map fst xs)" "set ys = insert (k, w) (set xs)" "map_of xs k = None"
  shows "map_of ys = (map_of xs)(k \<mapsto> w)"
proof -
  have "map_of ys = map_of ((k, w) # xs)"
    using assms by (subst map_of_inject_set) (auto simp: map_of_eq_None_iff)
  then show ?thesis by simp
qed

lemma tbl_ok_place:
  assumes "tbl_ok H h" "n < length (table h)" "kv_key (table h ! n) = 0" "map_of (kvs_of (table h)) (kv_key e) = None" "kv_key e \<noteq> 0"
    "slot_reach (map kv_key (table h)) (home H (map kv_key (table h)) (kv_key e)) n"
  shows "keys_ok H (map kv_key ((table h)[n := e]))"
proof -
  have "kv_key e \<notin> set (map kv_key (table h))" using assms(4,5) by (auto simp: map_of_eq_None_iff fst_set_kvs_of)
  then show ?thesis
    using keys_ok_place [of H "map kv_key (table h)" n "kv_key e"] assms by (simp add: tbl_ok_def map_update)
qed

lemma new_long_entry:
  assumes ok: "vals_ok L c E d" and lim: "Suc c * L < 0xfff00000" and bs: "length bs = L"
  shows "\<exists>d1 d2. data_resize (d\<lparr>len := len d + of_nat L\<rparr>) (len d + of_nat L) = Some d1 \<and> data_write d1 (unat (len d)) bs = Some d2 \<and>
    buf d2 = buf d @ bs \<and> (0 < L \<longrightarrow> vals_ok L (Suc c) (insert (k, len d) E) d2)"
proof -
  have l: "unat (len d) = c * L" "length (buf d) = c * L" "c * L \<le> unat (data_size d)" "data_size d \<le> 0xfff00000"
    using ok by (simp_all add: vals_ok_def)
  have "L < 4294967296" using lim by simp
  then have "unat (of_nat L :: u32) = L" by (simp add: unsigned_of_nat take_bit_nat_eq_self)
  then have "unat (len d + of_nat L) = (c * L + L) mod 2 ^ LENGTH(32)" by (simp only: unat_word_ariths(1) l(1))
  moreover have s1: "c * L + L = Suc c * L" by simp
  ultimately have u: "unat (len d + of_nat L) = Suc c * L" using lim unfolding s1 by (simp only: len_num1) simp
  then have "len d + of_nat L < 0xfff00000" using lim by (simp add: word_less_nat_alt)
  then obtain sz where r: "data_resize (d\<lparr>len := len d + of_nat L\<rparr>) (len d + of_nat L) = Some (d\<lparr>len := len d + of_nat L, data_size := sz\<rparr>)"
    "len d + of_nat L \<le> sz" "data_size d \<le> sz" "sz \<le> 0xfff00000"
    using data_resize_some [of "len d + of_nat L" "d\<lparr>len := len d + of_nat L\<rparr>"] l by auto
  have s: "Suc c * L \<le> unat sz" using r(2) unfolding word_le_nat_alt u .
  let ?d2 = "d\<lparr>len := len d + of_nat L, data_size := sz, buf := buf d @ bs\<rparr>"
  have "data_write (d\<lparr>len := len d + of_nat L, data_size := sz\<rparr>) (unat (len d)) bs = Some ?d2"
    using s bs l unfolding data_write_def by simp
  moreover have "vals_ok L (Suc c) (insert (k, len d) E) ?d2" if "0 < L"
  proof -
    have b: "snd e \<noteq> len d" if e: "e \<in> E" for e
    proof -
      obtain j where "j < c" "unat (snd e) = j * L" using ok e unfolding vals_ok_def by blast
      then have "unat (snd e) < unat (len d)" using \<open>0 < L\<close> l(1) by simp
      then show ?thesis by auto
    qed
    then have "inj_on snd (insert (k, len d) E)" using ok by (force simp: vals_ok_def)
    moreover have "\<exists>j<Suc c. unat (snd e) = j * L" if "e \<in> insert (k, len d) E" for e
      using that ok l(1) by (auto simp: vals_ok_def intro: less_SucI)
    ultimately show ?thesis using l s r u bs by (simp add: vals_ok_def)
  qed
  ultimately show ?thesis using r(1) by simp
qed

definition u32_cap :: "nat \<Rightarrow> nat" where
  "u32_cap L = (if 4 < L then min (2 ^ 29) ((0xfff00000 - 1) div L) else 2 ^ 29)"

lemma u32_cap_less: "c < u32_cap L \<Longrightarrow> c < 2 ^ 29 \<and> (4 < L \<longrightarrow> Suc c * L < 0xfff00000)"
proof -
  assume c: "c < u32_cap L"
  have "Suc c * L \<le> 0xfff00000 - 1" if "4 < L"
  proof -
    have "Suc c \<le> (0xfff00000 - 1) div L" using c that by (simp add: u32_cap_def)
    then have "Suc c * L \<le> (0xfff00000 - 1) div L * L" by (rule mult_le_mono1)
    also have "\<dots> \<le> 0xfff00000 - 1" by (rule div_times_less_eq_dividend)
    finally show ?thesis .
  qed
  then show ?thesis using c by (auto simp: u32_cap_def split: if_splits)
qed

lemma new_entry_spec:
  assumes inv: "u32_inv H L h" and n: "n < length (table h)" "kv_key (table h ! n) = 0" and key: "key \<noteq> 0" "map_of (kvs_of (table h)) key = None"
    and r: "slot_reach (map kv_key (table h)) (home H (map kv_key (table h)) key) n"
    and room: "4 * unat (cnt h) \<le> 3 * unat (tsize h)" and lim: "unat (cnt h) < u32_cap L"
    and bs: "case vp of Some v \<Rightarrow> length v = L | None \<Rightarrow> True"
  shows "\<exists>h'. new_entry h n key vp L = Some h' \<and> u32_inv H L h' \<and> u32_map h' = (u32_map h)(key \<mapsto> u32_fill vp L) \<and> u_vptr h' \<noteq> None"
proof -
  let ?c = "unat (cnt h)"
  note lt = u32_cap_less [OF lim]
  have uc: "unat (cnt h + 1) = Suc ?c" using lt by (simp add: unat_word_ariths)
  have i: "u_vlen h = L" "4 \<le> L" "tbl_ok H h" "32 \<le> unat (tsize h)" "?c = length (kvs_of (table h))" "length (table h) = unat (tsize h)"
    using inv by (simp_all add: u32_inv_def tbl_ok_def)
  have place: "keys_ok H (map kv_key ((table h)[n := e]))" "set (kvs_of ((table h)[n := e])) = insert (key, kv_val e) (set (kvs_of (table h)))"
    "length (kvs_of ((table h)[n := e])) = Suc ?c" "map_of (kvs_of ((table h)[n := e])) = (map_of (kvs_of (table h)))(key \<mapsto> kv_val e)"
    if e: "kv_key e = key" for e
  proof -
    show k: "keys_ok H (map kv_key ((table h)[n := e]))" using tbl_ok_place [OF i(3) n, of e] key r e by simp
    note p = kvs_of_place [OF n, of e]
    show s: "set (kvs_of ((table h)[n := e])) = insert (key, kv_val e) (set (kvs_of (table h)))" "length (kvs_of ((table h)[n := e])) = Suc ?c"
      using p e key(1) i(5) by simp_all
    show "map_of (kvs_of ((table h)[n := e])) = (map_of (kvs_of (table h)))(key \<mapsto> kv_val e)"
      using map_of_insert_set [OF keys_ok_distinct [OF k] inv_distinct [OF inv] s(1) key(2)] .
  qed
  have fl: "length (u32_fill vp L) = L" using bs by (simp add: u32_fill_def split: option.splits)
  have fin: "u32_inv H L h' \<and> u32_map h' = (u32_map h)(key \<mapsto> u32_fill vp L)"
    if h': "u_vlen h' = L" "table h' = (table h)[n := e]" "kv_key e = key" "cnt h' = cnt h + 1" "tsize h' = tsize h"
      "4 < L \<Longrightarrow> vals_ok L (Suc ?c) (insert (key, kv_val e) (set (kvs_of (table h)))) (vals h')"
      "val_of h' (kv_val e) = u32_fill vp L" "\<And>w. w \<in> snd ` set (kvs_of (table h)) \<Longrightarrow> val_of h' w = val_of h w" for h' e
  proof
    note p = place [OF h'(3)]
    show "u32_inv H L h'" using i h' p room uc by (simp add: u32_inv_def tbl_ok_def)
    show "u32_map h' = (u32_map h)(key \<mapsto> u32_fill vp L)"
    proof
      fix k
      show "u32_map h' k = ((u32_map h)(key \<mapsto> u32_fill vp L)) k"
      proof (cases "map_of (kvs_of (table h)) k")
        case (Some w)
        then have "w \<in> snd ` set (kvs_of (table h))" by (force dest: map_of_SomeD)
        then show ?thesis using Some h'(2,7,8) p(4) by (simp add: u32_map_def)
      qed (use h'(2,7) p(4) in \<open>simp add: u32_map_def\<close>)
    qed
  qed
  show ?thesis
  proof (cases "4 < L")
    case False
    then have L: "L = 4" using i(2) by simp
    define e where "e = (table h ! n)\<lparr>kv_key := key, kv_val := u32_of_bytes (u32_fill vp L)\<rparr>"
    have "foldr (\<lambda>c n. of_char c + 256 * n) (replicate k NUL) 0 = (0 :: nat)" for k by (induction k) (simp_all add: NUL_def)
    note z = this [of 4]
    have "u32_of_bytes (replicate 4 NUL) = 0" unfolding u32_of_bytes_def z by simp
    then have w: "(case vp of Some v \<Rightarrow> u32_of_bytes v | None \<Rightarrow> 0) = kv_val e"
      using bs by (auto simp: e_def u32_fill_def L split: option.splits)
    let ?h = "h\<lparr>cnt := cnt h + 1, u_kptr := Some n, table := (table h)[n := e], u_vptr := Some (InTable n)\<rparr>"
    have "new_entry h n key vp L = Some ?h"
      using False i(1) n(1) w by (simp add: new_entry_def e_def)
    moreover have "u32_inv H L ?h \<and> u32_map ?h = (u32_map h)(key \<mapsto> u32_fill vp L)"
      by (rule fin [where e = e]) (use False i(1) fl in \<open>simp_all add: e_def val_of_def bytes_of_u32_of_bytes L\<close>)
    ultimately show ?thesis by (intro exI [of _ ?h]) simp
  next
    case True
    define e where "e = (table h ! n)\<lparr>kv_key := key, kv_val := len (vals h)\<rparr>"
    have v: "vals_ok L ?c (set (kvs_of (table h))) (vals h)" using inv True unfolding u32_inv_def by blast
    have "Suc ?c * L < 0xfff00000" using lt True by blast
    from new_long_entry [OF v this fl, of key] obtain d1 d2 where
      d: "data_resize ((vals h)\<lparr>len := len (vals h) + of_nat L\<rparr>) (len (vals h) + of_nat L) = Some d1"
      "data_write d1 (unat (len (vals h))) (u32_fill vp L) = Some d2" "buf d2 = buf (vals h) @ u32_fill vp L"
      "vals_ok L (Suc ?c) (insert (key, len (vals h)) (set (kvs_of (table h)))) d2" using True by auto
    let ?h = "h\<lparr>cnt := cnt h + 1, u_kptr := Some n, table := (table h)[n := e], u_vptr := Some (InVals (unat (len (vals h)))), vals := d2\<rparr>"
    have "new_entry h n key vp L = Some ?h"
      using True i(1) n(1) d(1,2) by (simp add: new_entry_def e_def write_val_def Let_def)
    moreover have "u32_inv H L ?h \<and> u32_map ?h = (u32_map h)(key \<mapsto> u32_fill vp L)"
    proof (rule fin [where e = e])
      have "length (buf (vals h)) = unat (len (vals h))" using v by (simp add: vals_ok_def)
      then show "val_of ?h (kv_val e) = u32_fill vp L" using True i(1) fl d(3) by (simp add: val_of_def e_def)
      fix w assume "w \<in> snd ` set (kvs_of (table h))"
      then obtain j where j: "j < ?c" "unat w = j * L" using v unfolding vals_ok_def by blast
      have "j * L + L \<le> ?c * L" using mult_le_mono1 [of "Suc j" ?c L] j(1) by simp
      then have "j * L + L \<le> length (buf (vals h))" using v by (simp add: vals_ok_def)
      then show "val_of ?h w = val_of h w" using True i(1) j(2) d(3) by (simp add: val_of_def)
    qed (use i(1) d(4) in \<open>simp_all add: e_def\<close>)
    ultimately show ?thesis by (intro exI [of _ ?h]) simp
  qed
qed

lemma in_kvs_of: "n < length tab \<Longrightarrow> kv_key (tab ! n) = k \<Longrightarrow> k \<noteq> 0 \<Longrightarrow> (k, kv_val (tab ! n)) \<in> set (kvs_of tab)"
  by (auto simp: kvs_of_def)

lemma u32_inv_vals: "u32_inv H L h \<Longrightarrow> vals_ok L (unat (cnt h)) (set (kvs_of (table h))) d \<Longrightarrow> u32_inv H L (h\<lparr>vals := d\<rparr>)"
  unfolding u32_inv_def tbl_ok_def by (elim conjE, intro conjI impI) simp_all

lemma write_val_spec:
  assumes inv: "u32_inv H L h" and n: "n < length (table h)" "kv_key (table h ! n) = k" and k: "k \<noteq> 0" and bs: "length bs = L"
  shows "\<exists>h'. write_val h (VPTR h n) bs = Some h' \<and> u32_inv H L h' \<and> u32_map h' = (u32_map h)(k \<mapsto> bs) \<and> u_vptr h' = u_vptr h"
proof (cases "4 < L")
  case False
  let ?t = "(table h)[n := (table h ! n)\<lparr>kv_val := u32_of_bytes bs\<rparr>]"
  have L: "L = 4" "u_vlen h = 4" using inv False by (simp_all add: u32_inv_def)
  have keys: "map kv_key ?t = map kv_key (table h)" using n by (simp add: map_update list_update_same_conv)
  then have "length (kvs_of ?t) = length (kvs_of (table h))" by (metis fst_kvs_of length_map)
  then have "u32_inv H L (h\<lparr>table := ?t\<rparr>)" using inv keys False by (simp add: u32_inv_def tbl_ok_def)
  moreover have "u32_map (h\<lparr>table := ?t\<rparr>) = (u32_map h)(k \<mapsto> bs)"
  proof
    fix k'
    have "val_of (h\<lparr>table := ?t\<rparr>) = bytes_of_u32" "val_of h = bytes_of_u32" using L by (simp_all add: val_of_def fun_eq_iff)
    then show "u32_map (h\<lparr>table := ?t\<rparr>) k' = ((u32_map h)(k \<mapsto> bs)) k'"
      using kvs_of_value [OF n k inv_distinct [OF inv], of "u32_of_bytes bs"] bytes_of_u32_of_bytes [of bs] bs L by (simp add: u32_map_def)
  qed
  ultimately show ?thesis using L by (simp add: write_val_def VPTR_def)
next
  case True
  define w where "w = kv_val (table h ! n)"
  let ?E = "set (kvs_of (table h))" and ?c = "unat (cnt h)"
  have v: "vals_ok L ?c ?E (vals h)" "u_vlen h = L" using inv True unfolding u32_inv_def by blast+
  have kw: "(k, w) \<in> ?E" using in_kvs_of [OF n k] by (simp add: w_def)
  obtain j where j: "j < ?c" "unat w = j * L" using v(1) kw unfolding vals_ok_def by force
  have "j * L + L \<le> ?c * L" using mult_le_mono1 [of "Suc j" ?c L] j(1) by simp
  then have jl: "j * L + L \<le> unat (data_size (vals h))" "j * L + L \<le> length (buf (vals h))" "j * L \<le> length (buf (vals h))" "length (buf (vals h)) = ?c * L"
    using v(1) unfolding vals_ok_def by linarith+
  define b where "b = take (j * L) (buf (vals h)) @ bs @ drop (j * L + L) (buf (vals h))"
  let ?h = "h\<lparr>vals := (vals h)\<lparr>buf := b\<rparr>\<rparr>"
  have "data_write (vals h) (j * L) bs = Some ((vals h)\<lparr>buf := b\<rparr>)" using jl(1) unfolding data_write_def b_def bs by simp
  then have "write_val h (VPTR h n) bs = Some ?h" using True v(2) j(2) by (simp add: write_val_def VPTR_def w_def)
  moreover have "length b = length (buf (vals h))" using jl bs by (simp add: b_def)
  then have "vals_ok L ?c ?E ((vals h)\<lparr>buf := b\<rparr>)" using v(1) by (simp add: vals_ok_def)
  then have "u32_inv H L ?h" by (rule u32_inv_vals [OF inv])
  moreover have "u32_map ?h = (u32_map h)(k \<mapsto> bs)"
  proof
    fix k'
    show "u32_map ?h k' = ((u32_map h)(k \<mapsto> bs)) k'"
    proof (cases "map_of (kvs_of (table h)) k'")
      case None
      then have "k' \<noteq> k" using map_of_is_SomeI [OF inv_distinct [OF inv] kw] by auto
      then show ?thesis using None by (simp add: u32_map_def)
    next
      case (Some w')
      then have m: "(k', w') \<in> ?E" by (rule map_of_SomeD)
      obtain i where i: "i < ?c" "unat w' = i * L" using v(1) m unfolding vals_ok_def by force
      have "i = j \<longleftrightarrow> w' = w" using i(2) j(2) True by (auto simp: word_unat_eq_iff)
      moreover have "w' = w \<longleftrightarrow> k' = k"
      proof
        have "inj_on snd ?E" using v(1) by (simp add: vals_ok_def)
        then show "k' = k" if "w' = w" using inj_onD [of snd ?E "(k', w')" "(k, w)"] m kw that by simp
        show "w' = w" if "k' = k" using Some map_of_is_SomeI [OF inv_distinct [OF inv] kw] that by simp
      qed
      moreover have "val_of ?h w' = take L (drop (i * L) b)" "val_of h w' = take L (drop (i * L) (buf (vals h)))"
        using True v(2) i(2) by (simp_all add: val_of_def)
      ultimately show ?thesis
        using chunk_write [OF bs j(1) i(1) jl(4)] Some unfolding b_def [symmetric] by (simp add: u32_map_def)
    qed
  qed
  ultimately show ?thesis by (intro exI [of _ ?h]) simp
qed

lemma insert_spec_u32:
  assumes inv: "u32_inv H L h" and key: "key \<noteq> 0" and lim: "unat (cnt h) < u32_cap L" and bs: "case vp of Some v \<Rightarrow> length v = L | None \<Rightarrow> True"
  obtains h' where "u32hash_insert H h key vp L = Some (h', u_vptr h')" "u32_inv H L h'" "u32_map h key = None"
      "u32_map h' = (u32_map h)(key \<mapsto> u32_fill vp L)" "u_vptr h' \<noteq> None"
  | h' n where "u32hash_insert H h key vp L = Some (h', None)" "u32_inv H L h'" "u32_map h' = u32_map h" "u32_map h key \<noteq> None"
      "n < length (table h')" "kv_key (table h' ! n) = key" "u_vptr h' = Some (VPTR h' n)"
proof -
  have i: "u_vlen h = L" "32 \<le> unat (tsize h)" using inv by (simp_all add: u32_inv_def)
  obtain e where e: "unat (tsize h) = 2 ^ e" "e \<le> 30" using inv by (auto simp: u32_inv_def tbl_ok_def keys_ok_def)
  have sz30: "unat (tsize h) \<le> 1073741824" using power_increasing [OF e(2), of "2 :: nat"] unfolding e(1) by simp
  then have u3: "unat (3 * tsize h) = 3 * unat (tsize h)" by (simp add: unat_word_ariths)
  have full: "cnt h > 3 * tsize h div 4 \<longleftrightarrow> unat (cnt h) > 3 * unat (tsize h) div 4" by (simp add: word_less_nat_alt unat_div u3)
  obtain h1 where h1: "(if cnt h > 3 * tsize h div 4 then resize H h else Some h) = Some h1" "u32_inv H L h1" "u32_map h1 = u32_map h" "cnt h1 = cnt h"
    "4 * unat (cnt h1) \<le> 3 * unat (tsize h1)"
  proof (cases "cnt h > 3 * tsize h div 4")
    case False
    then have "4 * unat (cnt h) \<le> 3 * unat (tsize h)" unfolding full by linarith
    then show ?thesis using that [of h] False inv by simp
  next
    case True
    have "unat (tsize h) \<le> 2 ^ 29"
    proof (rule ccontr)
      assume "\<not> unat (tsize h) \<le> 2 ^ 29"
      then have "2 ^ 29 < (2 :: nat) ^ e" unfolding e(1) by simp
      then have "29 < e" by (rule power_less_imp_less_exp [rotated]) simp
      then have "e = 30" using e(2) by simp
      then show False using True u32_cap_less [OF lim] unfolding full e(1) by simp
    qed
    from resize_spec [OF inv this] obtain h2 where h2: "resize H h = Some h2" "u32_inv H L h2" "u32_map h2 = u32_map h" "cnt h2 = cnt h"
      "unat (tsize h2) = 2 * unat (tsize h)" by blast
    have "4 * unat (cnt h) \<le> 3 * unat (tsize h) + 4" using inv by (simp add: u32_inv_def)
    then have "4 * unat (cnt h2) \<le> 3 * unat (tsize h2)" unfolding h2 using i(2) by linarith
    then show ?thesis using that [of h2] True h2 by simp
  qed
  have L1: "u_vlen h1 = L" using h1(2) by (simp add: u32_inv_def)
  have ins: "u32hash_insert H h key vp L = do { (h, n) \<leftarrow> lookup H h1 key;
      if u_vptr h \<noteq> None then Some (h, None) else do { h \<leftarrow> new_entry h n key vp L; Some (h, u_vptr h) } }"
    using key i(1) unfolding u32hash_insert_def h1(1) by simp
  have "tbl_ok H h1" using h1(2) by (simp add: u32_inv_def)
  then show ?thesis using inv_room [OF h1(2)]
  proof (cases rule: lookup_spec [where key = key])
    case (1 n)
    let ?h = "h1\<lparr>u_kptr := None, u_vptr := None\<rparr>"
    have "u32_inv H L ?h" using h1(2) by simp
    then obtain h2 where h2: "new_entry ?h n key vp L = Some h2" "u32_inv H L h2" "u32_map h2 = (u32_map ?h)(key \<mapsto> u32_fill vp L)" "u_vptr h2 \<noteq> None"
      using new_entry_spec [of H L ?h n key vp] 1 key h1(4,5) lim bs by auto
    have "u32_map h key = None" using 1(2) unfolding h1(3) [symmetric] by (simp add: u32_map_def)
    then show ?thesis using that(1) [of h2] h2 h1(3) 1(5) by (simp add: ins)
  next
    case (2 n)
    let ?h = "h1\<lparr>u_kptr := Some n, u_vptr := Some (VPTR h1 n)\<rparr>"
    have "u32_map h key \<noteq> None" using 2(3) unfolding h1(3) [symmetric] by (simp add: u32_map_def)
    then show ?thesis using that(2) [of ?h n] 2 h1(2,3) by (simp add: ins VPTR_def)
  qed
qed

lemma store_spec_u32:
  assumes inv: "u32_inv H L h" and key: "key \<noteq> 0" and lim: "unat (cnt h) < u32_cap L" and bs: "case vp of Some v \<Rightarrow> length v = L | None \<Rightarrow> True"
  shows "\<exists>h'. u32hash_store H h key vp L = Some (h', u_vptr h') \<and> u32_inv H L h' \<and> u32_map h' = (u32_map h)(key \<mapsto> u32_fill vp L)"
  using assms
proof (cases rule: insert_spec_u32)
  case (1 h1)
  then show ?thesis by (auto simp: u32hash_store_def)
next
  case (2 h1 n)
  have "length (u32_fill vp L) = L" using bs by (simp add: u32_fill_def split: option.splits)
  from write_val_spec [OF 2(2,5,6) key this] obtain h2 where "write_val h1 (VPTR h1 n) (u32_fill vp L) = Some h2" "u32_inv H L h2"
    "u32_map h2 = (u32_map h1)(key \<mapsto> u32_fill vp L)" by blast
  then show ?thesis using 2(1,3,7) by (simp add: u32hash_store_def)
qed

section \<open>Walking\<close>

definition u32_left :: "u32hash \<Rightarrow> (u32 \<times> string) list" where
  "u32_left h = (case u_kptr h of None \<Rightarrow> [] | Some n \<Rightarrow> map (apsnd (val_of h)) (kvs_of (drop n (table h))))"

definition u32_walking :: "u32hash \<Rightarrow> bool" where
  "u32_walking h \<longleftrightarrow>
     (case u_kptr h of
        None \<Rightarrow> True
      | Some n \<Rightarrow> n < length (table h) \<and> kv_key (table h ! n) \<noteq> 0 \<and> u_vptr h = Some (VPTR h n))"

lemma kvs_of_dropWhile: "kvs_of (dropWhile (\<lambda>e. kv_key e = 0) es) = kvs_of es"
  by (induction es) simp_all

lemma next_spec_u32:
  assumes inv: "u32_inv H L h" and n: "u_kptr h = Some n" "n < length (table h)"
  shows "\<exists>h'. u32hash_next h = Some h' \<and> u32_inv H L h' \<and> u32_map h' = u32_map h \<and> u32_walking h' \<and>
    u32_left h' = map (apsnd (val_of h)) (kvs_of (drop (Suc n) (table h)))"
proof -
  let ?z = "\<lambda>e. kv_key e = 0" and ?es = "drop (Suc n) (table h)"
  define m where "m = Suc n + length (takeWhile ?z ?es)"
  have sz: "length (table h) = unat (tsize h)" using inv by (simp add: u32_inv_def tbl_ok_def)
  have nx: "u32hash_next h = (if m < unat (tsize h) then Some (h\<lparr>u_kptr := Some m, u_vptr := Some (VPTR h m)\<rparr>) else Some (h\<lparr>u_kptr := None, u_vptr := None\<rparr>))"
    using n sz by (simp add: u32hash_next_def m_def Let_def)
  have d: "drop m (table h) = dropWhile ?z ?es"
    unfolding m_def dropWhile_eq_drop drop_drop by (simp only: add.commute)
  then have k: "kvs_of (drop m (table h)) = kvs_of ?es" by (simp only: kvs_of_dropWhile)
  show ?thesis
  proof (cases "m < unat (tsize h)")
    case True
    then have "drop m (table h) \<noteq> []" using sz by simp
    then have "kv_key (hd (drop m (table h))) \<noteq> 0" unfolding d by (rule hd_dropWhile)
    then have z: "kv_key (table h ! m) \<noteq> 0" using True sz by (simp add: hd_drop_conv_nth)
    let ?h = "h\<lparr>u_kptr := Some m, u_vptr := Some (VPTR h m)\<rparr>"
    have "u32hash_next h = Some ?h" using True by (simp add: nx)
    moreover have "val_of ?h = val_of h" by (simp add: val_of_hdr)
    ultimately show ?thesis using inv True sz z k by (intro exI [of _ ?h]) (simp add: u32_walking_def u32_left_def VPTR_def)
  next
    case False
    let ?h = "h\<lparr>u_kptr := None, u_vptr := None\<rparr>"
    have "kvs_of ?es = []" using k False sz by simp
    moreover have "u32hash_next h = Some ?h" using False by (simp add: nx)
    ultimately show ?thesis using inv by (intro exI [of _ ?h]) (simp add: u32_walking_def u32_left_def)
  qed
qed

lemma first_spec_u32:
  assumes inv: "u32_inv H L h"
  shows "\<exists>h'. u32hash_first h = Some h' \<and> u32_inv H L h' \<and> u32_map h' = u32_map h \<and> u32_walking h' \<and>
    u32_left h' = map (apsnd (val_of h)) (kvs_of (table h))"
proof -
  let ?h = "h\<lparr>u_kptr := Some 0\<rparr>"
  have ne: "0 < length (table h)" using inv by (auto simp: u32_inv_def tbl_ok_def)
  have v: "val_of ?h = val_of h" by (simp add: val_of_hdr)
  show ?thesis
  proof (cases "kv_key (table h ! 0) = 0")
    case True
    have "kvs_of (table h) = kvs_of (drop (Suc 0) (table h))" using True ne by (cases "table h") simp_all
    moreover have "u32_inv H L ?h" using inv by simp
    ultimately show ?thesis
      using next_spec_u32 [of H L ?h 0] True ne v by (simp add: u32hash_first_def)
  next
    case False
    let ?h' = "h\<lparr>u_kptr := Some 0, u_vptr := Some (VPTR ?h 0)\<rparr>"
    have "val_of ?h' = val_of h" by (simp add: val_of_hdr)
    then show ?thesis
      using inv False ne by (intro exI [of _ ?h']) (simp add: u32hash_first_def u32_walking_def u32_left_def VPTR_def)
  qed
qed

lemma dom_u32_map: "u32_inv H L h \<Longrightarrow> finite (dom (u32_map h)) \<and> card (dom (u32_map h)) = unat (cnt h)"
proof -
  assume inv: "u32_inv H L h"
  have "dom (u32_map h) = fst ` set (kvs_of (table h))"
    by (auto simp: u32_map_def dom_map_of_conv_image_fst [symmetric])
  then show ?thesis
    using inv distinct_card [OF inv_distinct [OF inv]] by (simp add: u32_inv_def)
qed

lemma map_of_apsnd: "map_of (map (apsnd f) es) = map_option f \<circ> map_of es"
  by (induction es) (auto simp: fun_eq_iff)

lemma entry_u32:
  assumes inv: "u32_inv H L h" and k: "u32_map h k = Some v"
  shows "k \<noteq> 0 \<and> length v = u_vlen h"
proof -
  obtain w where w: "map_of (kvs_of (table h)) k = Some w" "v = val_of h w" using k by (auto simp: u32_map_def)
  then have m: "(k, w) \<in> set (kvs_of (table h))" by (simp add: map_of_SomeD)
  have L: "u_vlen h = L" "4 \<le> L" using inv by (simp_all add: u32_inv_def)
  have "length v = L"
  proof (cases "4 < L")
    case True
    then have v: "vals_ok L (unat (cnt h)) (set (kvs_of (table h))) (vals h)" using inv unfolding u32_inv_def by blast
    obtain j where j: "j < unat (cnt h)" "unat w = j * L" using v m unfolding vals_ok_def by force
    then have "j * L + L \<le> length (buf (vals h))" using v mult_le_mono1 [of "Suc j" "unat (cnt h)" L] by (simp add: vals_ok_def)
    then show ?thesis using True L w(2) j(2) by (simp add: val_of_def)
  qed (use L w(2) in \<open>simp add: val_of_def bytes_of_u32_def\<close>)
  then show ?thesis using L m kvs_of_no_zero by auto
qed

lemma current_u32:
  assumes "u32_walking h" "u_kptr h = Some n"
  shows "u32_left h = (kv_key (table h ! n), val_of h (kv_val (table h ! n))) # map (apsnd (val_of h)) (kvs_of (drop (Suc n) (table h)))"
  using assms by (simp add: u32_left_def u32_walking_def flip: Cons_nth_drop_Suc)

interpretation uh: hash_table "u32hash_ops H" "u32_inv H L" u32_map u32_walking u32_left "\<lambda>h k v. k \<noteq> 0 \<and> length v = u_vlen h" "u32_cap L" for H L
proof (unfold_locales, goal_cases)
  case (1 h)
  then show ?case using dom_u32_map by blast
next
  case (2 h k)
  then show ?case using u32_fetch_spec [of H L h k] by (simp add: u32hash_ops_def)
next
  case (3 h k v)
  have L: "u_vlen h = L" using 3 by (simp add: u32_inv_def)
  then have "\<exists>h'. u32hash_store H h k (Some v) L = Some (h', u_vptr h') \<and> u32_inv H L h' \<and> u32_map h' = (u32_map h)(k \<mapsto> v)"
    using store_spec_u32 [of H L h k "Some v"] 3 dom_u32_map [of H L h] by (simp add: u32_fill_def)
  then obtain h' where "u32hash_store H h k (Some v) L = Some (h', u_vptr h')" "u32_inv H L h'" "u32_map h' = (u32_map h)(k \<mapsto> v)" by blast
  moreover from this(2) have "u_vlen h' = u_vlen h" using L by (simp add: u32_inv_def)
  ultimately show ?case using 3 L by (intro exI [of _ h']) (simp add: u32hash_ops_def)
next
  case (4 h)
  have "map_of (map (apsnd (val_of h)) (kvs_of (table h))) = u32_map h" by (simp add: map_of_apsnd u32_map_def fun_eq_iff)
  moreover have "map fst (map (apsnd (val_of h)) (kvs_of (table h))) = map fst (kvs_of (table h))" by simp
  ultimately show ?case using first_spec_u32 [OF 4] inv_distinct [OF 4] by (auto simp: u32hash_ops_def)
next
  case (5 h)
  then obtain n where n: "u_kptr h = Some n" "n < length (table h)" by (auto simp: u32_left_def u32_walking_def split: option.splits)
  then show ?case using next_spec_u32 [OF 5(1) n] current_u32 [OF 5(2) n(1)] by (auto simp: u32hash_ops_def)
next
  case (6 h)
  then show ?case using current_u32 [of h] by (cases "u_kptr h") (auto simp: u32hash_ops_def u32_left_def)
next
  case (7 h e es)
  then obtain n where n: "u_kptr h = Some n" by (auto simp: u32_left_def split: option.splits)
  then show ?case using current_u32 [OF 7(2) n] 7 read_VPTR [of n h] by (auto simp: u32hash_ops_def u32_walking_def)
next
  case (8 h c)
  then show ?case using dom_u32_map [of H L h] by (auto simp: u32hash_ops_def u32hash_count_def)
next
  case (9 h k v)
  then show ?case by (rule entry_u32)
qed

interpretation uh3: key_diff3 "u32hash_ops H" "u32_inv H L" u32_map u32_walking u32_left "\<lambda>h k v. k \<noteq> 0 \<and> length v = u_vlen h" "u32_cap L"
  "u32hash_ops H" "u32_inv H L" u32_map u32_walking u32_left "\<lambda>h k v. k \<noteq> 0 \<and> length v = u_vlen h" "u32_cap L"
  "u32hash_ops H" "u32_inv H L" u32_map u32_walking u32_left "\<lambda>h k v. k \<noteq> 0 \<and> length v = u_vlen h" "u32_cap L" for H L
  by unfold_locales

section \<open>Properties of the table\<close>

datatype uop = UStore u32 "string option" | UInsert u32 "string option"

fun uop_ok :: "nat \<Rightarrow> uop \<Rightarrow> bool" where
  "uop_ok L (UStore k v) \<longleftrightarrow> k \<noteq> 0 \<and> (case v of Some s \<Rightarrow> length s = L | None \<Rightarrow> True)"
| "uop_ok L (UInsert k v) \<longleftrightarrow> k \<noteq> 0 \<and> (case v of Some s \<Rightarrow> length s = L | None \<Rightarrow> True)"

fun uop_run :: "(u32 \<Rightarrow> u32) \<Rightarrow> nat \<Rightarrow> uop list \<Rightarrow> u32hash \<Rightarrow> u32hash option" where
  "uop_run H L [] h = Some h"
| "uop_run H L (UStore k v # ps) h = Option.bind (u32hash_store H h k v L) (\<lambda>(h, r). uop_run H L ps h)"
| "uop_run H L (UInsert k v # ps) h = Option.bind (u32hash_insert H h k v L) (\<lambda>(h, r). uop_run H L ps h)"

fun uop_map :: "nat \<Rightarrow> uop list \<Rightarrow> (u32 \<Rightarrow> string option) \<Rightarrow> u32 \<Rightarrow> string option" where
  "uop_map L [] m = m"
| "uop_map L (UStore k v # ps) m = uop_map L ps (m(k \<mapsto> u32_fill v L))"
| "uop_map L (UInsert k v # ps) m = uop_map L ps (if m k = None then m(k \<mapsto> u32_fill v L) else m)"

lemma cnt_step:
  assumes "u32_inv H L h" "u32_inv H L h'" "u32_map h' = (u32_map h)(k \<mapsto> v) \<or> u32_map h' = u32_map h"
  shows "unat (cnt h') \<le> Suc (unat (cnt h))"
  using assms(3) dom_u32_map [OF assms(1)] dom_u32_map [OF assms(2)] by (auto simp: card_insert_if split: if_splits)

lemma uop_run_spec:
  "u32_inv H L h \<Longrightarrow> \<forall>p\<in>set ps. uop_ok L p \<Longrightarrow> unat (cnt h) + length ps \<le> u32_cap L \<Longrightarrow>
   \<exists>h'. uop_run H L ps h = Some h' \<and> u32_inv H L h' \<and> u32_map h' = uop_map L ps (u32_map h) \<and> unat (cnt h') \<le> unat (cnt h) + length ps"
proof (induction ps arbitrary: h)
  case (Cons p ps)
  have c: "unat (cnt h) < u32_cap L" using Cons.prems(3) by simp
  have ok: "\<forall>p\<in>set ps. uop_ok L p" using Cons.prems(2) by simp
  have step: "\<exists>h'. uop_run H L ps h1 = Some h' \<and> u32_inv H L h' \<and> u32_map h' = uop_map L ps (u32_map h1) \<and>
      unat (cnt h') \<le> unat (cnt h) + length (p # ps)"
    if "u32_inv H L h1" "u32_map h1 = (u32_map h)(k \<mapsto> v) \<or> u32_map h1 = u32_map h" for h1 k v
    using Cons.IH [OF that(1) ok] cnt_step [OF Cons.prems(1) that] Cons.prems(3) by fastforce
  show ?case
  proof (cases p)
    case (UStore k v)
    have "\<exists>h1. u32hash_store H h k v L = Some (h1, u_vptr h1) \<and> u32_inv H L h1 \<and> u32_map h1 = (u32_map h)(k \<mapsto> u32_fill v L)"
      using Cons.prems(2) UStore by (intro store_spec_u32 [OF Cons.prems(1) _ c]) simp_all
    then obtain h1 where h1: "u32hash_store H h k v L = Some (h1, u_vptr h1)" "u32_inv H L h1" "u32_map h1 = (u32_map h)(k \<mapsto> u32_fill v L)" by blast
    have e: "uop_run H L (UStore k v # ps) h = uop_run H L ps h1" using h1(1) by simp
    show ?thesis using step [OF h1(2) disjI1, OF h1(3)] unfolding e UStore uop_map.simps h1(3) .
  next
    case (UInsert k v)
    have k: "k \<noteq> 0" "case v of Some s \<Rightarrow> length s = L | None \<Rightarrow> True" using Cons.prems(2) UInsert by simp_all
    from Cons.prems(1) k(1) c k(2) show ?thesis
    proof (cases rule: insert_spec_u32)
      case (1 h1)
      have e: "uop_run H L (UInsert k v # ps) h = uop_run H L ps h1" using 1(1) by simp
      show ?thesis using step [OF 1(2) disjI1, OF 1(4)] unfolding e UInsert uop_map.simps 1(4) if_P [OF 1(3)] .
    next
      case (2 h1 n)
      have e: "uop_run H L (UInsert k v # ps) h = uop_run H L ps h1" using 2(1) by simp
      show ?thesis using step [OF 2(2) disjI2, OF 2(3)] unfolding e UInsert uop_map.simps 2(3) if_not_P [OF 2(4)] .
    qed
  qed
qed simp

lemma new_spec_u32:
  assumes "4 \<le> L"
  shows "\<exists>h. u32hash_new 4 L = Some h \<and> u32_inv H L h \<and> u32_map h = Map.empty \<and> cnt h = 0"
proof -
  let ?h = "\<lparr>u_vlen = L, table = replicate 32 keyval_zero, tsize = 32, cnt = 0, vals = data_new, u_kptr = None, u_vptr = None\<rparr>"
  have "keys_ok H (map kv_key (replicate 32 keyval_zero))"
    unfolding keys_ok_def by (intro conjI exI [of _ 5]) (simp_all add: keyval_zero_def)
  then have "u32_inv H L ?h" using assms by (simp add: u32_inv_def tbl_ok_def vals_ok_def data_new_def)
  moreover have "u32_map ?h = Map.empty" by (simp add: u32_map_def fun_eq_iff)
  ultimately show ?thesis using assms by (intro exI [of _ ?h]) (simp add: u32hash_new_def)
qed

text \<open>
  C33. Any sequence of stores and inserts on a new table, with non-zero keys and values of the length
  of the table, leads to the map that the same operations give, whatever the hash function does
  and however often the table grows: lookups end, \<open>fetch\<close> leaves a pointer to the value of the key
  (or none), and the count is the number of keys.
\<close>

theorem u32hash_refines_map:
  assumes "4 \<le> L" "\<forall>p\<in>set ps. uop_ok L p" "length ps \<le> u32_cap L"
  shows "\<exists>h0 h. u32hash_new 4 L = Some h0 \<and> uop_run H L ps h0 = Some h \<and>
    u32hash_count h = card (dom (uop_map L ps Map.empty)) \<and>
    (\<forall>k. \<exists>h'. u32hash_fetch H h k = Some h' \<and> map_option (read_val h') (u_vptr h') = uop_map L ps Map.empty k)"
proof -
  obtain h0 where h0: "u32hash_new 4 L = Some h0" "u32_inv H L h0" "u32_map h0 = Map.empty" "cnt h0 = 0"
    using new_spec_u32 [OF assms(1)] by blast
  obtain h where h: "uop_run H L ps h0 = Some h" "u32_inv H L h" "u32_map h = uop_map L ps Map.empty"
    using uop_run_spec [OF h0(2) assms(2)] assms(3) h0(3,4) by auto
  then show ?thesis
    using h0(1) u32_fetch_spec [OF h(2)] dom_u32_map [OF h(2)] by (auto simp: u32hash_count_def)
qed

text \<open>
  C34. The key difference of two such tables into a third one: the third table gets the entries of the
  first whose keys are not in the second, and the result says whether there are any.  All three
  tables may be the same kind of table although a lookup moves the position of a walk, because
  the walk is over the first one only.
\<close>

theorem u32hash_keyDiff3:
  assumes "4 \<le> L" "\<forall>p\<in>set (ps @ qs). uop_ok L p" "length ps \<le> u32_cap L" "length qs \<le> u32_cap L"
  shows "\<exists>h0 A B A' B' C'. u32hash_new 4 L = Some h0 \<and> uop_run H L ps h0 = Some A \<and> uop_run H L qs h0 = Some B \<and>
    hash_keyDiff3 (u32hash_ops H) (u32hash_ops H) (u32hash_ops H) A B h0 =
      Some (A', B', C', if dom (uop_map L ps Map.empty) \<subseteq> dom (uop_map L qs Map.empty) then 0 else 1) \<and>
    (\<forall>k. \<exists>h'. u32hash_fetch H C' k = Some h' \<and>
       map_option (read_val h') (u_vptr h') = (uop_map L ps Map.empty |` (- dom (uop_map L qs Map.empty))) k)"
proof -
  obtain h0 where h0: "u32hash_new 4 L = Some h0" "u32_inv H L h0" "u32_map h0 = Map.empty" "cnt h0 = 0"
    using new_spec_u32 [OF assms(1)] by blast
  obtain A where A: "uop_run H L ps h0 = Some A" "u32_inv H L A" "u32_map A = uop_map L ps Map.empty" "unat (cnt A) \<le> u32_cap L"
    using uop_run_spec [OF h0(2), of ps] assms(2,3) h0(3,4) by auto
  obtain B where B: "uop_run H L qs h0 = Some B" "u32_inv H L B" "u32_map B = uop_map L qs Map.empty"
    using uop_run_spec [OF h0(2), of qs] assms(2,4) h0(3,4) by auto
  have "card (dom (u32_map A)) \<le> u32_cap L" using A(2,4) dom_u32_map by fastforce
  then obtain A' B' C' where "hash_keyDiff3 (u32hash_ops H) (u32hash_ops H) (u32hash_ops H) A B h0 =
      Some (A', B', C', if dom (u32_map A) \<subseteq> dom (u32_map B) then 0 else 1)" "u32_inv H L C'" "u32_map C' = u32_map A |` (- dom (u32_map B))"
    using uh3.keyDiff3_adds [OF A(2) B(2) h0(2)] entry_u32 [OF A(2)] h0(2,3) A(2) by (auto simp: u32_inv_def)
  then show ?thesis using h0(1) A(1,3) B(1,3) u32_fetch_spec [of H L C'] by (intro exI conjI) auto
qed

definition ex_uops :: "uop list" where
  "ex_uops = [UStore 7 (Some ''abcdefgh''), UStore 9 None, UInsert 7 (Some ''ijklmnop'')]"

theorem u32hash_refines_map_witness:
  "\<exists>h0 h h'. u32hash_new 4 8 = Some h0 \<and> uop_run (\<lambda>k. 31) 8 ex_uops h0 = Some h \<and> u32hash_fetch (\<lambda>k. 31) h 7 = Some h' \<and>
     map_option (read_val h') (u_vptr h') = Some ''abcdefgh''"
proof -
  have "\<forall>p\<in>set ex_uops. uop_ok 8 p" "length ex_uops \<le> u32_cap 8" by (simp_all add: ex_uops_def u32_cap_def)
  moreover have "uop_map 8 ex_uops Map.empty 7 = Some ''abcdefgh''" by (simp add: ex_uops_def u32_fill_def)
  ultimately show ?thesis using u32hash_refines_map [of 8 ex_uops "\<lambda>k. 31"] by fastforce
qed

theorem u32hash_keyDiff3_witness:
  "\<exists>h0 A B A' B' C' h'. u32hash_new 4 8 = Some h0 \<and> uop_run (\<lambda>k. 31) 8 ex_uops h0 = Some A \<and> uop_run (\<lambda>k. 31) 8 [UStore 9 None] h0 = Some B \<and>
     hash_keyDiff3 (u32hash_ops (\<lambda>k. 31)) (u32hash_ops (\<lambda>k. 31)) (u32hash_ops (\<lambda>k. 31)) A B h0 = Some (A', B', C', 1) \<and>
     u32hash_fetch (\<lambda>k. 31) C' 7 = Some h' \<and> map_option (read_val h') (u_vptr h') = Some ''abcdefgh''"
proof -
  have m: "uop_map 8 ex_uops Map.empty = [9 \<mapsto> replicate 8 NUL, 7 \<mapsto> ''abcdefgh'']" "uop_map 8 [UStore 9 None] Map.empty = [9 \<mapsto> replicate 8 NUL]"
    by (simp_all add: ex_uops_def u32_fill_def fun_eq_iff)
  have "(7 :: u32) \<noteq> 9" by simp
  then have d: "\<not> dom (uop_map 8 ex_uops Map.empty) \<subseteq> dom (uop_map 8 [UStore 9 None] Map.empty)"
    "(uop_map 8 ex_uops Map.empty |` (- dom (uop_map 8 [UStore 9 None] Map.empty))) 7 = Some ''abcdefgh''"
    unfolding m by simp_all
  have "\<forall>p\<in>set (ex_uops @ [UStore 9 None]). uop_ok 8 p" "length ex_uops \<le> u32_cap 8" "length [UStore 9 None] \<le> u32_cap 8"
    by (simp_all add: ex_uops_def u32_cap_def)
  from u32hash_keyDiff3 [OF _ this, of "\<lambda>k. 31"] show ?thesis unfolding if_not_P [OF d(1)] using d(2) by fastforce
qed

end
