(* ===== verification/BK_Web.thy ===== *)
theory BK_Web
  imports BK_Prelude
begin

text \<open>
  The encoding of binary data as text in \<open>libc/utils/webencode.c\<close>.  Data is a list of bytes.
  Decoding reports a malformed escape as \<open>Cannot\<close>; \<open>Overrun\<close> is a read beyond the end of the
  text or a write beyond the buffer that was allocated for the result.
\<close>

section \<open>Model\<close>

definition in_range :: "char \<Rightarrow> char \<Rightarrow> char \<Rightarrow> bool" where
  "in_range a b c \<longleftrightarrow> (of_char a :: nat) \<le> of_char c \<and> (of_char c :: nat) \<le> of_char b"

definition is_encoded :: "char \<Rightarrow> bool" where
  "is_encoded c \<longleftrightarrow>
     \<not> (in_range CHR ''A'' CHR ''Z'' c \<or> in_range CHR ''a'' CHR ''z'' c \<or> in_range CHR ''0'' CHR ''9'' c \<or> c \<in> set ''-_.~/@'')"

text \<open>The conversion \<open>%02x\<close> of a byte.\<close>

definition hex_digit :: "nat \<Rightarrow> char" where
  "hex_digit n = ''0123456789abcdef'' ! n"

definition hex2 :: "char \<Rightarrow> string" where
  "hex2 c = [hex_digit (of_char c div 16), hex_digit (of_char c mod 16)]"

definition encode_char :: "char \<Rightarrow> string" where
  "encode_char c = (if c = CHR '' '' then ''+'' else if is_encoded c then CHR ''%'' # hex2 c else [c])"

fun webencode :: "string \<Rightarrow> string" where
  "webencode [] = ''%FF''"
| "webencode (c # cs) = (if cs = [] \<and> c = NUL then [] else encode_char c @ webencode cs)"

text \<open>
  \<open>sscanf(s, "%2x", &c) == 1\<close>: white space is skipped; then at most two characters are read, an
  optional sign and hexadecimal digits; \<open>0x\<close> alone is a prefix without a number.
\<close>

definition hex_val :: "char \<Rightarrow> nat option" where
  "hex_val c =
     (if in_range CHR ''0'' CHR ''9'' c then Some (of_char c - 48)
      else if in_range CHR ''a'' CHR ''f'' c then Some (of_char c - 87)
      else if in_range CHR ''A'' CHR ''F'' c then Some (of_char c - 55) else None)"

definition scan_digits :: "string \<Rightarrow> int option" where
  "scan_digits s =
     (let ds = takeWhile (\<lambda>c. hex_val c \<noteq> None) s
      in if ds = [] then None else Some (foldl (\<lambda>n c. 16 * n + int (the (hex_val c))) 0 ds))"

definition scan_2x :: "string \<Rightarrow> int option" where
  "scan_2x s =
     (let t = dropWhile isspace s
      in if take 1 t = ''-'' then map_option uminus (scan_digits (take 1 (drop 1 t)))
         else if take 1 t = ''+'' then scan_digits (take 1 (drop 1 t))
         else if take 2 t \<in> {''0x'', ''0X''} then None
         else scan_digits (take 2 t))"

datatype decoded = Decoded string string | Cannot | Overrun

fun decode_loop :: "nat \<Rightarrow> string \<Rightarrow> string \<Rightarrow> bool \<Rightarrow> decoded" where
  "decode_loop room [] t bin = (if bin then Decoded t [] else if length t < room then Decoded (t @ [NUL]) [] else Overrun)"
| "decode_loop room (c # p) t bin =
     (if c = CHR ''+'' then (if length t < room then decode_loop room p (t @ '' '') bin else Overrun)
      else if c = CHR ''%'' then
        (if take 2 p = ''FF'' then decode_loop room (drop 2 p) t True
         else (case scan_2x p of
                 None \<Rightarrow> Cannot
               | Some v \<Rightarrow>
                   if length t < room \<and> 2 \<le> length p then decode_loop room (drop 2 p) (t @ [char_of v]) bin else Overrun))
      else if c = CHR ''&'' \<or> c = CHR ''='' then
        (if bin then Decoded t (c # p) else if length t < room then Decoded (t @ [NUL]) (c # p) else Overrun)
      else if length t < room then decode_loop room p (t @ [c]) bin else Overrun)"

definition webdecode :: "string \<Rightarrow> decoded" where
  "webdecode data = decode_loop (strcspn data ''=&'' + 1) data [] False"

section \<open>Escapes\<close>

lemma hex_digit_val:
  assumes "n < 16"
  shows "hex_val (hex_digit n) = Some n" "\<not> isspace (hex_digit n)" "hex_digit n \<notin> set ''xXF+-''"
proof -
  have "n \<in> set [0 ..< 16]" using assms by simp
  then have "hex_val (hex_digit n) = Some n \<and> \<not> isspace (hex_digit n) \<and> hex_digit n \<notin> set ''xXF+-''"
    by (simp add: upt_rec) (elim disjE; simp add: hex_digit_def hex_val_def in_range_def isspace_def)
  then show "hex_val (hex_digit n) = Some n" "\<not> isspace (hex_digit n)" "hex_digit n \<notin> set ''xXF+-''" by blast+
qed

lemma of_char_bound: "(of_char c :: nat) < 256"
  using of_char_mod_256 [of c, where ?'a = nat] by (metis mod_less_divisor zero_less_numeral)

lemma nibble: "of_char (c :: char) div 16 < (16 :: nat)" "of_char c mod 16 < (16 :: nat)"
  using less_mult_imp_div_less [of "of_char c" 16 "16 :: nat"] of_char_bound [of c] by (simp_all only: mod_less_divisor zero_less_numeral)

lemma scan_hex2: "scan_2x (hex2 c @ r) = Some (int (of_char c))"
proof -
  let ?a = "hex_digit (of_char c div 16)" and ?b = "hex_digit (of_char c mod 16)"
  note a = hex_digit_val [OF nibble(1) [of c]] and b = hex_digit_val [OF nibble(2) [of c]]
  have n: "16 * int (n div 16) + int (n mod 16) = int n" for n by (simp add: zdiv_int zmod_int)
  have "scan_2x (hex2 c @ r) = Some (16 * int (of_char c div 16) + int (of_char c mod 16))"
    using a b by (simp add: hex2_def scan_2x_def scan_digits_def del: of_nat_of_char)
  then show ?thesis by (simp only: n)
qed

lemma hex2_not_FF: "hex2 c \<noteq> ''FF''"
  using hex_digit_val(3) [OF nibble(1) [of c]] by (auto simp: hex2_def)

lemma encoded_chars: "c \<in> set ''+%&='' \<Longrightarrow> is_encoded c"
  by (auto simp: is_encoded_def in_range_def)

lemma hex_digit_set: "n < 16 \<Longrightarrow> hex_digit n \<notin> set ''=&''"
  using hex_digit_val(1) [of n] by (auto simp: hex_val_def in_range_def)

lemma encode_char_no_delim: "d \<in> set (encode_char c) \<Longrightarrow> d \<notin> set ''=&''"
  using hex_digit_set [OF nibble(1) [of c]] hex_digit_set [OF nibble(2) [of c]] encoded_chars [of c]
  by (auto simp: encode_char_def hex2_def split: if_splits)

lemma webencode_no_delim: "c \<in> set (webencode s) \<Longrightarrow> c \<notin> set ''=&''"
proof (induction s rule: webencode.induct)
  case (2 d s)
  then show ?case using encode_char_no_delim [of c d] by (auto split: if_splits)
qed auto

lemma length_webencode: "length s \<le> length (webencode s) + 1"
  by (induction s) (auto simp: encode_char_def)

text \<open>Where decoding stops: the end of the text or a delimiter.\<close>

definition delimited :: "string \<Rightarrow> bool" where
  "delimited r \<longleftrightarrow> r = [] \<or> hd r \<in> set ''&=''"

lemma decode_encode_char:
  assumes "length t < room"
  shows "decode_loop room (encode_char c @ q) t bin = decode_loop room q (t @ [c]) bin"
proof -
  consider "c = CHR '' ''" | "c \<noteq> CHR '' ''" "is_encoded c" | "\<not> is_encoded c" by blast
  then show ?thesis
  proof cases
    case 1
    then show ?thesis using assms by (simp add: encode_char_def)
  next
    case 2
    have "length (hex2 c) = 2" by (simp add: hex2_def)
    moreover have "char_of (int (of_char c)) = c" by simp
    ultimately show ?thesis using 2 assms hex2_not_FF [of c] scan_hex2 [of c q] by (simp add: encode_char_def)
  next
    case 3
    then show ?thesis using assms encoded_chars [of c] by (auto simp: encode_char_def is_encoded_def)
  qed
qed

lemma decode_webencode:
  "delimited r \<Longrightarrow> length t + length s \<le> room \<Longrightarrow> decode_loop room (webencode s @ r) t False = Decoded (t @ s) r"
proof (induction s arbitrary: t)
  case Nil
  then show ?case by (cases r) (auto simp: delimited_def)
next
  case (Cons c cs)
  have IH: "decode_loop room (webencode cs @ r) (t @ [c]) False = Decoded (t @ c # cs) r"
    using Cons.IH [of "t @ [c]"] Cons.prems by simp
  show ?case
  proof (cases "cs = [] \<and> c = NUL")
    case True
    then show ?thesis using Cons.prems by (cases r) (auto simp: delimited_def)
  next
    case False
    have "decode_loop room (encode_char c @ webencode cs @ r) t False = decode_loop room (webencode cs @ r) (t @ [c]) False"
      by (rule decode_encode_char) (use Cons.prems in simp)
    then show ?thesis unfolding webencode.simps if_not_P [OF False] append_assoc IH .
  qed
qed

text \<open>Encoded bytes in front of a text that need not be an encoding, and plain bytes behind it.\<close>

abbreviation encode_chars :: "string \<Rightarrow> string" where
  "encode_chars s \<equiv> concat (map encode_char s)"

lemma decode_encode_chars:
  "length t + length s \<le> room \<Longrightarrow> decode_loop room (encode_chars s @ q) t bin = decode_loop room q (t @ s) bin"
proof (induction s arbitrary: t)
  case (Cons c s)
  then show ?case using decode_encode_char [of t room c "encode_chars s @ q" bin] by simp
qed simp

lemma length_encode_chars: "length s \<le> length (encode_chars s)"
proof (induction s)
  case (Cons c s)
  then show ?case by (simp add: encode_char_def)
qed simp

lemma strcspn_encode_chars: "strcspn (encode_chars s @ q) ''=&'' = length (encode_chars s) + strcspn q ''=&''"
proof -
  have "\<forall>d\<in>set (encode_chars s). d \<notin> set ''=&''" using encode_char_no_delim by auto
  then show ?thesis by (simp add: strcspn_def takeWhile_append)
qed

lemma decode_plain:
  assumes "\<forall>c\<in>set x. c \<notin> set ''+%&=''" "delimited r" "length t \<le> room"
  shows "decode_loop room (x @ r) t False = (if length t + length x < room then Decoded (t @ x @ [NUL]) r else Overrun)"
  using assms(1,3)
proof (induction x arbitrary: t)
  case Nil
  then show ?case using assms(2) by (cases r) (auto simp: delimited_def)
next
  case (Cons c x)
  then show ?case using Cons.IH [of "t @ [c]"] by auto
qed

section \<open>Properties\<close>

text \<open>
  C35. Decoding gives back every list of bytes that was encoded, with or without a final NUL, up to the
  delimiter or the end of the text, and stays inside the text and the buffer.
\<close>

theorem webdecode_webencode:
  assumes "delimited r"
  shows "webdecode (webencode s @ r) = Decoded s r"
proof -
  have "takeWhile (\<lambda>c. c \<notin> set ''=&'') (webencode s @ r) = webencode s"
  proof (cases r)
    case (Cons d ds)
    then have "d \<in> set ''=&''" using assms by (auto simp: delimited_def)
    then show ?thesis using webencode_no_delim Cons by (auto simp: takeWhile_append)
  qed (use webencode_no_delim in \<open>auto simp: takeWhile_eq_all_conv\<close>)
  then have "strcspn (webencode s @ r) ''=&'' = length (webencode s)" by (simp add: strcspn_def)
  then show ?thesis
    using decode_webencode [OF assms, of "[]" s] length_webencode [of s] by (simp add: webdecode_def)
qed

theorem webdecode_webencode_witness:
  "delimited ''&k=v'' \<and> webdecode (webencode ''a =%'' @ ''&k=v'') = Decoded ''a =%'' ''&k=v'' \<and> webencode ''a =%'' = ''a+%3d%25%FF''"
proof (intro conjI)
  show d: "delimited ''&k=v''" by (simp add: delimited_def)
  show "webdecode (webencode ''a =%'' @ ''&k=v'') = Decoded ''a =%'' ''&k=v''" by (rule webdecode_webencode [OF d])
  show "webencode ''a =%'' = ''a+%3d%25%FF''" by code_simp
qed

text \<open>
  C36. An escape with a single digit takes two characters all the same, after any encoded bytes s.
  Before a delimiter it skips the delimiter, and decoding goes on with the text x after it, up to the
  next delimiter.  The buffer was allocated for the text before the first delimiter and two bytes
  are left, besides those that the escapes of s saved: the value comes out with x behind it when x
  fits, and otherwise decoding writes beyond the buffer.  At the end of the text the escape skips the
  terminating NUL.  An escape whose first character is not a digit, a sign or white space, or that
  is at the end of the text, is refused.
\<close>

theorem webdecode_short_escape:
  assumes "hex_val d = Some v" "e \<in> set ''=&''" "\<forall>c\<in>set x. c \<notin> set ''+%&=''" "delimited r"
    and "y = [] \<or> hex_val (hd y) = None \<and> \<not> isspace (hd y) \<and> hd y \<notin> set ''+-''"
  shows "webdecode (encode_chars s @ CHR ''%'' # d # e # x @ r) =
      (if length s + length x < length (encode_chars s) + 2 then Decoded (s @ char_of v # x @ [NUL]) r else Overrun) \<and>
    webdecode (encode_chars s @ [CHR ''%'', d]) = Overrun \<and> webdecode (encode_chars s @ CHR ''%'' # y) = Cannot"
proof -
  have d: "\<not> isspace d" "d \<notin> set ''+-=&xX''" using assms(1) by (auto simp: hex_val_def in_range_def isspace_def split: if_splits)
  have e: "hex_val e = None" "e \<notin> set ''xX''" using assms(2) by (auto simp: hex_val_def in_range_def)
  have v: "scan_2x (d # e # q) = Some (int v)" "scan_2x [d] = Some (int v)" for q
    using assms(1) d e by (auto simp: scan_2x_def scan_digits_def)
  have y: "scan_2x y = None" "take 2 y \<noteq> ''FF''"
    using assms(5) by (cases y; auto simp: scan_2x_def scan_digits_def hex_val_def in_range_def split: if_splits)+
  let ?n = "length (encode_chars s)"
  have n: "length s \<le> ?n" by (rule length_encode_chars)
  have "webdecode (encode_chars s @ CHR ''%'' # d # e # x @ r) = decode_loop (?n + 3) (x @ r) (s @ [char_of v]) False"
    using v n d(2) assms(2) decode_encode_chars [of "[]" s "?n + 3" "CHR ''%'' # d # e # x @ r" False]
    by (auto simp: webdecode_def strcspn_encode_chars) (auto simp: strcspn_def numeral_3_eq_3 numeral_2_eq_2)
  then have 1: "webdecode (encode_chars s @ CHR ''%'' # d # e # x @ r) =
      (if length s + length x < ?n + 2 then Decoded (s @ char_of v # x @ [NUL]) r else Overrun)"
    using decode_plain [OF assms(3,4), of "s @ [char_of v]" "?n + 3"] n by simp
  have "decode_loop m (encode_chars s @ [CHR ''%'', d]) [] False = Overrun"
    and "decode_loop m (encode_chars s @ CHR ''%'' # y) [] False = Cannot" if "length s \<le> m" for m
    using that v(2) y decode_encode_chars [of "[]" s m] by simp_all
  then have "webdecode (encode_chars s @ [CHR ''%'', d]) = Overrun" "webdecode (encode_chars s @ CHR ''%'' # y) = Cannot"
    using n by (simp_all add: webdecode_def strcspn_encode_chars)
  with 1 show ?thesis by blast
qed

theorem webdecode_short_escape_witness:
  "webdecode ''k%4=a&x'' = Decoded [CHR ''k'', CHR 0x04, CHR ''a'', NUL] ''&x'' \<and> webdecode ''k%4=ab'' = Overrun \<and>
   webdecode ''k%4'' = Overrun \<and> webdecode ''k%=v'' = Cannot"
proof -
  have k: "encode_char CHR ''k'' = ''k''" by code_simp
  have h: "hex_val CHR ''4'' = Some 4" "hex_val CHR ''='' = None" "\<not> isspace CHR ''=''" by code_simp+
  have c: "char_of (4 :: nat) = CHR 0x04" by code_simp
  have r: "delimited ''&x''" "delimited []" by (simp_all add: delimited_def)
  show ?thesis
    using webdecode_short_escape [OF h(1), of "CHR ''=''" "''a''" "''&x''" "''=v''" "''k''"]
      webdecode_short_escape [OF h(1), of "CHR ''=''" "''ab''" "[]" "''=v''" "''k''"] r h c k by simp
qed

end
