(* ===== verification/BK_Paths.thy ===== *)
theory BK_Paths
  imports BK_Prelude
begin

text \<open>
  Path names as text: \<open>cleanpath.c\<close>, \<open>dirname.c\<close>, \<open>relpath.c\<close>, \<open>concat_path.c\<close>, \<open>str_subst.c\<close> and
  \<open>paths_overlap\<close> of \<open>samepath.c\<close> in \<open>libc/utils\<close>, without the parts for Windows.  The code scans
  backwards with pointers; here it works on the reversed text, whose head is the character under
  the pointer.  A failing assertion, a read before the start of a string and a result that does
  not fit its buffer are \<open>None\<close>.
\<close>

section \<open>Model\<close>

definition MAXPATH :: nat where
  "MAXPATH = 1024"

abbreviation slash :: char where
  "slash \<equiv> CHR ''/''"

abbreviation dot :: char where
  "dot \<equiv> CHR ''.''"

text \<open>\<open>basenm\<close>: the loop stops at a slash or at the start of the string.\<close>

fun basenm_loop :: "string \<Rightarrow> nat \<Rightarrow> nat" where
  "basenm_loop s t = (if s ! t \<noteq> slash \<and> 0 < t then basenm_loop s (t - 1) else if s ! t = slash then t + 1 else t)"

declare basenm_loop.simps [simp del]

definition basenm :: "string \<Rightarrow> string option" where
  "basenm s = (if s = [] then None else Some (drop (basenm_loop s (length s - 1)) s))"

subsection \<open>\<open>cleanPath\<close>\<close>

abbreviation skip_slashes :: "string \<Rightarrow> string" where
  "skip_slashes \<equiv> dropWhile (\<lambda>c. c = slash)"

lemma skip_component_shorter:
  assumes "xs \<noteq> []"
  shows "length (dropWhile (\<lambda>c. c = a) (dropWhile (\<lambda>c. c \<noteq> a) xs)) < length xs"
proof (cases xs)
  case (Cons x ys)
  have "length (dropWhile (\<lambda>c. c = a) zs) \<le> length zs" for zs by (rule length_dropWhile_le)
  then show ?thesis
    using Cons length_dropWhile_le [of "\<lambda>c. c = a" ys] length_dropWhile_le [of "\<lambda>c. c \<noteq> a" ys]
    by (cases "x = a") (auto intro: le_less_trans simp: le_imp_less_Suc)
qed (use assms in simp)

text \<open>
  The main loop: the rest of the path (reversed), the number of pending \<open>..\<close>, and the text
  written so far, which grows to the left.
\<close>

function clean_loop :: "string \<Rightarrow> nat \<Rightarrow> string \<Rightarrow> nat \<times> string" where
  "clean_loop p dotCnt r =
     (if p = [] then (dotCnt, r)
      else if p = [dot] then (dotCnt, r)
      else if p = [dot, dot] then (dotCnt + 1, r)
      else if 3 \<le> length p \<and> take 3 p = [dot, dot, slash] then clean_loop (skip_slashes (drop 3 p)) (dotCnt + 1) r
      else if 2 \<le> length p \<and> take 2 p = [dot, slash] then clean_loop (skip_slashes (drop 2 p)) dotCnt r
      else if dotCnt \<noteq> 0 then clean_loop (skip_slashes (dropWhile (\<lambda>c. c \<noteq> slash) p)) (dotCnt - 1) r
      else clean_loop (skip_slashes (dropWhile (\<lambda>c. c \<noteq> slash) p)) dotCnt
             (rev (takeWhile (\<lambda>c. c \<noteq> slash) p) @ (if r = [] then [] else slash # r)))"
  by pat_completeness auto
termination
proof (relation "measure (\<lambda>(p, n, r). length p)", goal_cases)
  case (2 p n r)
  then have "length p - 3 < length p" by linarith
  then show ?case using length_dropWhile_le [of "\<lambda>c. c = slash" "drop 3 p"] by simp
next
  case (3 p n r)
  then have "length p - 2 < length p" by linarith
  then show ?case using length_dropWhile_le [of "\<lambda>c. c = slash" "drop 2 p"] by simp
qed (simp_all add: skip_component_shorter)

declare clean_loop.simps [simp del]

text \<open>\<open>while (dotCnt--)\<close>: put back the \<open>..\<close> without a known parent.\<close>

fun put_dots :: "nat \<Rightarrow> string \<Rightarrow> string" where
  "put_dots 0 r = r"
| "put_dots (Suc n) r = put_dots n (dot # dot # (if r \<noteq> [] \<and> hd r \<noteq> slash then slash # r else r))"

definition cleanPath :: "string \<Rightarrow> string option" where
  "cleanPath path =
     (let drive = (path \<noteq> [] \<and> nth_char path 1 = CHR '':'');
          top = (if drive then drop 2 path else path);
          (dotCnt, r) = clean_loop (skip_slashes (rev top)) 0 [];
          r = (if r = [] \<or> nth_char top 0 \<noteq> slash then put_dots dotCnt r else r);
          r = (if nth_char top 0 = slash then slash # r else r);
          r = (if drive then take 2 path @ r else r)
      in if MAXPATH \<le> length r then None
         else if r \<noteq> [] then Some (if nth_char r 1 = CHR '':'' \<and> length r = 2 then r @ [slash] else r)
         else Some [dot])"

subsection \<open>Other operations on paths\<close>

definition rstrip :: "(char \<Rightarrow> bool) \<Rightarrow> string \<Rightarrow> string" where
  "rstrip P s = rev (dropWhile P (rev s))"

definition dirname :: "string \<Rightarrow> string" where
  "dirname path =
     (if path = [] then [dot]
      else if \<forall>c\<in>set path. c = slash then [slash]
      else (let p = rstrip (\<lambda>c. c \<noteq> slash) (rstrip (\<lambda>c. c = slash) path)
            in if p = [] then [dot]
               else (let p = rstrip (\<lambda>c. c = slash) p in if p = [] then [slash] else p)))"

text \<open>
  \<open>concat_path(buf, first, second)\<close>; a null pointer is \<open>None\<close>.  The first function is the case of
  \<open>buf == second\<close>, where \<open>first\<close> is put before the contents of the buffer.
\<close>

definition concat_insert :: "string option \<Rightarrow> string \<Rightarrow> string" where
  "concat_insert first buf =
     (case first of
        None \<Rightarrow> buf
      | Some f \<Rightarrow> if f = [] then buf else if buf \<noteq> [] then f @ [slash] @ buf else f)"

definition concat_path :: "string option \<Rightarrow> string option \<Rightarrow> string option" where
  "concat_path first second =
     (case first of
        None \<Rightarrow> second
      | Some f \<Rightarrow>
          if f = [] then second
          else (case second of
                  None \<Rightarrow> Some f
                | Some s \<Rightarrow>
                    if s = [] then Some f
                    else (let buf = (if 2 \<le> length f \<and> drop (length f - 2) f = [slash, dot] then butlast f else f);
                              s = (if hd s = slash then tl s else s);
                              buf = (if last buf = slash then buf else buf @ [slash])
                          in Some (buf @ s))))"

definition paths_overlap :: "string \<Rightarrow> string \<Rightarrow> nat option" where
  "paths_overlap abase bbase =
     (if abase = [] \<or> bbase = [] then None
      else (let n = length (takeWhile (\<lambda>(a, b). a = b) (zip abase bbase));
                a = nth_char abase n; b = nth_char bbase n
            in Some (if (a = NUL \<or> a = slash) \<and> (b = NUL \<or> b = slash) then n else 0)))"

text \<open>The loop of \<open>relpath\<close> that goes up from the last common slash.\<close>

fun relpath_up :: "string \<Rightarrow> string option" where
  "relpath_up [] = Some []"
| "relpath_up (c # b) =
     (if c = slash then (if b = [] then None else map_option (\<lambda>r. [dot, dot, slash] @ r) (relpath_up b)) else relpath_up b)"

definition relpath :: "string \<Rightarrow> string \<Rightarrow> string option" where
  "relpath base path =
     (let n = length (takeWhile (\<lambda>(a, b). a = b) (zip base path));
          b = drop n base; p = drop n path;
          common = take n base
      in if slash \<notin> set common then None
         else (let lsb = length (rstrip (\<lambda>c. c \<noteq> slash) common) - 1;
                   p1 = (if b = [] \<and> n - 1 = lsb then slash # p else p)
               in if b = [] \<and> p = [] then Some [dot]
                  else if b = [] \<and> take 1 p1 = [slash] then Some (tl p1)
                  else (let (b, p) = (if p1 = [] \<and> take 1 b = [slash] then (b, p1) else (drop lsb base, drop (lsb + 1) path))
                        in case relpath_up b of
                             None \<Rightarrow> None
                           | Some up \<Rightarrow>
                               (let r = up @ p
                                in if MAXPATH \<le> length r then None
                                   else Some (if 1 < length r \<and> last r = slash then butlast r else r)))))"

text \<open>\<open>str_subst\<close> into a separate buffer; an empty search string would be found forever.\<close>

fun strstr :: "string \<Rightarrow> string \<Rightarrow> nat option" where
  "strstr [] search = (if search = [] then Some 0 else None)"
| "strstr (c # s) search = (if take (length search) (c # s) = search then Some 0 else map_option Suc (strstr s search))"

function subst_loop :: "string \<Rightarrow> string \<Rightarrow> string \<Rightarrow> string option" where
  "subst_loop search replace s =
     (if search = [] then None
      else case strstr s search of
             None \<Rightarrow> Some s
           | Some n \<Rightarrow> if s = [] then None else map_option (\<lambda>t. take n s @ replace @ t) (subst_loop search replace (drop (n + length search) s)))"
  by pat_completeness auto
termination
  by (relation "measure (\<lambda>(a, b, s). length s)") auto

declare subst_loop.simps [simp del]

definition str_subst :: "string \<Rightarrow> string \<Rightarrow> string \<Rightarrow> string option" where
  "str_subst str search replace = subst_loop search replace str"

section \<open>Components\<close>

text \<open>The components of a path, and what \<open>.\<close>, \<open>..\<close> and empty components mean, from left to right.\<close>

fun split_slash :: "string \<Rightarrow> string list" where
  "split_slash [] = [[]]"
| "split_slash (c # s) = (if c = slash then [] # split_slash s else (c # hd (split_slash s)) # tl (split_slash s))"

definition comps :: "string \<Rightarrow> string list" where
  "comps s = filter (\<lambda>c. c \<noteq> []) (split_slash s)"

abbreviation up :: string where
  "up \<equiv> [dot, dot]"

definition walk :: "string list \<Rightarrow> string \<Rightarrow> string list" where
  "walk cs c =
     (if c = [] \<or> c = [dot] then cs
      else if c = up then (if cs = [] \<or> last cs = up then cs @ [up] else butlast cs)
      else cs @ [c])"

definition norm :: "string list \<Rightarrow> string list" where
  "norm cs = foldl walk [] cs"

text \<open>The loop of \<open>cleanPath\<close> on the components from right to left.\<close>

fun clean_comps :: "string list \<Rightarrow> nat \<Rightarrow> string list \<Rightarrow> nat \<times> string list" where
  "clean_comps [] d out = (d, out)"
| "clean_comps (c # cs) d out =
     (if c = [dot] then clean_comps cs d out
      else if c = up then clean_comps cs (d + 1) out
      else if d \<noteq> 0 then clean_comps cs (d - 1) out
      else clean_comps cs 0 (c # out))"

function rcomps :: "string \<Rightarrow> string list" where
  "rcomps p =
     (let q = skip_slashes p
      in if q = [] then [] else rev (takeWhile (\<lambda>c. c \<noteq> slash) q) # rcomps (dropWhile (\<lambda>c. c \<noteq> slash) q))"
  by pat_completeness auto
termination
proof (relation "measure length", goal_cases)
  case (2 p q)
  then obtain c r where q: "skip_slashes p = c # r" by (cases "skip_slashes p") auto
  then have "c \<noteq> slash" using hd_dropWhile [of "\<lambda>c. c = slash" p] by simp
  then show ?case
    using 2 q length_dropWhile_le [of "\<lambda>c. c \<noteq> slash" r] length_dropWhile_le [of "\<lambda>c. c = slash" p] by simp
qed simp

declare rcomps.simps [simp del]

lemma rcomps_Nil [simp]: "rcomps [] = []"
  by (subst rcomps.simps) simp

lemma rcomps_skip: "rcomps (skip_slashes p) = rcomps p"
  by (subst (1 2) rcomps.simps) simp

lemma rcomps_slash [simp]: "rcomps (slash # p) = rcomps p"
  by (subst (1 2) rcomps.simps) simp

lemma rcomps_Cons: "c \<noteq> slash \<Longrightarrow> rcomps (c # p) = rev (c # takeWhile (\<lambda>c. c \<noteq> slash) p) # rcomps (dropWhile (\<lambda>c. c \<noteq> slash) p)"
  by (subst rcomps.simps) simp

lemma split_slash_not_Nil [simp]: "split_slash s \<noteq> []"
  by (cases s) auto

lemma split_slash_snoc:
  "split_slash (s @ [c]) = (if c = slash then split_slash s @ [[]] else butlast (split_slash s) @ [last (split_slash s) @ [c]])"
proof (induction s)
  case (Cons d s)
  obtain x xs where x: "split_slash s = x # xs" by (cases "split_slash s") auto
  then show ?case using Cons by (cases xs) auto
qed auto

lemma last_split_slash: "last (split_slash s) = rev (takeWhile (\<lambda>c. c \<noteq> slash) (rev s))"
  by (induction s rule: rev_induct) (auto simp: split_slash_snoc)

lemma rcomps_rev: "rcomps (rev s) = rev (comps s)"
proof (induction s rule: rev_induct)
  case Nil
  then show ?case by (simp add: comps_def)
next
  case (snoc c s)
  let ?w = "takeWhile (\<lambda>c. c \<noteq> slash) (rev s)"
  have l: "split_slash s = butlast (split_slash s) @ [rev ?w]" by (simp flip: last_split_slash)
  show ?case
  proof (cases "c = slash")
    case True
    then show ?thesis using snoc by (simp add: comps_def split_slash_snoc)
  next
    case False
    have new: "comps (s @ [c]) = filter (\<lambda>c. c \<noteq> []) (butlast (split_slash s)) @ [rev ?w @ [c]]"
      using False by (simp add: comps_def split_slash_snoc last_split_slash)
    have old: "rev (comps s) = (if ?w = [] then [] else [rev ?w]) @ rev (filter (\<lambda>c. c \<noteq> []) (butlast (split_slash s)))"
      unfolding comps_def by (subst l) simp
    have "rcomps (dropWhile (\<lambda>c. c \<noteq> slash) (rev s)) = rev (filter (\<lambda>c. c \<noteq> []) (butlast (split_slash s)))"
    proof (cases "?w = []")
      case True
      then have "dropWhile (\<lambda>c. c \<noteq> slash) (rev s) = rev s" by (metis append_Nil takeWhile_dropWhile_id)
      then show ?thesis using snoc old True by simp
    next
      case w: False
      obtain a r where r: "rev s = a # r" "a \<noteq> slash" using w by (cases "rev s") (auto split: if_splits)
      then show ?thesis using snoc old w rcomps_Cons [of a r] by simp
    qed
    then show ?thesis using False new by (simp add: rcomps_Cons)
  qed
qed

lemma comps_in: "c \<in> set (comps s) \<Longrightarrow> c \<noteq> [] \<and> slash \<notin> set c"
proof -
  have "slash \<notin> set c" if "c \<in> set (split_slash s)" for c
    using that
  proof (induction s arbitrary: c)
    case (Cons d s)
    have "hd (split_slash s) \<in> set (split_slash s)" "set (tl (split_slash s)) \<subseteq> set (split_slash s)"
      by (simp, meson list.set_sel(2) split_slash_not_Nil subsetI)
    then show ?case using Cons by (auto split: if_splits)
  qed simp
  then show "c \<in> set (comps s) \<Longrightarrow> c \<noteq> [] \<and> slash \<notin> set c" by (auto simp: comps_def)
qed

lemma ups_unique:
  assumes "replicate a up @ xs = replicate b up @ ys" "up \<notin> set xs" "up \<notin> set ys"
  shows "a = b" "xs = ys"
proof -
  have *: "takeWhile (\<lambda>c. c = up) (replicate n up @ zs) = replicate n up" if "up \<notin> set zs" for n zs
    using that by (induction n) (cases zs; auto)+
  have "replicate a up = replicate b up" using arg_cong [OF assms(1), of "takeWhile (\<lambda>c. c = up)"] * assms(2,3) by simp
  then show "a = b" by (metis length_replicate)
  then show "xs = ys" using assms(1) by simp
qed

lemma walk_form:
  assumes "up \<notin> set body"
  shows "walk (replicate a up @ body) c =
    (if c = [] \<or> c = [dot] then replicate a up @ body
     else if c = up then (if body = [] then replicate (Suc a) up else replicate a up @ butlast body)
     else replicate a up @ body @ [c])"
proof -
  have "last body \<noteq> up" if "body \<noteq> []" using that assms last_in_set by metis
  moreover have "last (replicate a up) = up" if "a \<noteq> 0" using that by simp
  ultimately show ?thesis by (auto simp: walk_def butlast_append replicate_append_same)
qed

lemma norm_form: "\<exists>a body. norm cs = replicate a up @ body \<and> up \<notin> set body \<and> (\<forall>c\<in>set body. c \<in> set cs)"
proof (induction cs rule: rev_induct)
  case Nil
  then show ?case by (intro exI [of _ 0] exI [of _ "[]"]) (simp add: norm_def)
next
  case (snoc c cs)
  then obtain a body where f: "norm cs = replicate a up @ body" "up \<notin> set body" "\<forall>c\<in>set body. c \<in> set cs" by blast
  have n: "norm (cs @ [c]) = walk (replicate a up @ body) c" using f(1) by (simp add: norm_def)
  consider "c = [] \<or> c = [dot]" | "c = up" "body = []" | "c = up" "body \<noteq> []" | "c \<noteq> []" "c \<noteq> [dot]" "c \<noteq> up" by blast
  then show ?case
  proof cases
    case 1
    then show ?thesis using f n walk_form [OF f(2), of a c] by auto
  next
    case 2
    then have "norm (cs @ [c]) = replicate (Suc a) up @ []" using n walk_form [OF f(2), of a c] by simp
    then show ?thesis by fastforce
  next
    case 3
    then have "norm (cs @ [c]) = replicate a up @ butlast body" using n walk_form [OF f(2), of a c] by simp
    then show ?thesis using f(2,3) by (metis UnCI in_set_butlastD set_append)
  next
    case 4
    then have "norm (cs @ [c]) = replicate a up @ (body @ [c])" using n walk_form [OF f(2), of a c] by simp
    moreover have "up \<notin> set (body @ [c])" "\<forall>d\<in>set (body @ [c]). d \<in> set (cs @ [c])" using f(2,3) 4 by auto
    ultimately show ?thesis by blast
  qed
qed

text \<open>Counting the \<open>..\<close> from the right is the same as walking from the left.\<close>

lemma clean_comps_norm:
  "norm cs = replicate a up @ body \<Longrightarrow> up \<notin> set body \<Longrightarrow> [] \<notin> set cs \<Longrightarrow>
   clean_comps (rev cs) d out = (if d \<le> length body then (a, take (length body - d) body @ out) else (a + (d - length body), out))"
proof (induction cs arbitrary: a body d out rule: rev_induct)
  case Nil
  then have "a = 0 \<and> body = []" by (simp add: norm_def)
  then show ?case by simp
next
  case (snoc c cs)
  obtain a' body' where f: "norm cs = replicate a' up @ body'" "up \<notin> set body'" using norm_form by blast
  note IH = snoc.IH [OF f]
  have e: "[] \<notin> set cs" "c \<noteq> []" using snoc.prems(3) by auto
  have "replicate a up @ body = walk (replicate a' up @ body') c" using snoc.prems(1) f(1) by (simp add: norm_def)
  note n = this [unfolded walk_form [OF f(2)]]
  consider "c = [dot]" | "c = up" "body' = []" | "c = up" "body' \<noteq> []" | "c \<noteq> [dot]" "c \<noteq> up" by blast
  then show ?case
  proof cases
    case 1
    then have "replicate a up @ body = replicate a' up @ body'" using n by simp
    from ups_unique [OF this snoc.prems(2) f(2)] show ?thesis using IH [OF e(1)] 1 by simp
  next
    case 2
    then have "replicate a up @ body = replicate (Suc a') up @ []" using n by simp
    from ups_unique [OF this snoc.prems(2)] show ?thesis using IH [OF e(1), of "d + 1" out] 2 by simp
  next
    case 3
    then have "replicate a up @ body = replicate a' up @ butlast body'" using n by simp
    from ups_unique [OF this snoc.prems(2)] f(2) have b: "a = a'" "body = butlast body'" by (auto dest: in_set_butlastD)
    have "body' = butlast body' @ [last body']" using 3(2) by simp
    then have "take (length body' - (d + 1)) body' = take (length (butlast body') - d) (butlast body')"
      by (simp add: butlast_conv_take min_def)
    moreover obtain m where "length body' = Suc m" using 3(2) by (cases body') auto
    ultimately show ?thesis using IH [OF e(1), of "d + 1" out] 3 b by auto
  next
    case 4
    then have "replicate a up @ body = replicate a' up @ (body' @ [c])" using n e(2) by simp
    from ups_unique [OF this snoc.prems(2)] f(2) 4 have b: "a = a'" "body = body' @ [c]" by auto
    show ?thesis
    proof (cases d)
      case 0
      then show ?thesis using IH [OF e(1), of 0 "c # out"] 4 b by simp
    next
      case (Suc d')
      then show ?thesis using IH [OF e(1), of d' out] 4 b by simp
    qed
  qed
qed

lemma join_Cons: "join sep (x # xs) = x @ (if xs = [] then [] else sep @ join sep xs)"
  by (cases xs) auto

lemma join_eq_Nil: "[] \<notin> set xs \<Longrightarrow> join sep xs = [] \<longleftrightarrow> xs = []"
  by (cases xs) (auto simp: join_Cons)

lemma takeWhile_all_dropWhile: "dropWhile P xs = [] \<Longrightarrow> takeWhile P xs = xs"
  by (metis append_Nil2 takeWhile_dropWhile_id)

lemma clean_loop_step:
  assumes "c \<noteq> slash" "slash \<notin> set w" "r = [] \<or> hd r = slash"
  shows "clean_loop (c # w @ r) d out =
    (if c # w = [dot] then clean_loop (skip_slashes r) d out
     else if c # w = up then clean_loop (skip_slashes r) (d + 1) out
     else if d \<noteq> 0 then clean_loop (skip_slashes r) (d - 1) out
     else clean_loop (skip_slashes r) d (rev (c # w) @ (if out = [] then [] else slash # out)))"
proof -
  consider "c # w = [dot]" | "c # w = up" | "c # w \<noteq> [dot]" "c # w \<noteq> up" by blast
  then show ?thesis
  proof cases
    case 1
    show ?thesis
    proof (cases r)
      case Nil
      then show ?thesis using 1 by (simp add: clean_loop.simps)
    next
      case (Cons a r')
      then have "c # w @ r = [dot, slash] @ r'" using 1 assms(3) by simp
      then show ?thesis using 1 Cons assms(3) by (subst clean_loop.simps) (simp add: numeral_3_eq_3)
    qed
  next
    case 2
    show ?thesis
    proof (cases r)
      case Nil
      then show ?thesis using 2 by (simp add: clean_loop.simps)
    next
      case (Cons a r')
      then have "c # w @ r = [dot, dot, slash] @ r'" using 2 assms(3) by simp
      then show ?thesis using 2 Cons assms(3) by (subst clean_loop.simps) (simp add: numeral_3_eq_3)
    qed
  next
    case 3
    have w: "takeWhile (\<lambda>c. c \<noteq> slash) (c # w @ r) = c # w" "dropWhile (\<lambda>c. c \<noteq> slash) (c # w @ r) = r"
      using assms by (cases r; auto simp: takeWhile_append dropWhile_append takeWhile_eq_all_conv)+
    have "c # w @ r \<noteq> [dot]" "c # w @ r \<noteq> [dot, dot]" "take 3 (c # w @ r) \<noteq> [dot, dot, slash]" "take 2 (c # w @ r) \<noteq> [dot, slash]"
      using 3 assms by (cases w; cases "tl w"; cases r; auto simp: numeral_3_eq_3 Cons_eq_append_conv)+
    moreover have "clean_loop p d out =
        (if d \<noteq> 0 then clean_loop (skip_slashes (dropWhile (\<lambda>c. c \<noteq> slash) p)) (d - 1) out
         else clean_loop (skip_slashes (dropWhile (\<lambda>c. c \<noteq> slash) p)) d (rev (takeWhile (\<lambda>c. c \<noteq> slash) p) @ (if out = [] then [] else slash # out)))"
      if "p \<noteq> []" "p \<noteq> [dot]" "p \<noteq> [dot, dot]" "take 3 p \<noteq> [dot, dot, slash]" "take 2 p \<noteq> [dot, slash]" for p
      using that by (subst clean_loop.simps) simp
    ultimately show ?thesis using 3 w by (simp only: if_False list.distinct not_False_eq_True)
  qed
qed

lemma clean_loop_comps:
  "(p = [] \<or> hd p \<noteq> slash) \<Longrightarrow> [] \<notin> set out \<Longrightarrow>
   clean_loop p d (join [slash] out) = apsnd (join [slash]) (clean_comps (rcomps p) d out)"
proof (induction "length p" arbitrary: p d out rule: less_induct)
  case less
  have stop: "skip_slashes q = [] \<or> hd (skip_slashes q) \<noteq> slash" for q using hd_dropWhile [of "\<lambda>c. c = slash" q] by blast
  show ?case
  proof (cases p)
    case Nil
    then show ?thesis by (simp add: clean_loop.simps)
  next
    case (Cons c q)
    have c: "c \<noteq> slash" using less.prems(1) Cons by simp
    let ?w = "takeWhile (\<lambda>c. c \<noteq> slash) q" and ?r = "dropWhile (\<lambda>c. c \<noteq> slash) q"
    have r: "?r = [] \<or> hd ?r = slash" using hd_dropWhile [of "\<lambda>c. c \<noteq> slash" q] by blast
    have rp: "rcomps p = rev (c # ?w) # rcomps (skip_slashes ?r)" using c Cons by (simp add: rcomps_Cons rcomps_skip)
    have pq: "p = c # ?w @ ?r" using Cons by simp
    have IH: "clean_loop (skip_slashes ?r) d' (join [slash] out') = apsnd (join [slash]) (clean_comps (rcomps (skip_slashes ?r)) d' out')"
      if "[] \<notin> set out'" for d' out'
    proof (rule less.hyps [OF _ stop that])
      show "length (skip_slashes ?r) < length p"
        using Cons length_dropWhile_le [of "\<lambda>c. c = slash" ?r] length_dropWhile_le [of "\<lambda>c. c \<noteq> slash" q] by simp
    qed
    have w: "slash \<notin> set ?w" by (auto dest: set_takeWhileD)
    have j: "rev (c # ?w) @ (if join [slash] out = [] then [] else slash # join [slash] out) = join [slash] (rev (c # ?w) # out)"
      using less.prems(2) by (simp add: join_Cons join_eq_Nil)
    have o: "[] \<notin> set (rev (c # ?w) # out)" using less.prems(2) by simp
    have u: "c # ?w = [dot] \<longleftrightarrow> rev (c # ?w) = [dot]" "c # ?w = up \<longleftrightarrow> rev (c # ?w) = up" by (auto simp: rev_swap)
    define k where "k = rev (c # ?w)"
    have "clean_loop p d (join [slash] out) =
      (if k = [dot] then apsnd (join [slash]) (clean_comps (rcomps (skip_slashes ?r)) d out)
       else if k = up then apsnd (join [slash]) (clean_comps (rcomps (skip_slashes ?r)) (d + 1) out)
       else if d \<noteq> 0 then apsnd (join [slash]) (clean_comps (rcomps (skip_slashes ?r)) (d - 1) out)
       else apsnd (join [slash]) (clean_comps (rcomps (skip_slashes ?r)) d (k # out)))"
      by (subst pq, subst clean_loop_step [OF c w r]) (simp only: u IH [OF less.prems(2)] j IH [OF o] k_def)
    then show ?thesis unfolding rp k_def [symmetric] by simp
  qed
qed

lemma put_dots_join:
  "[] \<notin> set out \<Longrightarrow> (\<forall>c\<in>set out. slash \<notin> set c) \<Longrightarrow> put_dots n (join [slash] out) = join [slash] (replicate n up @ out)"
proof (induction n arbitrary: out)
  case (Suc n)
  have "dot # dot # (if join [slash] out \<noteq> [] \<and> hd (join [slash] out) \<noteq> slash then slash # join [slash] out else join [slash] out) = join [slash] (up # out)"
  proof (cases out)
    case (Cons c cs)
    then obtain x xs where "c = x # xs" "x \<noteq> slash" using Suc.prems by (cases c) auto
    then show ?thesis using Cons by (simp add: join_Cons)
  qed simp
  then have "put_dots (Suc n) (join [slash] out) = put_dots n (join [slash] (up # out))" by simp
  also have "\<dots> = join [slash] (replicate n up @ up # out)" using Suc.prems by (intro Suc.IH) auto
  finally show ?case by (simp add: replicate_app_Cons_same)
qed simp

section \<open>Properties\<close>

text \<open>
  C37. \<open>cleanPath\<close> computes the normal form of a path (without a drive letter): its components are
  walked from left to right, \<open>.\<close> and empty components stay in place and \<open>..\<close> goes up; \<open>..\<close> above
  the start is kept in a relative path and dropped at the root, unless nothing else is left.  The
  empty result is written as \<open>.\<close>, and a result of a letter and a colon gets a slash.
\<close>

theorem cleanPath_norm:
  assumes "nth_char path 1 \<noteq> CHR '':''"
  shows "cleanPath path =
    (let cs = norm (comps path);
         r = (if take 1 path = [slash] then slash # join [slash] (if set cs \<subseteq> {up} then cs else dropWhile (\<lambda>c. c = up) cs)
              else join [slash] cs)
     in if MAXPATH \<le> length r then None
        else Some (if r = [] then [dot] else if nth_char r 1 = CHR '':'' \<and> length r = 2 then r @ [slash] else r))"
proof -
  obtain a body where f: "norm (comps path) = replicate a up @ body" "up \<notin> set body" "\<forall>c\<in>set body. c \<in> set (comps path)"
    using norm_form by blast
  have ne: "[] \<notin> set (comps path)" "[] \<notin> set body" "\<forall>c\<in>set body. slash \<notin> set c" using comps_in f(3) by blast+
  have "skip_slashes (rev path) = [] \<or> hd (skip_slashes (rev path)) \<noteq> slash"
    using hd_dropWhile [of "\<lambda>c. c = slash" "rev path"] by blast
  from clean_loop_comps [OF this, of "[]" 0]
  have "clean_loop (skip_slashes (rev path)) 0 [] = apsnd (join [slash]) (clean_comps (rev (comps path)) 0 [])"
    by (simp add: rcomps_skip rcomps_rev)
  then have loop: "clean_loop (skip_slashes (rev path)) 0 [] = (a, join [slash] body)"
    using clean_comps_norm [OF f(1,2) ne(1), of 0 "[]"] by simp
  note dots = put_dots_join [OF ne(2,3), of a]
  have top: "nth_char path 0 = slash \<longleftrightarrow> take 1 path = [slash]" by (cases path) (auto simp: nth_char_def NUL_def)
  have all: "set (norm (comps path)) \<subseteq> {up} \<longleftrightarrow> body = []" using f(1,2) by (cases body) auto
  have dw: "dropWhile (\<lambda>c. c = up) (norm (comps path)) = body"
    unfolding f(1) using f(2) by (induction a) (cases body; auto)+
  have jn: "join [slash] body = [] \<longleftrightarrow> body = []" using join_eq_Nil [OF ne(2)] .
  define B D where "B = join [slash] body" and "D = join [slash] (replicate a up @ body)"
  have nd: "(path \<noteq> [] \<and> nth_char path 1 = CHR '':'') = False" using assms by blast
  have c: "cleanPath path =
    (let r = (if body = [] \<or> take 1 path \<noteq> [slash] then D else B);
         r = (if take 1 path = [slash] then slash # r else r)
     in if MAXPATH \<le> length r then None
        else if r \<noteq> [] then Some (if nth_char r 1 = CHR '':'' \<and> length r = 2 then r @ [slash] else r) else Some [dot])"
    unfolding cleanPath_def nd if_False loop Let_def prod.case top jn dots B_def D_def by (rule refl)
  have e: "join [slash] (if body = [] then replicate a up @ body else body) = (if body = [] then D else B)" by (simp add: B_def D_def)
  show ?thesis
    unfolding c Let_def all dw unfolding f(1) e D_def [symmetric] by (cases "take 1 path = [slash]"; cases "body = []") (simp_all del: length_greater_0_conv)
qed

theorem cleanPath_norm_witness: "cleanPath ''a//./b/../../../c/'' = Some ''../c'' \<and> cleanPath ''/../x'' = Some ''/x'' \<and> cleanPath ''/..'' = Some ''/..''"
proof (intro conjI)
  show "cleanPath ''a//./b/../../../c/'' = Some ''../c''"
    by (subst cleanPath_norm) (code_simp, code_simp)
  show "cleanPath ''/../x'' = Some ''/x''" by (subst cleanPath_norm) (code_simp, code_simp)
  show "cleanPath ''/..'' = Some ''/..''" by (subst cleanPath_norm) (code_simp, code_simp)
qed

end
