(* ===== verification/BK_Weave.thy ===== *)
theory BK_Weave
  imports BK_Serialmap
begin

text \<open>
  The weave (\<open>slib.c\<close>): the lines of all versions of a file in one sequence, with control lines
  that open and close blocks of inserted (\<open>^AI\<close>) and deleted (\<open>^AD\<close>) lines.  Modelled are the array
  of open blocks with its operations, the pass of \<open>get_reg\<close> over the weave of a plain ASCII file
  (neither a hash file nor with line prefixes, keyword expansion or named lines), and the cached
  checksums of \<open>fastsum\<close>.  The array is a list that starts with its last element, the one that
  \<open>EACH_REVERSE\<close> visits first.  The weave is the list of lines that \<open>sccs_nextdata\<close> returns.
\<close>

unbundle bit_operations_syntax

section \<open>Open blocks\<close>

definition SL_MASK :: u32 where
  "SL_MASK = 0x7fffffff"

definition SL_SER :: "u32 \<Rightarrow> u32" where
  "SL_SER x = x AND SL_MASK"

definition SL_INS :: "u32 \<Rightarrow> bool" where
  "SL_INS x \<longleftrightarrow> x AND NOT SL_MASK \<noteq> 0"

definition SL_SET :: "u32 \<Rightarrow> bool \<Rightarrow> u32" where
  "SL_SET ser i = ser OR (if i then SL_MASK + 1 else 0)"

definition changestate :: "u32 list \<Rightarrow> char \<Rightarrow> u32 \<Rightarrow> u32 list option" where
  "changestate state type serial =
     (if SL_INS serial then None
      else (let larger = takeWhile (\<lambda>x. \<not> SL_SER x \<le> serial) state;
                rest = dropWhile (\<lambda>x. \<not> SL_SER x \<le> serial) state
            in if list_ex SL_INS larger then None
               else if type = CHR ''E'' then
                 (case rest of [] \<Rightarrow> None | x # xs \<Rightarrow> if SL_SER x = serial then Some (larger @ xs) else None)
               else Some (larger @ SL_SET serial (type = CHR ''I'') # rest)))"

fun whodelstate :: "u32 list \<Rightarrow> slist \<Rightarrow> u32 \<Rightarrow> u32" where
  "whodelstate [] sl delrev = 0"
| "whodelstate (x # xs) sl delrev =
     (if SL_INS x then (if sl (unat (SL_SER x)) \<noteq> 0 then delrev else 0)
      else whodelstate xs sl (if sl (unat (SL_SER x)) \<noteq> 0 then SL_SER x else delrev))"

fun delstate_loop :: "u32 \<Rightarrow> u32 list \<Rightarrow> slist \<Rightarrow> bool \<Rightarrow> u32" where
  "delstate_loop ser [] sl ok = 0"
| "delstate_loop ser (x # xs) sl ok =
     (if SL_INS x then (if ok \<and> sl (unat (SL_SER x)) \<noteq> 0 then SL_SER x else 0)
      else if SL_SER x = ser then delstate_loop ser xs sl True
      else if sl (unat (SL_SER x)) \<noteq> 0 then 0
      else delstate_loop ser xs sl ok)"

definition delstate :: "u32 \<Rightarrow> u32 list \<Rightarrow> slist \<Rightarrow> u32 option" where
  "delstate ser state sl = (if sl (unat ser) \<noteq> 0 then Some (delstate_loop ser state sl False) else None)"

fun whatstate :: "u32 list \<Rightarrow> u32" where
  "whatstate [] = 0"
| "whatstate (x # xs) = (if SL_INS x then SL_SER x else whatstate xs)"

definition visitedstate :: "u32 list \<Rightarrow> slist \<Rightarrow> u32" where
  "visitedstate state sl = (let ser = whatstate state in if ser \<noteq> 0 \<and> sl (unat ser) \<noteq> 0 then ser else 0)"

fun printstate :: "u32 list \<Rightarrow> slist \<Rightarrow> u32" where
  "printstate [] sl = 0"
| "printstate (x # xs) sl =
     (if SL_INS x then (if sl (unat (SL_SER x)) \<noteq> 0 then SL_SER x else 0)
      else if sl (unat (SL_SER x)) \<noteq> 0 then 0 else printstate xs sl)"

section \<open>Lines of the weave\<close>

definition isData :: "string \<Rightarrow> bool" where
  "isData buf \<longleftrightarrow> nth_char buf 0 \<noteq> CHR 0x01 \<or> nth_char buf 1 = CHR 0x01"

text \<open>The text of a data line without its escape character.\<close>

definition unescape :: "string \<Rightarrow> string" where
  "unescape buf = (if nth_char buf 0 = CHR 0x01 then tl buf else buf)"

text \<open>The type and the serial of a control line, and whether an \<open>N\<close> follows the serial.\<close>

definition ctl_type :: "string \<Rightarrow> char" where
  "ctl_type buf = nth_char buf 1"

definition ctl_ser :: "string \<Rightarrow> u32" where
  "ctl_ser buf = fst (atoi_p (drop 3 buf))"

definition ctl_nolf :: "string \<Rightarrow> bool" where
  "ctl_nolf buf \<longleftrightarrow> nth_char (snd (atoi_p (drop 3 buf))) 0 = CHR ''N''"

definition sum_bytes :: "string \<Rightarrow> u32" where
  "sum_bytes s = sum_list (map (\<lambda>c. of_nat (of_char c)) s)"

section \<open>The pass of \<open>get_reg\<close>\<close>

datatype counter = Added | Deleted | Same | Other

record getst =
  g_state :: "u32 list"
  g_print :: u32
  g_counter :: counter
  g_lines :: u32
  g_sum :: u32
  g_cnt :: "counter \<Rightarrow> u32"
  g_lf :: u32
  g_nonl :: bool
  g_out :: string

definition get_init :: getst where
  "get_init = \<lparr>g_state = [], g_print = 0, g_counter = Other, g_lines = 0, g_sum = 0, g_cnt = (\<lambda>_. 0), g_lf = 0, g_nonl = False, g_out = []\<rparr>"

text \<open>The line feed that was held back.\<close>

definition put_lf :: "string \<Rightarrow> bool \<Rightarrow> bool \<Rightarrow> getst \<Rightarrow> getst" where
  "put_lf eol sumonly cksum g =
     g\<lparr>g_out := (if sumonly then g_out g else g_out g @ eol), g_sum := (if cksum then g_sum g + 10 else g_sum g), g_lf := 0\<rparr>"

text \<open>The text of a line without its line feed.\<close>

definition put_text :: "bool \<Rightarrow> bool \<Rightarrow> string \<Rightarrow> getst \<Rightarrow> getst" where
  "put_text sumonly cksum buf g =
     g\<lparr>g_sum := (if cksum then g_sum g + sum_bytes buf + 10 - 10 else g_sum g),
       g_out := (if sumonly then g_out g else g_out g @ buf), g_lf := g_print g\<rparr>"

definition get_data :: "string \<Rightarrow> bool \<Rightarrow> bool \<Rightarrow> string \<Rightarrow> getst \<Rightarrow> getst" where
  "get_data eol sumonly cksum buf g =
     (let g = g\<lparr>g_cnt := (g_cnt g)(g_counter g := g_cnt g (g_counter g) + 1)\<rparr>
      in if g_print g = 0 then
           (if g_lf g \<noteq> 0 \<and> g_lf g = whatstate (g_state g) then put_lf eol sumonly cksum g else g)
         else
           (let g = g\<lparr>g_lines := g_lines g + 1\<rparr>;
                g = (if g_lf g \<noteq> 0 then put_lf eol sumonly cksum g else g)
            in put_text sumonly cksum (unescape buf) g))"

definition get_counter :: "slist \<Rightarrow> u32 \<Rightarrow> getst \<Rightarrow> counter option" where
  "get_counter sl d g =
     (if g_print g = d then Some Added
      else if g_print g \<noteq> 0 then Some Same
      else map_option (\<lambda>x. if x \<noteq> 0 then Deleted else Other) (delstate d (g_state g) sl))"

definition get_ctl :: "string \<Rightarrow> bool \<Rightarrow> bool \<Rightarrow> slist \<Rightarrow> u32 \<Rightarrow> string \<Rightarrow> getst \<Rightarrow> getst option" where
  "get_ctl eol sumonly cksum sl d buf g =
     (let serial = ctl_ser buf;
          g = (if ctl_type buf = CHR ''E'' \<and> g_lf g = serial \<and> whatstate (g_state g) = serial
               then (if \<not> ctl_nolf buf then put_lf eol sumonly cksum g else g\<lparr>g_nonl := True\<rparr>) else g)
      in case changestate (g_state g) (ctl_type buf) serial of
           None \<Rightarrow> None
         | Some state \<Rightarrow>
             (let g = g\<lparr>g_state := state, g_print := (if d \<noteq> 0 then printstate state sl else visitedstate state sl)\<rparr>
              in if d \<noteq> 0 \<and> cksum then map_option (\<lambda>c. g\<lparr>g_counter := c\<rparr>) (get_counter sl d g) else Some g))"

fun get_loop :: "string \<Rightarrow> bool \<Rightarrow> bool \<Rightarrow> slist \<Rightarrow> u32 \<Rightarrow> string list \<Rightarrow> getst \<Rightarrow> getst option" where
  "get_loop eol sumonly cksum sl d [] g = Some g"
| "get_loop eol sumonly cksum sl d (buf # ws) g =
     (if isData buf then get_loop eol sumonly cksum sl d ws (get_data eol sumonly cksum buf g)
      else (case get_ctl eol sumonly cksum sl d buf g of None \<Rightarrow> None | Some g \<Rightarrow> get_loop eol sumonly cksum sl d ws g))"

section \<open>Cached checksums\<close>

record sumdata =
  fs_key :: "u32 list"
  fs_sum :: u32
  fs_lines :: u32
  fs_seq :: u32

record fastst =
  f_state :: "u32 list"
  f_sum :: u32
  f_lines :: u32
  f_seq :: u32
  f_cur :: u32
  f_blocks :: "sumdata list"
  f_stack :: "nat option list"

definition fast_init :: fastst where
  "fast_init = \<lparr>f_state = [], f_sum = 0, f_lines = 0, f_seq = 0, f_cur = 0, f_blocks = [], f_stack = []\<rparr>"

text \<open>
  The key of a block of lines: the serial that inserts it and the open deletions above, oldest
  first.  There is none outside of an inserted block.
\<close>

definition block_key :: "u32 list \<Rightarrow> u32 list option" where
  "block_key state =
     (case dropWhile (\<lambda>x. \<not> SL_INS x) state of
        [] \<Rightarrow> None
      | x # xs \<Rightarrow> Some (SL_SER x # rev (takeWhile (\<lambda>x. \<not> SL_INS x) state)))"

text \<open>
  The hash table finds the data of a key, or adds one filled with zeros; \<open>blocks\<close> lists them in
  the order in which they were added.  The result is the index there.
\<close>

definition find_block :: "u32 list \<Rightarrow> sumdata list \<Rightarrow> nat" where
  "find_block k blocks = length (takeWhile (\<lambda>b. fs_key b \<noteq> k) blocks)"

definition add_block :: "u32 list \<Rightarrow> sumdata list \<Rightarrow> sumdata list" where
  "add_block k blocks =
     (if find_block k blocks < length blocks then blocks else blocks @ [\<lparr>fs_key = k, fs_sum = 0, fs_lines = 0, fs_seq = 0\<rparr>])"

definition fast_flush :: "fastst \<Rightarrow> fastst option" where
  "fast_flush f =
     (if f_lines f = 0 then Some f
      else case block_key (f_state f) of
             None \<Rightarrow> None
           | Some k \<Rightarrow>
               (let i = find_block k (f_blocks f);
                    bs = add_block k (f_blocks f);
                    seq = f_seq f + f_lines f;
                    b = (bs ! i)\<lparr>fs_sum := fs_sum (bs ! i) + f_sum f, fs_lines := fs_lines (bs ! i) + f_lines f, fs_seq := seq\<rparr>
                in case f_stack f of
                     [] \<Rightarrow> None
                   | _ # st \<Rightarrow> Some (f\<lparr>f_blocks := bs[i := b], f_seq := seq, f_stack := Some i # st, f_sum := 0, f_lines := 0\<rparr>)))"

definition fast_ctl :: "string \<Rightarrow> fastst \<Rightarrow> fastst option" where
  "fast_ctl buf f =
     (let ser = ctl_ser buf
      in case changestate (f_state f) (ctl_type buf) ser of
           None \<Rightarrow> None
         | Some state \<Rightarrow>
             (let f = f\<lparr>f_state := state\<rparr>
              in if ctl_type buf = CHR ''E'' then
                   (if ser = f_cur f then
                      (case f_stack f of
                         [] \<Rightarrow> None
                       | tp # st \<Rightarrow>
                           (let f = f\<lparr>f_cur := whatstate state, f_stack := st\<rparr>
                            in if ctl_nolf buf then
                                 (case tp of
                                    None \<Rightarrow> None
                                  | Some i \<Rightarrow>
                                      Some (f\<lparr>f_blocks := (f_blocks f)[i := (f_blocks f ! i)\<lparr>fs_seq := SL_SET (fs_seq (f_blocks f ! i)) True\<rparr>]\<rparr>))
                               else Some f))
                    else Some f)
                 else if ctl_type buf = CHR ''I'' then Some (f\<lparr>f_cur := ser, f_stack := None # f_stack f\<rparr>)
                 else Some f))"

fun fast_loop :: "string list \<Rightarrow> fastst \<Rightarrow> fastst option" where
  "fast_loop [] f = Some f"
| "fast_loop (buf # ws) f =
     (if isData buf then fast_loop ws (f\<lparr>f_sum := f_sum f + sum_bytes (unescape buf) + 10, f_lines := f_lines f + 1\<rparr>)
      else (case Option.bind (fast_flush f) (fast_ctl buf) of None \<Rightarrow> None | Some f \<Rightarrow> fast_loop ws f))"

definition fastsum_load :: "string list \<Rightarrow> sumdata list option" where
  "fastsum_load weave =
     (case fast_loop weave fast_init of
        None \<Rightarrow> None
      | Some f \<Rightarrow> if f_stack f = [] \<and> f_lines f = 0 \<and> f_sum f = 0 then Some (f_blocks f) else None)"

record fastres =
  r_sum :: u32
  r_added :: u32
  r_deleted :: u32
  r_same :: u32
  r_seq :: u32
  r_nolf :: bool

text \<open>The deletions of a block: is it deleted by \<open>this\<close> alone, by others, or not at all?\<close>

fun fast_dels :: "slist \<Rightarrow> u32 \<Rightarrow> u32 list \<Rightarrow> counter" where
  "fast_dels sl this [] = Same"
| "fast_dels sl this (e # es) =
     (if e = this then Deleted else if sl (unat e) \<noteq> 0 then Other else fast_dels sl this es)"

definition fast_save :: "sumdata \<Rightarrow> fastres \<Rightarrow> fastres" where
  "fast_save b r =
     (let r = r\<lparr>r_sum := r_sum r + fs_sum b\<rparr>
      in if r_seq r < SL_SER (fs_seq b) then r\<lparr>r_seq := SL_SER (fs_seq b), r_nolf := SL_INS (fs_seq b)\<rparr> else r)"

definition fast_block :: "sccs \<Rightarrow> slist \<Rightarrow> u32 \<Rightarrow> sumdata \<Rightarrow> fastres \<Rightarrow> fastres option" where
  "fast_block s sl this b r =
     (let d = hd (fs_key b)
      in if \<not> (d \<noteq> 0 \<and> TREE s \<le> unat d \<and> unat d \<le> TABLE s) then None
         else if sl (unat d) = 0 then Some r
         else if d = this then Some (fast_save b (r\<lparr>r_added := r_added r + fs_lines b\<rparr>))
         else Some (case fast_dels sl this (tl (fs_key b)) of
                      Deleted \<Rightarrow> r\<lparr>r_deleted := r_deleted r + fs_lines b\<rparr>
                    | Same \<Rightarrow> fast_save b (r\<lparr>r_same := r_same r + fs_lines b\<rparr>)
                    | _ \<Rightarrow> r))"

fun fast_blocks :: "sccs \<Rightarrow> slist \<Rightarrow> u32 \<Rightarrow> sumdata list \<Rightarrow> fastres \<Rightarrow> fastres option" where
  "fast_blocks s sl this [] r = Some r"
| "fast_blocks s sl this (b # bs) r =
     (case fast_block s sl this b r of None \<Rightarrow> None | Some r \<Rightarrow> fast_blocks s sl this bs r)"

text \<open>
  The sum is the one of 32 bits; the code stores its low 16 bits (\<open>sum_t\<close>) in the file handle, as
  \<open>get_reg\<close> compares the low 16 bits of its own.
\<close>

definition fastsum :: "sccs \<Rightarrow> string list \<Rightarrow> slist \<Rightarrow> u32 \<Rightarrow> fastres option" where
  "fastsum s weave sl this =
     (case fastsum_load weave of
        None \<Rightarrow> None
      | Some blocks \<Rightarrow>
          map_option (\<lambda>r. if r_nolf r then r\<lparr>r_sum := r_sum r - 10\<rparr> else r)
            (fast_blocks s sl this blocks \<lparr>r_sum = 0, r_added = 0, r_deleted = 0, r_same = 0, r_seq = 0, r_nolf = False\<rparr>))"

section \<open>What the control lines mean\<close>

text \<open>
  The open blocks: a serial has an open insertion (\<open>Some True\<close>), an open deletion (\<open>Some False\<close>)
  or none.  A control line is legal when it closes an open block or opens a new one, and no open
  insertion has a larger serial.
\<close>

type_synonym opens = "u32 \<Rightarrow> bool option"

definition step_open :: "opens \<Rightarrow> char \<Rightarrow> u32 \<Rightarrow> opens" where
  "step_open m type ser = (if type = CHR ''E'' then m(ser := None) else m(ser \<mapsto> type = CHR ''I''))"

definition legal :: "opens \<Rightarrow> char \<Rightarrow> u32 \<Rightarrow> bool" where
  "legal m type ser \<longleftrightarrow>
     ser \<noteq> 0 \<and> \<not> SL_INS ser \<and> (\<forall>i>ser. m i \<noteq> Some True) \<and> (m ser \<noteq> None \<longleftrightarrow> type = CHR ''E'')"

text \<open>
  A line belongs to the open insertion with the largest serial.  It is shown when that delta is
  active and no active delta with a larger serial has an open deletion.
\<close>

definition is_cur :: "opens \<Rightarrow> u32 \<Rightarrow> bool" where
  "is_cur m i \<longleftrightarrow> m i = Some True \<and> (\<forall>j>i. m j \<noteq> Some True)"

definition shown :: "(u32 \<Rightarrow> bool) \<Rightarrow> opens \<Rightarrow> u32 \<Rightarrow> bool" where
  "shown A m i \<longleftrightarrow> is_cur m i \<and> A i \<and> (\<forall>j>i. m j = Some False \<longrightarrow> \<not> A j)"

fun legal_weave :: "string list \<Rightarrow> opens \<Rightarrow> bool" where
  "legal_weave [] m \<longleftrightarrow> True"
| "legal_weave (buf # ws) m \<longleftrightarrow>
     (if isData buf then legal_weave ws m
      else legal m (ctl_type buf) (ctl_ser buf) \<and> legal_weave ws (step_open m (ctl_type buf) (ctl_ser buf)))"

fun shown_lines :: "(u32 \<Rightarrow> bool) \<Rightarrow> string list \<Rightarrow> opens \<Rightarrow> string list" where
  "shown_lines A [] m = []"
| "shown_lines A (buf # ws) m =
     (if isData buf then (if \<exists>i. shown A m i then unescape buf # shown_lines A ws m else shown_lines A ws m)
      else shown_lines A ws (step_open m (ctl_type buf) (ctl_ser buf)))"

section \<open>The array of open blocks\<close>

definition entry_of :: "u32 \<Rightarrow> u32 \<times> bool" where
  "entry_of x = (SL_SER x, SL_INS x)"

definition blocks_rep :: "opens \<Rightarrow> u32 list \<Rightarrow> bool" where
  "blocks_rep m st \<longleftrightarrow> sorted_wrt (\<lambda>x y. SL_SER y < SL_SER x) st \<and> m = map_of (map entry_of st) \<and> m 0 = None"

lemma SL_bits: "SL_SER (SL_SET x i) = SL_SER x" "SL_INS (SL_SET x i) \<longleftrightarrow> SL_INS x \<or> i" "SL_INS x \<longleftrightarrow> bit x 31" "bit (SL_SER x) n \<longleftrightarrow> bit x n \<and> n < 31"
proof -
  have m: "SL_MASK = mask 31" by (simp add: SL_MASK_def mask_eq_exp_minus_1)
  have b31: "SL_INS x \<longleftrightarrow> bit x 31" for x
    unfolding SL_INS_def m word_bits_neq_0 by (auto simp: bit_simps less_Suc_eq_le le_less numeral_eq_Suc)
  have p: "SL_MASK + 1 = push_bit 31 1" by (simp add: SL_MASK_def push_bit_eq_mult)
  have bs: "bit (SL_SET x i) n \<longleftrightarrow> bit x n \<or> i \<and> n = 31" for n
    using bit_one_hot [of 31 n, where ?'a = 32] unfolding SL_SET_def p bit_or_iff by (cases i) (simp_all only: if_True if_False bit_0_eq, auto)
  have ser: "bit (SL_SER x) n \<longleftrightarrow> bit x n \<and> n < 31" for x n unfolding SL_SER_def m by (auto simp: bit_simps)
  show "SL_INS x \<longleftrightarrow> bit x 31" by (rule b31)
  show "bit (SL_SER x) n \<longleftrightarrow> bit x n \<and> n < 31" by (rule ser)
  show "SL_SER (SL_SET x i) = SL_SER x" by (rule bit_word_eqI) (auto simp: ser bs)
  show "SL_INS (SL_SET x i) \<longleftrightarrow> SL_INS x \<or> i" by (simp add: b31 bs)
qed

lemma SL_SER_id: "\<not> SL_INS x \<Longrightarrow> SL_SER x = x"
proof -
  assume "\<not> SL_INS x"
  then have "n < 31" if "n < 32" "bit x n" for n using that by (cases "n = 31") (auto simp: SL_bits(3))
  then show ?thesis by (intro bit_word_eqI) (auto simp: SL_bits(4))
qed

lemma SL_SET_parts: "\<not> SL_INS ser \<Longrightarrow> SL_SER (SL_SET ser i) = ser \<and> SL_INS (SL_SET ser i) = i"
  by (simp add: SL_bits(1,2) SL_SER_id)

lemma blocks_rep_Cons:
  assumes "blocks_rep m (x # xs)"
  obtains m' where "blocks_rep m' xs" "m = m'(SL_SER x \<mapsto> SL_INS x)" "\<And>y. m' y \<noteq> None \<Longrightarrow> y < SL_SER x"
proof
  let ?m = "map_of (map entry_of xs)"
  show m: "m = ?m(SL_SER x \<mapsto> SL_INS x)" using assms by (simp add: blocks_rep_def entry_of_def fun_eq_iff)
  show lt: "y < SL_SER x" if "?m y \<noteq> None" for y
    using that assms by (auto simp: blocks_rep_def map_of_eq_None_iff entry_of_def)
  show "blocks_rep ?m xs" using assms m by (auto simp: blocks_rep_def split: if_splits)
qed

lemma rep_mem: "blocks_rep m st \<Longrightarrow> x \<in> set st \<Longrightarrow> m (SL_SER x) = Some (SL_INS x)"
proof (induction st arbitrary: m)
  case (Cons y st)
  obtain m' where m': "blocks_rep m' st" and m: "m = m'(SL_SER y \<mapsto> SL_INS y)" and lt: "\<And>z. m' z \<noteq> None \<Longrightarrow> z < SL_SER y"
    using blocks_rep_Cons [OF Cons.prems(1)] by blast
  show ?case
  proof (cases "x = y")
    case False
    then have "m' (SL_SER x) = Some (SL_INS x)" using Cons m' by simp
    then show ?thesis using m lt [of "SL_SER x"] by auto
  qed (simp add: m)
qed simp

lemma rep_nonzero: "blocks_rep m st \<Longrightarrow> x \<in> set st \<Longrightarrow> SL_SER x \<noteq> 0"
proof -
  assume rep: "blocks_rep m st" and "x \<in> set st"
  then have "SL_SER x \<in> fst ` set (map entry_of st)" by (force simp: entry_of_def)
  then show ?thesis using rep unfolding blocks_rep_def by (metis map_of_eq_None_iff)
qed

lemma whatstate_cur:
  assumes "blocks_rep m st" "i \<noteq> 0"
  shows "whatstate st = i \<longleftrightarrow> is_cur m i"
  using assms
proof (induction st arbitrary: m)
  case Nil
  then show ?case by (auto simp: blocks_rep_def is_cur_def)
next
  case (Cons x xs)
  obtain m' where m': "blocks_rep m' xs" and m: "m = m'(SL_SER x \<mapsto> SL_INS x)" and lt: "\<And>y. m' y \<noteq> None \<Longrightarrow> y < SL_SER x"
    using blocks_rep_Cons [OF Cons.prems(1)] by blast
  note IH = Cons.IH [OF m' Cons.prems(2)]
  have above: "m' j = None" if "SL_SER x \<le> j" for j using lt [of j] that by (meson not_le)
  show ?case
  proof (cases "SL_INS x")
    case True
    have "is_cur m i \<longleftrightarrow> SL_SER x = i"
    proof
      assume "is_cur m i"
      then show "SL_SER x = i" using True m above lt [of i] by (auto simp: is_cur_def split: if_splits)
    next
      assume "SL_SER x = i"
      then show "is_cur m i" using True m above by (auto simp: is_cur_def)
    qed
    then show ?thesis using True by simp
  next
    case False
    have "m j = Some True \<longleftrightarrow> m' j = Some True" for j using False m above [of j] by auto
    then have "is_cur m i \<longleftrightarrow> is_cur m' i" by (simp add: is_cur_def)
    then show ?thesis using IH False by simp
  qed
qed

lemma printstate_shown:
  assumes "blocks_rep m st" "i \<noteq> 0"
  shows "printstate st sl = i \<longleftrightarrow> shown (\<lambda>t. sl (unat t) \<noteq> 0) m i"
  using assms
proof (induction st arbitrary: m)
  case Nil
  then show ?case by (auto simp: blocks_rep_def is_cur_def shown_def)
next
  case (Cons x xs)
  let ?A = "\<lambda>t. sl (unat t) \<noteq> 0"
  obtain m' where m': "blocks_rep m' xs" and m: "m = m'(SL_SER x \<mapsto> SL_INS x)" and lt: "\<And>y. m' y \<noteq> None \<Longrightarrow> y < SL_SER x"
    using blocks_rep_Cons [OF Cons.prems(1)] by blast
  note IH = Cons.IH [OF m' Cons.prems(2)]
  have above: "m' j = None" if "SL_SER x \<le> j" for j using lt [of j] that by (meson not_le)
  have cur: "whatstate (x # xs) = i \<longleftrightarrow> is_cur m i" by (rule whatstate_cur [OF Cons.prems])
  show ?case
  proof (cases "SL_INS x")
    case True
    have "m j \<noteq> Some False" if "SL_SER x < j" for j using that m above [of j] by auto
    then show ?thesis using True cur Cons.prems(2) by (auto simp: shown_def)
  next
    case False
    have I: "m j = Some True \<longleftrightarrow> m' j = Some True" for j using False m above [of j] by auto
    have D: "m j = Some False \<longleftrightarrow> j = SL_SER x \<or> m' j = Some False" for j using False m above [of j] by auto
    have "shown ?A m i \<longleftrightarrow> \<not> ?A (SL_SER x) \<and> shown ?A m' i" if "m' i = Some True"
      using lt [of i] that unfolding shown_def is_cur_def I D by auto
    moreover have "\<not> shown ?A m i \<and> \<not> shown ?A m' i" if "m' i \<noteq> Some True" using that unfolding shown_def is_cur_def I by simp
    ultimately show ?thesis using False IH Cons.prems(2) by auto
  qed
qed

lemma map_of_insert_mid:
  assumes "k \<notin> fst ` set xs"
  shows "map_of (xs @ (k, v) # ys) = (map_of (xs @ ys))(k \<mapsto> v)"
proof -
  have "map_of xs k = None" using assms by (simp add: map_of_eq_None_iff)
  then show ?thesis by (auto simp: fun_eq_iff map_add_def split: option.splits)
qed

lemma changestate_rep:
  assumes rep: "blocks_rep m st" and leg: "legal m type ser"
  obtains st' where "changestate st type ser = Some st'" "blocks_rep (step_open m type ser) st'"
proof -
  let ?P = "\<lambda>x. \<not> SL_SER x \<le> ser"
  define larger rest where "larger = takeWhile ?P st" and "rest = dropWhile ?P st"
  have st: "st = larger @ rest" by (simp add: larger_def rest_def)
  have sorted: "sorted_wrt (\<lambda>x y. SL_SER y < SL_SER x) larger" "sorted_wrt (\<lambda>x y. SL_SER y < SL_SER x) rest"
    "\<And>x y. x \<in> set larger \<Longrightarrow> y \<in> set rest \<Longrightarrow> SL_SER y < SL_SER x"
    using rep unfolding blocks_rep_def st by (auto simp: sorted_wrt_append)
  have m: "m = map_of (map entry_of larger @ map entry_of rest)" "m 0 = None" using rep unfolding blocks_rep_def st map_append by blast+
  have lg: "ser < SL_SER x" if "x \<in> set larger" for x using that set_takeWhileD unfolding larger_def by fastforce
  have me: "m (SL_SER x) = Some (SL_INS x)" if "x \<in> set st" for x by (rule rep_mem [OF rep that])
  have no: "\<not> list_ex SL_INS larger"
    unfolding list_ex_iff
  proof safe
    fix x assume "x \<in> set larger" "SL_INS x"
    then show False using lg me [of x] leg by (auto simp: legal_def st)
  qed
  have rs: "SL_SER y \<le> ser" if "y \<in> set rest" for y
  proof (cases rest)
    case (Cons a as)
    have "SL_SER a \<le> ser" using Cons hd_dropWhile [of ?P st] by (simp add: rest_def)
    then show ?thesis using sorted(2) that Cons by (auto intro: order_trans less_imp_le)
  qed (use that in simp)
  have c: "changestate st type ser = (if type = CHR ''E'' then
      (case rest of [] \<Rightarrow> None | x # xs \<Rightarrow> if SL_SER x = ser then Some (larger @ xs) else None)
      else Some (larger @ SL_SET ser (type = CHR ''I'') # rest))"
    using leg no unfolding changestate_def Let_def larger_def [symmetric] rest_def [symmetric] by (simp add: legal_def)
  have kl: "ser \<notin> fst ` set (map entry_of larger)" using lg by (fastforce simp: entry_of_def)
  show ?thesis
  proof (cases "type = CHR ''E''")
    case False
    let ?x = "SL_SET ser (type = CHR ''I'')"
    have x: "SL_SER ?x = ser" "SL_INS ?x = (type = CHR ''I'')" using SL_SET_parts leg by (simp_all add: legal_def)
    have "m ser = None" using leg False by (simp add: legal_def)
    then have "SL_SER y \<noteq> ser" if "y \<in> set rest" for y using me [of y] that by (auto simp: st)
    then have "SL_SER y < ser" if "y \<in> set rest" for y using rs that by (metis le_less)
    then have "sorted_wrt (\<lambda>x y. SL_SER y < SL_SER x) (larger @ ?x # rest)"
      using sorted lg by (auto simp: sorted_wrt_append x)
    moreover have "map_of (map entry_of (larger @ ?x # rest)) = step_open m type ser"
      using map_of_insert_mid [OF kl, of "type = CHR ''I''" "map entry_of rest"] False unfolding m(1) by (simp add: step_open_def entry_of_def x)
    moreover have "step_open m type ser 0 = None" using m(2) leg by (auto simp: step_open_def legal_def)
    ultimately show ?thesis using that c False by (simp add: blocks_rep_def)
  next
    case True
    have "m ser \<noteq> None" using leg True by (simp add: legal_def)
    then have "ser \<in> SL_SER ` set st" unfolding m(1) by (auto simp: map_of_eq_None_iff entry_of_def st)
    then obtain y where y: "y \<in> set st" "SL_SER y = ser" by blast
    then have "y \<in> set rest" using lg by (auto simp: st)
    then obtain a as where r: "rest = a # as" by (cases rest) auto
    have a: "SL_SER a = ser"
    proof (rule ccontr)
      assume ne: "SL_SER a \<noteq> ser"
      then have "y \<in> set as" using \<open>y \<in> set rest\<close> y(2) r by auto
      then have "ser < SL_SER a" using sorted(2) r y(2) by auto
      then show False using rs [of a] r by auto
    qed
    have "sorted_wrt (\<lambda>x y. SL_SER y < SL_SER x) (larger @ as)" using sorted r by (auto simp: sorted_wrt_append)
    moreover have "map_of (map entry_of (larger @ as)) = step_open m type ser"
    proof -
      have "ser \<notin> fst ` set (map entry_of as)" using sorted(2) r a by (fastforce simp: entry_of_def)
      then have n: "map_of (map entry_of larger @ map entry_of as) ser = None" using kl by (auto simp: map_of_eq_None_iff image_Un)
      have "m = (map_of (map entry_of larger @ map entry_of as))(ser \<mapsto> SL_INS a)"
        using map_of_insert_mid [OF kl, of "SL_INS a" "map entry_of as"] unfolding m(1) by (simp add: r entry_of_def a)
      then show ?thesis using True n by (simp add: step_open_def fun_eq_iff)
    qed
    moreover have "step_open m type ser 0 = None" using m(2) by (simp add: step_open_def True)
    ultimately show ?thesis using that c True r a by (simp add: blocks_rep_def)
  qed
qed

section \<open>What \<open>get\<close> prints\<close>

abbreviation active :: "slist \<Rightarrow> u32 \<Rightarrow> bool" where
  "active sl \<equiv> \<lambda>t. sl (unat t) \<noteq> 0"

definition lines_sum :: "string list \<Rightarrow> u32" where
  "lines_sum xs = sum_list (map sum_bytes xs) + 10 * of_nat (length xs)"

text \<open>After the lines \<open>xs\<close> have been printed, with the open blocks \<open>m\<close>.\<close>

definition get_inv :: "string \<Rightarrow> bool \<Rightarrow> bool \<Rightarrow> slist \<Rightarrow> opens \<Rightarrow> string list \<Rightarrow> getst \<Rightarrow> bool" where
  "get_inv eol sumonly cksum sl m xs g \<longleftrightarrow>
     blocks_rep m (g_state g) \<and> g_print g = printstate (g_state g) sl \<and> g_lines g = of_nat (length xs) \<and>
     (g_lf g \<noteq> 0 \<longrightarrow> xs \<noteq> []) \<and>
     g_out g = (if sumonly then [] else join eol xs @ (if xs = [] \<or> g_lf g \<noteq> 0 then [] else eol)) \<and>
     g_sum g = (if cksum then lines_sum xs - (if g_lf g \<noteq> 0 then 10 else 0) else 0)"

lemma join_snoc: "join sep (xs @ [x]) = join sep xs @ (if xs = [] then [] else sep) @ x"
proof (induction xs)
  case (Cons y ys)
  then show ?case by (cases ys) auto
qed simp

lemma shown_nonzero: "blocks_rep m st \<Longrightarrow> shown A m i \<Longrightarrow> i \<noteq> 0"
  by (auto simp: blocks_rep_def shown_def is_cur_def)

lemma print_shown: "blocks_rep m st \<Longrightarrow> printstate st sl \<noteq> 0 \<longleftrightarrow> (\<exists>i. shown (active sl) m i)"
  using printstate_shown [of m st _ sl] shown_nonzero by metis

lemma put_lf_inv:
  assumes "get_inv eol sumonly cksum sl m xs g" "g_lf g \<noteq> 0"
  shows "get_inv eol sumonly cksum sl m xs (put_lf eol sumonly cksum g)" "g_lf (put_lf eol sumonly cksum g) = 0"
  using assms by (auto simp: get_inv_def put_lf_def)

lemma get_data_inv:
  assumes inv: "get_inv eol sumonly cksum sl m xs g"
  shows "get_inv eol sumonly cksum sl m (if \<exists>i. shown (active sl) m i then xs @ [unescape buf] else xs) (get_data eol sumonly cksum buf g)"
proof -
  define h where "h = g\<lparr>g_cnt := (g_cnt g)(g_counter g := g_cnt g (g_counter g) + 1)\<rparr>"
  have h: "get_inv eol sumonly cksum sl m xs h" using inv by (simp add: get_inv_def h_def)
  have p: "g_print h \<noteq> 0 \<longleftrightarrow> (\<exists>i. shown (active sl) m i)" using h print_shown [of m "g_state h" sl] by (simp add: get_inv_def)
  show ?thesis
  proof (cases "g_print h = 0")
    case True
    have "get_data eol sumonly cksum buf g =
        (if g_lf h \<noteq> 0 \<and> g_lf h = whatstate (g_state h) then put_lf eol sumonly cksum h else h)"
      using True unfolding get_data_def h_def [symmetric] Let_def by simp
    then show ?thesis using True p h put_lf_inv(1) [OF h] by auto
  next
    case False
    define h1 where "h1 = (if g_lf h \<noteq> 0 then put_lf eol sumonly cksum (h\<lparr>g_lines := g_lines h + 1\<rparr>) else h\<lparr>g_lines := g_lines h + 1\<rparr>)"
    have e: "get_data eol sumonly cksum buf g = put_text sumonly cksum (unescape buf) h1"
      using False unfolding get_data_def h_def [symmetric] Let_def h1_def by simp
    have f: "g_state h1 = g_state h" "g_print h1 = g_print h" "g_lines h1 = g_lines h + 1"
      "g_out h1 = (if sumonly then [] else join eol xs @ (if xs = [] then [] else eol))" "g_sum h1 = (if cksum then lines_sum xs else 0)"
      using h by (auto simp: h1_def put_lf_def get_inv_def)
    show ?thesis
      using False p h f unfolding e by (auto simp: get_inv_def put_text_def join_snoc lines_sum_def)
  qed
qed

lemma get_ctl_inv:
  assumes inv: "get_inv eol sumonly cksum sl m xs g" and leg: "legal m (ctl_type buf) (ctl_ser buf)" and d: "d \<noteq> 0" "sl (unat d) \<noteq> 0"
  obtains g' where "get_ctl eol sumonly cksum sl d buf g = Some g'"
    "get_inv eol sumonly cksum sl (step_open m (ctl_type buf) (ctl_ser buf)) xs g'"
proof -
  define h where "h = (if ctl_type buf = CHR ''E'' \<and> g_lf g = ctl_ser buf \<and> whatstate (g_state g) = ctl_ser buf
               then (if \<not> ctl_nolf buf then put_lf eol sumonly cksum g else g\<lparr>g_nonl := True\<rparr>) else g)"
  have "ctl_ser buf \<noteq> 0" using leg by (simp add: legal_def)
  then have h: "get_inv eol sumonly cksum sl m xs h" using put_lf_inv(1) [OF inv] inv by (auto simp: h_def) (simp add: get_inv_def)
  have "blocks_rep m (g_state h)" using h by (simp add: get_inv_def)
  then obtain st where st: "changestate (g_state h) (ctl_type buf) (ctl_ser buf) = Some st" "blocks_rep (step_open m (ctl_type buf) (ctl_ser buf)) st"
    using changestate_rep leg by blast
  let ?g = "h\<lparr>g_state := st, g_print := printstate st sl\<rparr>"
  have g: "get_inv eol sumonly cksum sl (step_open m (ctl_type buf) (ctl_ser buf)) xs ?g"
    using h st(2) by (simp add: get_inv_def)
  have c: "\<exists>c. get_counter sl d ?g = Some c" using d(2) by (simp add: get_counter_def delstate_def)
  have e: "get_ctl eol sumonly cksum sl d buf g = (if cksum then map_option (\<lambda>c. ?g\<lparr>g_counter := c\<rparr>) (get_counter sl d ?g) else Some ?g)"
    using d(1) st(1) unfolding get_ctl_def Let_def h_def [symmetric] by simp
  show ?thesis
  proof (cases cksum)
    case True
    obtain c where "get_counter sl d ?g = Some c" using c by blast
    then show ?thesis using that [of "?g\<lparr>g_counter := c\<rparr>"] e True g by (simp add: get_inv_def)
  qed (use that e g in simp)
qed

lemma get_loop_inv:
  assumes d: "d \<noteq> 0" "sl (unat d) \<noteq> 0"
  shows "get_inv eol sumonly cksum sl m xs g \<Longrightarrow> legal_weave ws m \<Longrightarrow>
    \<exists>g' m'. get_loop eol sumonly cksum sl d ws g = Some g' \<and> get_inv eol sumonly cksum sl m' (xs @ shown_lines (active sl) ws m) g'"
proof (induction ws arbitrary: m xs g)
  case (Cons buf ws)
  show ?case
  proof (cases "isData buf")
    case True
    then have l: "legal_weave ws m" using Cons.prems(2) by simp
    have e: "(if \<exists>i. shown (active sl) m i then xs @ [unescape buf] else xs) @ shown_lines (active sl) ws m = xs @ shown_lines (active sl) (buf # ws) m"
      using True by simp
    show ?thesis using Cons.IH [OF get_data_inv [OF Cons.prems(1), of buf] l] True unfolding e by simp
  next
    case False
    then have l: "legal m (ctl_type buf) (ctl_ser buf)" "legal_weave ws (step_open m (ctl_type buf) (ctl_ser buf))" using Cons.prems(2) by simp_all
    obtain g' where g': "get_ctl eol sumonly cksum sl d buf g = Some g'" "get_inv eol sumonly cksum sl (step_open m (ctl_type buf) (ctl_ser buf)) xs g'"
      using get_ctl_inv [OF Cons.prems(1) l(1) d] by blast
    show ?thesis using Cons.IH [OF g'(2) l(2)] False g'(1) by simp
  qed
qed auto

lemma get_init_inv: "get_inv eol sumonly cksum sl Map.empty [] get_init"
  by (simp add: get_inv_def get_init_def blocks_rep_def lines_sum_def)

text \<open>No line belongs directly to the root delta (its entry in the map is left as marks).\<close>

fun rootless :: "string list \<Rightarrow> opens \<Rightarrow> bool" where
  "rootless [] m \<longleftrightarrow> True"
| "rootless (buf # ws) m \<longleftrightarrow>
     (if isData buf then \<not> is_cur m 1 \<and> rootless ws m else rootless ws (step_open m (ctl_type buf) (ctl_ser buf)))"

lemma shown_lines_cong:
  assumes "\<And>k. k \<noteq> 1 \<Longrightarrow> L k \<Longrightarrow> A k = B k"
  shows "rootless ws m \<Longrightarrow> \<forall>buf\<in>set ws. isData buf \<or> L (ctl_ser buf) \<Longrightarrow> \<forall>k. m k \<noteq> None \<longrightarrow> L k \<and> k \<noteq> 0 \<Longrightarrow>
    legal_weave ws m \<Longrightarrow> shown_lines A ws m = shown_lines B ws m"
proof (induction ws arbitrary: m)
  case (Cons buf ws)
  show ?case
  proof (cases "isData buf")
    case True
    have "shown A m i = shown B m i" for i
    proof (cases "is_cur m i")
      case cur: True
      then have "i \<noteq> 1" "i \<noteq> 0" "L i" using Cons.prems(1,3) True by (auto simp: is_cur_def)
      have "0 < i" using \<open>i \<noteq> 0\<close> by (simp add: word_neq_0_conv)
      then have "1 \<le> i" by (simp add: word_le_nat_alt word_less_nat_alt)
      then have "A j = B j" if "i < j" "m j = Some False" for j
        using assms [of j] that Cons.prems(3) by (auto dest: le_less_trans)
      then show ?thesis using assms [of i] \<open>i \<noteq> 1\<close> \<open>L i\<close> by (auto simp: shown_def)
    qed (simp add: shown_def)
    then have "shown A m = shown B m" by (rule ext)
    then show ?thesis using Cons True by simp
  next
    case False
    have "\<forall>k. step_open m (ctl_type buf) (ctl_ser buf) k \<noteq> None \<longrightarrow> L k \<and> k \<noteq> 0"
      using Cons.prems(2,3,4) False by (auto simp: step_open_def legal_def)
    then show ?thesis using Cons False by simp
  qed
qed simp

section \<open>Properties\<close>

text \<open>
  C38. Getting a version prints it.  The set of deltas from \<open>serialmap\<close>, for a tip and user lists that
  do not take the tip away, drives the pass over a legal weave: no assertion fails, and the
  output is exactly the lines whose own delta is in the version and which no delta of the version
  deletes, in the order of the weave, each with a line end but possibly the last; the checksum is
  the sum of their bytes, counting a line feed for every line end.
\<close>

theorem get_version:
  assumes wf: "wf_graph s" and d: "live s (unat d)" "d \<noteq> 1"
    and inc: "revs_of s iLst = Some incs" "\<forall>t\<in>set incs. live s t"
    and exc: "revs_of s xLst = Some excs" "\<forall>t\<in>set excs. live s t"
    and dis: "set incs \<inter> set excs = {}" and tip: "view s (tips (unat d) 0) (user_pre incs excs) (unat d)"
    and leg: "legal_weave ws Map.empty" "rootless ws Map.empty" "\<forall>buf\<in>set ws. isData buf \<or> live s (unat (ctl_ser buf))"
  shows "\<exists>sl g. serialmap s (unat d) 0 iLst xLst = Some (Inr sl) \<and> get_loop eol False True sl d ws get_init = Some g \<and>
    (let xs = shown_lines (\<lambda>t. view s (tips (unat d) 0) (user_pre incs excs) (unat t)) ws Map.empty
     in g_lines g = of_nat (length xs) \<and> g_out g = join eol xs @ (if xs = [] \<or> g_lf g \<noteq> 0 then [] else eol) \<and>
        g_sum g = lines_sum xs - (if g_lf g \<noteq> 0 then 10 else 0))"
proof -
  let ?V = "view s (tips (unat d) 0) (user_pre incs excs)"
  obtain sl where sl: "serialmap s (unat d) 0 iLst xLst = Some (Inr sl)"
    "\<forall>t. live s t \<and> t \<noteq> 1 \<longrightarrow> sl t = (if ?V t then 1 else 0)"
    using serialmap_map [OF wf d(1) _ inc exc dis, of 0] by blast
  have u1: "unat k \<noteq> 1" if "k \<noteq> 1" for k :: u32 using that by (simp add: word_unat_eq_iff)
  have act: "active sl k = ?V (unat k)" if "k \<noteq> 1" "live s (unat k)" for k using sl(2) that u1 by auto
  have "d \<noteq> 0" using d(1) by (auto simp: live_def)
  moreover have "sl (unat d) \<noteq> 0" using act d tip by blast
  ultimately obtain g m' where g: "get_loop eol False True sl d ws get_init = Some g" "get_inv eol False True sl m' (shown_lines (active sl) ws Map.empty) g"
    using get_loop_inv [OF _ _ get_init_inv leg(1), of d sl eol False True] by auto
  have "shown_lines (active sl) ws Map.empty = shown_lines (\<lambda>t. ?V (unat t)) ws Map.empty"
    by (rule shown_lines_cong [where L = "\<lambda>k. live s (unat k)"]) (use act leg in auto)
  then show ?thesis using sl(1) g unfolding get_inv_def by (intro exI [of _ sl] exI [of _ g]) (simp add: Let_def)
qed

definition ex_weave :: "string list" where
  "ex_weave =
     [CHR 0x01 # ''I 2'', ''one'', CHR 0x01 # ''D 3'', ''two'', CHR 0x01 # ''E 3'',
      CHR 0x01 # ''I 4'', ''three'', CHR 0x01 # ''E 4'', CHR 0x01 # ''E 2'']"

lemma ex_ctl:
  "isData (CHR 0x01 # ''I 2'') = False" "isData (CHR 0x01 # ''D 3'') = False" "isData (CHR 0x01 # ''E 3'') = False" "isData (CHR 0x01 # ''I 4'') = False"
  "isData (CHR 0x01 # ''E 4'') = False" "isData (CHR 0x01 # ''E 2'') = False" "isData ''one'' = True" "isData ''two'' = True" "isData ''three'' = True"
  "ctl_type (CHR 0x01 # ''I 2'') = CHR ''I''" "ctl_ser (CHR 0x01 # ''I 2'') = 2" "ctl_type (CHR 0x01 # ''D 3'') = CHR ''D''" "ctl_ser (CHR 0x01 # ''D 3'') = 3"
  "ctl_type (CHR 0x01 # ''E 3'') = CHR ''E''" "ctl_ser (CHR 0x01 # ''E 3'') = 3" "ctl_type (CHR 0x01 # ''I 4'') = CHR ''I''" "ctl_ser (CHR 0x01 # ''I 4'') = 4"
  "ctl_type (CHR 0x01 # ''E 4'') = CHR ''E''" "ctl_ser (CHR 0x01 # ''E 4'') = 4" "ctl_type (CHR 0x01 # ''E 2'') = CHR ''E''" "ctl_ser (CHR 0x01 # ''E 2'') = 2"
  "unescape ''one'' = ''one''" "\<not> SL_INS 2" "\<not> SL_INS 3" "\<not> SL_INS 4"
  by code_simp+

lemma ex_weave_legal: "legal_weave ex_weave Map.empty" "rootless ex_weave Map.empty"
  by (simp_all add: ex_weave_def ex_ctl legal_def step_open_def is_cur_def)

lemma ex_weave_shown:
  assumes "A 2" "A 3" "\<not> A 4"
  shows "shown_lines A ex_weave Map.empty = [''one'']"
proof -
  have "shown A [2 \<mapsto> True] 2" using assms by (simp add: shown_def is_cur_def)
  moreover have "\<not> shown A [2 \<mapsto> True, 3 \<mapsto> False] i" for i
    using assms by (auto simp: shown_def is_cur_def split: if_splits intro!: exI [of _ 3])
  moreover have "\<not> shown A [2 \<mapsto> True, 4 \<mapsto> True] i" for i
    using assms by (auto simp: shown_def is_cur_def split: if_splits intro!: exI [of _ 4])
  moreover have "([2 \<mapsto> True, 3 \<mapsto> False])(3 := None) = ([2 \<mapsto> True] :: opens)" "([2 \<mapsto> True, 4 \<mapsto> True])(4 := None) = ([2 \<mapsto> True] :: opens)" by (auto simp: fun_eq_iff)
  ultimately show ?thesis by (auto simp: ex_weave_def ex_ctl step_open_def)
qed

theorem get_version_witness:
  "\<exists>sl g. serialmap ex_file 3 0 (Some ''1.2-1.3'') (Some ''1.2.1.1'') = Some (Inr sl) \<and>
     get_loop [CHR 0x0A] False True sl 3 ex_weave get_init = Some g \<and> g_lines g = 1 \<and> take 3 (g_out g) = ''one''"
proof -
  have h: "live ex_file 4" "live ex_file 3" "live ex_file 2" by code_simp+
  have r: "revs_of ex_file (Some ''1.2.1.1'') = Some [4]" "revs_of ex_file (Some ''1.2-1.3'') = Some [3, 2]" by code_simp+
  have v: "view ex_file (tips 3 0) (user_pre [3, 2] [4]) 2" "view ex_file (tips 3 0) (user_pre [3, 2] [4]) 3" "\<not> view ex_file (tips 3 0) (user_pre [3, 2] [4]) 4"
    by (simp_all add: view_def in_view_votes user_pre_def)
  have l: "\<forall>buf\<in>set ex_weave. isData buf \<or> live ex_file (unat (ctl_ser buf))"
    using h by (simp add: ex_weave_def ex_ctl)
  have xs: "shown_lines (\<lambda>t. view ex_file (tips (unat (3 :: u32)) 0) (user_pre [3, 2] [4]) (unat t)) ex_weave Map.empty = [''one'']"
    using v by (intro ex_weave_shown) simp_all
  from get_version [OF ex_file_wf _ _ r(2) _ r(1) _ _ _ ex_weave_legal l, of 3 "[CHR 0x0A]"] show ?thesis
    unfolding xs Let_def using h v by fastforce
qed

end
