(* ===== verification/BK_Fastsum.thy ===== *)
theory BK_Fastsum
  imports BK_Weave
begin

text \<open>
  The cached checksums of \<open>fastsum\<close> (\<open>slib.c\<close>) against the pass of \<open>get_reg\<close> over the weave.
  \<open>fastsum\<close> adds up the lines of the weave once, per block of lines that have the same insertion and
  the same open deletions, and classifies whole blocks afterwards; \<open>get_reg\<close> classifies line by line
  and holds back the line feed of the last line.  The two are run in step under a joint invariant.
\<close>

section \<open>Blocks\<close>

lemma SL_small:
  assumes "n < 2 ^ 31"
  shows "SL_SER (of_nat n) = of_nat n" "\<not> SL_INS (of_nat n)"
proof -
  have "take_bit 31 (of_nat n :: u32) = of_nat n"
    using assms by (simp add: take_bit_nat_eq_self flip: of_nat_take_bit)
  moreover have "SL_SER x = take_bit 31 x" for x by (rule bit_word_eqI) (auto simp: SL_bits(4) bit_take_bit_iff)
  ultimately show "SL_SER (of_nat n) = of_nat n" by simp
  then have "bit (of_nat n :: u32) 31 \<longleftrightarrow> bit (SL_SER (of_nat n)) 31" by simp
  then show "\<not> SL_INS (of_nat n)" by (simp add: SL_bits(3,4))
qed

text \<open>The sum of a field over the blocks of a class.\<close>

definition sum_of :: "(u32 list \<Rightarrow> counter) \<Rightarrow> counter set \<Rightarrow> (sumdata \<Rightarrow> u32) \<Rightarrow> sumdata list \<Rightarrow> u32" where
  "sum_of cls C f bs = sum_list (map (\<lambda>b. if cls (fs_key b) \<in> C then f b else 0) bs)"

lemma sum_of_update:
  assumes "i < length bs" "fs_key b = fs_key (bs ! i)"
  shows "sum_of cls C f (bs[i := b]) = sum_of cls C f bs + (if cls (fs_key b) \<in> C then f b - f (bs ! i) else 0)"
proof -
  have "bs = take i bs @ bs ! i # drop (Suc i) bs" using assms(1) by (simp add: Cons_nth_drop_Suc)
  from arg_cong [OF this, of "sum_of cls C f"] show ?thesis
    using assms by (simp add: upd_conv_take_nth_drop sum_of_def)
qed

lemma find_block_spec:
  "find_block k bs < length bs \<Longrightarrow> fs_key (bs ! find_block k bs) = k"
  "find_block k bs \<le> length bs"
  "\<not> find_block k bs < length bs \<Longrightarrow> k \<notin> fs_key ` set bs"
proof -
  show "fs_key (bs ! find_block k bs) = k" if "find_block k bs < length bs"
    using nth_length_takeWhile [of "\<lambda>b. fs_key b \<noteq> k" bs] that by (simp add: find_block_def)
  show "find_block k bs \<le> length bs" by (simp add: find_block_def length_takeWhile_le)
  assume "\<not> find_block k bs < length bs"
  then have "length (takeWhile (\<lambda>b. fs_key b \<noteq> k) bs) = length bs" using length_takeWhile_le [of "\<lambda>b. fs_key b \<noteq> k" bs] by (simp add: find_block_def)
  then have "takeWhile (\<lambda>b. fs_key b \<noteq> k) bs = bs" by (metis takeWhile_eq_take take_all order_refl)
  then show "k \<notin> fs_key ` set bs" by (metis (mono_tags, lifting) imageE set_takeWhileD)
qed

lemma find_block_first:
  assumes "distinct (map fs_key bs)" "i < length bs" "fs_key (bs ! i) = k"
  shows "find_block k bs = i"
proof -
  have l: "find_block k bs < length bs" using find_block_spec(3) [of k bs] assms(2,3) by (metis imageI nth_mem)
  from find_block_spec(1) [OF l] show ?thesis using assms l by (metis distinct_conv_nth length_map nth_map)
qed

lemma add_block_spec:
  fixes k bs defines "i \<equiv> find_block k bs" and "as \<equiv> add_block k bs"
  shows "i < length as" "fs_key (as ! i) = k" "length bs \<le> length as" "\<And>j. j < length bs \<Longrightarrow> as ! j = bs ! j"
    "\<And>j. j < length as \<Longrightarrow> \<not> j < length bs \<Longrightarrow> j = i \<and> as ! j = \<lparr>fs_key = k, fs_sum = 0, fs_lines = 0, fs_seq = 0\<rparr>"
    "distinct (map fs_key bs) \<Longrightarrow> distinct (map fs_key as)" "sum_of cls C f as = sum_of cls C f bs \<or> \<not> (f = fs_sum \<or> f = fs_lines)"
  using find_block_spec [of k bs] unfolding i_def as_def add_block_def
  by (auto simp: nth_append sum_of_def less_Suc_eq split: if_splits)

text \<open>Flushing several lines is flushing them one by one.\<close>

lemma flush_line:
  assumes "f_lines f = 0 \<longrightarrow> f_sum f = 0" "f_lines f + 1 \<noteq> 0" "distinct (map fs_key (f_blocks f))"
  shows "fast_flush (f\<lparr>f_sum := f_sum f + x, f_lines := f_lines f + 1\<rparr>) =
    Option.bind (fast_flush f) (\<lambda>h. fast_flush (h\<lparr>f_sum := x, f_lines := 1\<rparr>))"
proof (cases "f_lines f = 0")
  case True
  then show ?thesis using assms(1) by (simp add: fast_flush_def)
next
  case False
  show ?thesis
  proof (cases "block_key (f_state f)")
    case None
    then show ?thesis using False assms(2) by (simp add: fast_flush_def)
  next
    case (Some k)
    show ?thesis
    proof (cases "f_stack f")
      case Nil
      then show ?thesis using False assms(2) Some by (simp add: fast_flush_def)
    next
      case (Cons t ts)
      define i as where "i = find_block k (f_blocks f)" and "as = add_block k (f_blocks f)"
      note a = add_block_spec(1,2) [of k "f_blocks f", folded i_def as_def] add_block_spec(6) [OF assms(3), of k, folded as_def]
      define b where "b = (as ! i)\<lparr>fs_sum := fs_sum (as ! i) + f_sum f, fs_lines := fs_lines (as ! i) + f_lines f, fs_seq := f_seq f + f_lines f\<rparr>"
      have "map fs_key (as[i := b]) = map fs_key as" using a by (simp add: map_update b_def list_update_same_conv)
      then have "distinct (map fs_key (as[i := b]))" using a(3) by simp
      then have fi: "find_block k (as[i := b]) = i" using a(1,2) by (intro find_block_first) (simp_all add: b_def)
      then have ad: "add_block k (as[i := b]) = as[i := b]" using a(1) by (simp add: add_block_def)
      have "fast_flush f = Some (f\<lparr>f_blocks := as[i := b], f_seq := f_seq f + f_lines f, f_stack := Some i # ts, f_sum := 0, f_lines := 0\<rparr>)"
        using False Some Cons unfolding fast_flush_def by (simp add: i_def as_def b_def Let_def)
      then show ?thesis
        using False Some Cons assms(2) a(1) unfolding fast_flush_def by (simp add: fi ad Let_def flip: i_def as_def) (simp add: b_def add.assoc)
    qed
  qed
qed

section \<open>The class of a block\<close>

definition cls :: "slist \<Rightarrow> u32 \<Rightarrow> u32 list \<Rightarrow> counter" where
  "cls sl this k = (if sl (unat (hd k)) = 0 then Other else if hd k = this then Added else fast_dels sl this (tl k))"

text \<open>The set of deltas is that of a version with the tip \<open>this\<close>.\<close>

definition tip_of :: "slist \<Rightarrow> u32 \<Rightarrow> bool" where
  "tip_of sl this \<longleftrightarrow> this \<noteq> 0 \<and> sl (unat this) \<noteq> 0 \<and> (\<forall>t. sl t \<noteq> 0 \<longrightarrow> t \<le> unat this)"

lemma printstate_split:
  "\<forall>d\<in>set ds. \<not> SL_INS d \<Longrightarrow> SL_INS x \<Longrightarrow>
   printstate (ds @ x # xs) sl = (if (\<exists>d\<in>set ds. active sl d) \<or> \<not> active sl (SL_SER x) then 0 else SL_SER x)"
  by (induction ds) (auto simp: SL_SER_id)

lemma whatstate_split: "\<forall>d\<in>set ds. \<not> SL_INS d \<Longrightarrow> SL_INS x \<Longrightarrow> whatstate (ds @ x # xs) = SL_SER x"
  by (induction ds) auto

lemma delstate_split:
  "\<forall>d\<in>set ds. \<not> SL_INS d \<Longrightarrow> SL_INS x \<Longrightarrow>
   delstate_loop this (ds @ x # xs) sl ok =
     (if \<exists>d\<in>set ds. d \<noteq> this \<and> active sl d then 0 else if (ok \<or> this \<in> set ds) \<and> active sl (SL_SER x) then SL_SER x else 0)"
  by (induction ds arbitrary: ok) (auto simp: SL_SER_id)

lemma fast_dels_split:
  assumes "tip_of sl this"
  shows "sorted_wrt (<) es \<Longrightarrow>
    fast_dels sl this es = (if \<exists>e\<in>set es. e \<noteq> this \<and> active sl e then Other else if this \<in> set es then Deleted else Same)"
proof (induction es)
  case (Cons e es)
  show ?case
  proof (cases "e = this")
    case True
    have "\<not> active sl e'" if "e' \<in> set es" for e'
    proof
      assume "active sl e'"
      then have "e' \<le> this" using assms by (simp add: tip_of_def word_le_nat_alt)
      then show False using Cons.prems that True by auto
    qed
    then show ?thesis using True by auto
  qed (use Cons in auto)
qed simp

lemma block_key_split:
  assumes "blocks_rep m st" "block_key st = Some k"
  obtains ds x xs where "st = ds @ x # xs" "\<forall>d\<in>set ds. \<not> SL_INS d" "SL_INS x" "k = SL_SER x # rev ds" "sorted_wrt (<) (rev ds)" "SL_SER x \<noteq> 0"
proof -
  let ?P = "\<lambda>x. \<not> SL_INS x"
  obtain x xs where x: "dropWhile ?P st = x # xs" "k = SL_SER x # rev (takeWhile ?P st)"
    using assms(2) by (auto simp: block_key_def split: list.splits)
  have st: "st = takeWhile ?P st @ x # xs" by (simp flip: x(1))
  have ds: "\<forall>d\<in>set (takeWhile ?P st). \<not> SL_INS d" by (auto dest: set_takeWhileD)
  have ins: "SL_INS x" using hd_dropWhile [of ?P st] x(1) by simp
  have "sorted_wrt (\<lambda>x y. SL_SER y < SL_SER x) (takeWhile ?P st)"
    using assms(1) by (subst (asm) st) (auto simp: blocks_rep_def sorted_wrt_append)
  then have "sorted_wrt (\<lambda>x y. y < x) (takeWhile ?P st)"
    using ds by (auto simp: SL_SER_id sorted_wrt_iff_nth_less)
  then have "sorted_wrt (<) (rev (takeWhile ?P st))" by (simp add: sorted_wrt_rev)
  moreover have "SL_SER x \<noteq> 0" by (rule rep_nonzero [OF assms(1)]) (subst st, simp)
  ultimately show ?thesis using that st ds ins x(2) by blast
qed

lemma cls_state:
  assumes rep: "blocks_rep m st" and k: "block_key st = Some k" and tip: "tip_of sl this"
  shows "g_state g = st \<Longrightarrow> g_print g = printstate st sl \<Longrightarrow> get_counter sl this g = Some (cls sl this k)"
    "printstate st sl \<noteq> 0 \<longleftrightarrow> cls sl this k \<in> {Added, Same}"
    "printstate st sl \<noteq> 0 \<Longrightarrow> printstate st sl = hd k"
    "whatstate st = hd k" "hd k \<noteq> 0"
proof -
  obtain ds x xs where s: "st = ds @ x # xs" "\<forall>d\<in>set ds. \<not> SL_INS d" "SL_INS x" "k = SL_SER x # rev ds" "sorted_wrt (<) (rev ds)" "SL_SER x \<noteq> 0"
    using block_key_split [OF rep k] by blast
  have "sorted_wrt (\<lambda>x y. SL_SER y < SL_SER x) st" using rep by (simp add: blocks_rep_def)
  then have gt: "SL_SER x < d" if "d \<in> set ds" for d using that s(1,2) by (auto simp: sorted_wrt_append SL_SER_id)
  have lim: "e \<le> this" if "active sl e" for e using tip that by (simp add: tip_of_def word_le_nat_alt)
  note p = printstate_split [OF s(2,3), of xs sl] and d = delstate_split [OF s(2,3), of this xs sl False]
    and fd = fast_dels_split [OF tip s(5)]
  have act_this: "active sl this" using tip by (simp add: tip_of_def)
  have eq: "\<not> active sl d" if "SL_SER x = this" "d \<in> set ds" for d using gt [OF that(2)] lim [of d] that(1) by (meson leD)
  show "get_counter sl this g = Some (cls sl this k)" if "g_state g = st" "g_print g = printstate st sl"
    using that p d fd act_this eq s(6) tip unfolding s(1,4) by (auto simp: get_counter_def delstate_def cls_def tip_of_def)
  show "printstate st sl \<noteq> 0 \<longleftrightarrow> cls sl this k \<in> {Added, Same}"
    using p fd act_this eq s(6) unfolding s(1,4) by (auto simp: cls_def)
  show "printstate st sl = hd k" if "printstate st sl \<noteq> 0" using that p unfolding s(1,4) by (auto split: if_splits)
  show "whatstate st = hd k" "hd k \<noteq> 0" using whatstate_split [OF s(2,3)] s(6) unfolding s(1,4) by simp_all
qed

section \<open>The last line\<close>

abbreviation seq_at :: "sumdata list \<Rightarrow> nat \<Rightarrow> u32" where
  "seq_at bs j \<equiv> SL_SER (fs_seq (bs ! j))"

text \<open>
  The last line that is shown stands in the block with the largest sequence number among those
  that are shown.  Its line feed is held back while the block is the last one of an open insertion,
  and for ever when the block has been flagged.
\<close>

definition last_is :: "(u32 list \<Rightarrow> bool) \<Rightarrow> sumdata list \<Rightarrow> nat option list \<Rightarrow> u32 set \<Rightarrow> u32 \<Rightarrow> nat \<Rightarrow> bool" where
  "last_is act bs stk Z lf a \<longleftrightarrow>
     a < length bs \<and> act (fs_key (bs ! a)) \<and>
     (\<forall>j<length bs. j \<noteq> a \<and> act (fs_key (bs ! j)) \<longrightarrow> seq_at bs j < seq_at bs a) \<and>
     (lf \<noteq> 0 \<longleftrightarrow> Some a \<in> set stk \<or> SL_INS (fs_seq (bs ! a))) \<and> (lf \<noteq> 0 \<longrightarrow> lf = hd (fs_key (bs ! a))) \<and>
     \<not> (Some a \<in> set stk \<and> SL_INS (fs_seq (bs ! a))) \<and> (SL_INS (fs_seq (bs ! a)) \<longrightarrow> hd (fs_key (bs ! a)) \<in> Z)"

definition last_ok :: "(u32 list \<Rightarrow> bool) \<Rightarrow> sumdata list \<Rightarrow> nat option list \<Rightarrow> u32 set \<Rightarrow> u32 \<Rightarrow> bool" where
  "last_ok act bs stk Z lf \<longleftrightarrow> (lf = 0 \<and> (\<forall>b\<in>set bs. \<not> act (fs_key b))) \<or> (\<exists>a. last_is act bs stk Z lf a)"

text \<open>The entry on top of the stack is a block of the insertion \<open>s\<close>, the other entries are not.\<close>

definition tops :: "sumdata list \<Rightarrow> u32 \<Rightarrow> nat option list \<Rightarrow> bool" where
  "tops bs s stk \<longleftrightarrow> s \<noteq> 0 \<and> stk \<noteq> [] \<and> (\<forall>a. hd stk = Some a \<longrightarrow> a < length bs \<and> hd (fs_key (bs ! a)) = s) \<and> (\<forall>a. Some a \<in> set (tl stk) \<longrightarrow> a < length bs \<and> hd (fs_key (bs ! a)) \<noteq> s)"

lemma tops_mem: "tops bs s stk \<Longrightarrow> hd (fs_key (bs ! a)) = s \<Longrightarrow> Some a \<in> set stk \<longleftrightarrow> hd stk = Some a"
  "tops bs s stk \<Longrightarrow> hd (fs_key (bs ! a)) \<noteq> s \<Longrightarrow> Some a \<in> set stk \<longleftrightarrow> Some a \<in> set (tl stk)"
  "tops bs s stk \<Longrightarrow> hd (fs_key (bs ! a)) = s \<Longrightarrow> Some a \<notin> set (tl stk)"
  unfolding tops_def by (cases stk; auto)+

lemma last_pop:
  assumes "last_ok act bs stk Z lf" "tops bs s stk" "s \<notin> Z"
  shows "last_ok act bs (tl stk) Z (if lf = s then 0 else lf)"
proof -
  have "last_is act bs (tl stk) Z (if lf = s then 0 else lf) a" if "last_is act bs stk Z lf a" for a
  proof (cases "hd (fs_key (bs ! a)) = s")
    case True
    then have "\<not> SL_INS (fs_seq (bs ! a))" "Some a \<notin> set (tl stk)" "(if lf = s then 0 else lf) = 0"
      using that assms(3) tops_mem(3) [OF assms(2)] by (auto simp: last_is_def)
    then show ?thesis using that unfolding last_is_def by (simp only: simp_thms) simp
  next
    case False
    then have "Some a \<in> set stk \<longleftrightarrow> Some a \<in> set (tl stk)" "lf \<noteq> s"
      using that tops_mem(2) [OF assms(2)] assms(2) by (auto simp: last_is_def tops_def)
    then show ?thesis using that unfolding last_is_def by (simp only: if_False simp_thms) blast
  qed
  moreover have "(if lf = s then 0 else lf) = 0" if "lf = 0" using that by simp
  ultimately show ?thesis using assms(1) unfolding last_ok_def by blast
qed

lemma last_pop_nolf:
  assumes "last_ok act bs stk Z lf" "tops bs s stk" "s \<notin> Z" "hd stk = Some i"
  shows "last_ok act (bs[i := (bs ! i)\<lparr>fs_seq := SL_SET (fs_seq (bs ! i)) True\<rparr>]) (tl stk) (insert s Z) lf"
proof -
  let ?bs = "bs[i := (bs ! i)\<lparr>fs_seq := SL_SET (fs_seq (bs ! i)) True\<rparr>]"
  have i: "i < length bs" "hd (fs_key (bs ! i)) = s" using assms(2,4) by (auto simp: tops_def)
  have nth: "fs_key (?bs ! j) = fs_key (bs ! j)" "seq_at ?bs j = seq_at bs j" "SL_INS (fs_seq (?bs ! j)) \<longleftrightarrow> SL_INS (fs_seq (bs ! j)) \<or> j = i" if "j < length bs" for j
    using that i(1) by (cases "j = i"; simp add: SL_bits(1,2))+
  have "last_is act ?bs (tl stk) (insert s Z) lf a" if "last_is act bs stk Z lf a" for a
  proof -
    have a: "a < length bs" using that by (simp add: last_is_def)
    have mx: "\<forall>j<length bs. j \<noteq> a \<and> act (fs_key (?bs ! j)) \<longrightarrow> seq_at ?bs j < seq_at ?bs a"
      using that nth(1,2) a by (simp add: last_is_def del: nth_list_update_eq)
    show ?thesis
    proof (cases "hd (fs_key (bs ! a)) = s")
      case True
      then have "\<not> SL_INS (fs_seq (bs ! a))" "Some a \<notin> set (tl stk)" "Some a \<in> set stk \<longleftrightarrow> a = i"
        using that assms(3,4) tops_mem(1,3) [OF assms(2)] by (auto simp: last_is_def)
      then show ?thesis using that mx True unfolding last_is_def length_list_update nth [OF a] by (simp only: simp_thms insert_iff) blast
    next
      case False
      then have "Some a \<in> set stk \<longleftrightarrow> Some a \<in> set (tl stk)" "a \<noteq> i"
        using tops_mem(2) [OF assms(2)] i(2) by auto
      then show ?thesis using that mx unfolding last_is_def length_list_update nth [OF a] by (simp only: simp_thms insert_iff) blast
    qed
  qed
  moreover have "\<forall>b\<in>set ?bs. \<not> act (fs_key b)" if "\<forall>b\<in>set bs. \<not> act (fs_key b)"
    using that unfolding all_set_conv_all_nth length_list_update by (metis nth(1))
  ultimately show ?thesis using assms(1) unfolding last_ok_def by blast
qed

text \<open>The blocks after a line with the key \<open>k\<close> has been added to them.\<close>

definition add_line :: "u32 list \<Rightarrow> u32 \<Rightarrow> u32 \<Rightarrow> sumdata list \<Rightarrow> sumdata list" where
  "add_line k x seq bs =
     (let i = find_block k bs; as = add_block k bs
      in as[i := (as ! i)\<lparr>fs_sum := fs_sum (as ! i) + x, fs_lines := fs_lines (as ! i) + 1, fs_seq := seq\<rparr>])"

lemma add_line_spec:
  fixes k bs x seq defines "i \<equiv> find_block k bs" and "as \<equiv> add_line k x seq bs"
  shows "i < length as" "fs_key (as ! i) = k" "fs_seq (as ! i) = seq" "length bs \<le> length as"
    "\<And>j. j < length bs \<Longrightarrow> j \<noteq> i \<Longrightarrow> as ! j = bs ! j" "\<And>j. j < length bs \<Longrightarrow> fs_key (as ! j) = fs_key (bs ! j)"
    "\<And>j. j < length as \<Longrightarrow> \<not> j < length bs \<Longrightarrow> j = i"
    "distinct (map fs_key bs) \<Longrightarrow> distinct (map fs_key as)"
    "sum_of cl C fs_lines as = sum_of cl C fs_lines bs + (if cl k \<in> C then 1 else 0)"
    "sum_of cl C fs_sum as = sum_of cl C fs_sum bs + (if cl k \<in> C then x else 0)"
proof -
  define bs' where "bs' = add_block k bs"
  define b where "b = (bs' ! i)\<lparr>fs_sum := fs_sum (bs' ! i) + x, fs_lines := fs_lines (bs' ! i) + 1, fs_seq := seq\<rparr>"
  have as: "as = bs'[i := b]" by (simp add: as_def add_line_def bs'_def b_def i_def Let_def)
  note a = add_block_spec [where k = k and bs = bs, folded i_def bs'_def]
  have kb: "fs_key b = fs_key (bs' ! i)" by (simp add: b_def)
  show "i < length as" "fs_key (as ! i) = k" "fs_seq (as ! i) = seq" "length bs \<le> length as" using a(1-3) by (simp_all add: as b_def)
  show "as ! j = bs ! j" if "j < length bs" "j \<noteq> i" for j using a(4) that by (simp add: as)
  show "fs_key (as ! j) = fs_key (bs ! j)" if "j < length bs" for j using a(1,4) kb that by (cases "j = i") (simp_all add: as)
  show "j = i" if "j < length as" "\<not> j < length bs" for j using a(5) that by (simp add: as)
  have "map fs_key as = map fs_key bs'" unfolding as map_update kb using a(1) by (simp add: list_update_same_conv)
  then show "distinct (map fs_key as)" if "distinct (map fs_key bs)" using a(6) that by simp
  show "sum_of cl C fs_lines as = sum_of cl C fs_lines bs + (if cl k \<in> C then 1 else 0)"
    using sum_of_update [OF a(1) kb, of cl C fs_lines] a(7) [of cl C fs_lines] a(2) kb by (simp add: as b_def)
  show "sum_of cl C fs_sum as = sum_of cl C fs_sum bs + (if cl k \<in> C then x else 0)"
    using sum_of_update [OF a(1) kb, of cl C fs_sum] a(7) [of cl C fs_sum] a(2) kb by (simp add: as b_def)
qed

lemma last_shown:
  assumes "act k" "hd k \<noteq> 0" "\<forall>b\<in>set bs. SL_SER (fs_seq b) < SL_SER seq" "\<not> SL_INS seq"
  shows "last_ok act (add_line k x seq bs) (Some (find_block k bs) # stk) Z (hd k)"
proof -
  note a = add_line_spec [where k = k and bs = bs and x = x and seq = seq]
  have "seq_at (add_line k x seq bs) j < SL_SER seq" if "j < length (add_line k x seq bs)" "j \<noteq> find_block k bs" for j
    using a(5) [of j] a(7) [of j] assms(3) that by (metis nth_mem)
  then have "last_is act (add_line k x seq bs) (Some (find_block k bs) # stk) Z (hd k) (find_block k bs)"
    unfolding last_is_def using a(1-3) assms by auto
  then show ?thesis unfolding last_ok_def by blast
qed

lemma last_hidden:
  assumes "last_ok act bs stk Z lf" "\<not> act k" "tops bs (hd k) stk" "hd k \<notin> Z"
  shows "last_ok act (add_line k x seq bs) (Some (find_block k bs) # tl stk) Z (if lf = hd k then 0 else lf)"
proof -
  note a = add_line_spec [where k = k and bs = bs and x = x and seq = seq]
  let ?as = "add_line k x seq bs"
  have old: "j < length bs \<and> j \<noteq> find_block k bs \<and> ?as ! j = bs ! j" if "j < length ?as" "act (fs_key (?as ! j))" for j
    using a(2) a(5) [of j] a(7) [of j] that assms(2) by metis
  have "last_is act ?as (Some (find_block k bs) # tl stk) Z lf' i" if l: "last_is act bs (tl stk) Z lf' i" for i lf'
  proof -
    have i: "i < length ?as" "act (fs_key (?as ! i))" using l a(4,6) by (simp_all add: last_is_def)
    have "seq_at ?as j < seq_at ?as i" if "j < length ?as" "j \<noteq> i" "act (fs_key (?as ! j))" for j
      using old [OF i] old [of j] that l by (simp add: last_is_def)
    then show ?thesis using old [OF i] i l by (simp add: last_is_def) metis
  qed
  moreover have "\<forall>b\<in>set ?as. \<not> act (fs_key b)" if "\<forall>b\<in>set bs. \<not> act (fs_key b)"
    using that old unfolding all_set_conv_all_nth by metis
  ultimately show ?thesis using last_pop [OF assms(1,3,4)] unfolding last_ok_def by blast
qed

section \<open>The two passes in step\<close>

abbreviation is_active :: "slist \<Rightarrow> u32 \<Rightarrow> u32 list \<Rightarrow> bool" where
  "is_active sl this k \<equiv> cls sl this k \<in> {Added, Same}"

text \<open>
  What the checksums rely on beyond a legal weave.  Data stands inside of an insertion, and all
  insertions are closed at the end.  An insertion that is closed without a line feed has lines of
  its own, and its delta opens no insertion afterwards.  \<open>own\<close> are the open insertions with lines,
  \<open>Z\<close> the deltas whose insertion was closed without a line feed.
\<close>

definition own_line :: "opens \<Rightarrow> u32 set \<Rightarrow> u32 set" where
  "own_line m own = own \<union> {i. is_cur m i}"

definition closes_nolf :: "opens \<Rightarrow> string \<Rightarrow> bool" where
  "closes_nolf m buf \<longleftrightarrow> ctl_type buf = CHR ''E'' \<and> m (ctl_ser buf) = Some True \<and> ctl_nolf buf"

fun sum_weave :: "string list \<Rightarrow> opens \<Rightarrow> u32 set \<Rightarrow> u32 set \<Rightarrow> bool" where
  "sum_weave [] m own Z \<longleftrightarrow> (\<forall>i. m i \<noteq> Some True)"
| "sum_weave (buf # ws) m own Z \<longleftrightarrow>
     (if isData buf then (\<exists>i. is_cur m i) \<and> sum_weave ws m (own_line m own) Z
      else legal m (ctl_type buf) (ctl_ser buf) \<and> (ctl_type buf = CHR ''I'' \<longrightarrow> ctl_ser buf \<notin> Z) \<and>
           (closes_nolf m buf \<longrightarrow> ctl_ser buf \<in> own) \<and>
           sum_weave ws (step_open m (ctl_type buf) (ctl_ser buf)) (own - {ctl_ser buf})
             (if closes_nolf m buf then insert (ctl_ser buf) Z else Z))"

text \<open>The stack has an entry for every open insertion.\<close>

definition entry_ok :: "u32 set \<Rightarrow> sumdata list \<Rightarrow> nat option \<Rightarrow> u32 \<Rightarrow> bool" where
  "entry_ok own bs t x \<longleftrightarrow> (t = None \<longleftrightarrow> SL_SER x \<notin> own) \<and> (\<forall>i. t = Some i \<longrightarrow> i < length bs \<and> hd (fs_key (bs ! i)) = SL_SER x)"

definition fast_inv :: "u32 set \<Rightarrow> slist \<Rightarrow> u32 \<Rightarrow> opens \<Rightarrow> u32 set \<Rightarrow> u32 set \<Rightarrow> nat \<Rightarrow> getst \<Rightarrow> fastst \<Rightarrow> bool" where
  "fast_inv S sl this m own Z n g h \<longleftrightarrow>
     blocks_rep m (g_state g) \<and> f_state h = g_state g \<and> g_print g = printstate (g_state g) sl \<and>
     (\<forall>k. block_key (g_state g) = Some k \<longrightarrow> g_counter g = cls sl this k) \<and>
     f_lines h = 0 \<and> f_sum h = 0 \<and> f_seq h = of_nat n \<and> f_cur h = whatstate (g_state g) \<and>
     distinct (map fs_key (f_blocks h)) \<and> (\<forall>b\<in>set (f_blocks h). SL_SER (fs_seq b) \<noteq> 0 \<and> SL_SER (fs_seq b) \<le> of_nat n) \<and>
     (\<forall>c. g_cnt g c = sum_of (cls sl this) {c} fs_lines (f_blocks h)) \<and>
     g_sum g + (if g_lf g \<noteq> 0 then 10 else 0) = sum_of (cls sl this) {Added, Same} fs_sum (f_blocks h) \<and>
     list_all2 (entry_ok own (f_blocks h)) (f_stack h) (filter SL_INS (g_state g)) \<and>
     (\<forall>b\<in>set (f_blocks h). hd (fs_key b) \<in> S) \<and> (\<forall>i. m i \<noteq> None \<longrightarrow> i \<in> S) \<and>
     (\<forall>z\<in>Z. m z \<noteq> Some True) \<and> last_ok (is_active sl this) (f_blocks h) (f_stack h) Z (g_lf g)"

lemma whatstate_filter: "whatstate st = (case filter SL_INS st of [] \<Rightarrow> 0 | x # xs \<Rightarrow> SL_SER x)"
  by (induction st) auto

lemma cur_split:
  assumes "blocks_rep m st" "is_cur m i"
  obtains k x xs where "block_key st = Some k" "hd k = i" "filter SL_INS st = x # xs" "SL_SER x = i" "i \<noteq> 0" "whatstate st = i"
proof -
  have i: "i \<noteq> 0" using assms by (auto simp: blocks_rep_def is_cur_def)
  then have w: "whatstate st = i" using whatstate_cur [OF assms(1)] assms(2) by blast
  then obtain x xs where f: "filter SL_INS st = x # xs" "SL_SER x = i" using i by (auto simp: whatstate_filter split: list.splits)
  have "block_key st \<noteq> None"
  proof
    assume "block_key st = None"
    then have "dropWhile (\<lambda>x. \<not> SL_INS x) st = []" by (auto simp: block_key_def split: list.splits)
    then have "filter SL_INS st = []" by (auto simp: filter_empty_conv)
    then show False using f by simp
  qed
  then obtain k where k: "block_key st = Some k" by blast
  then have "hd k = i" using w block_key_split [OF assms(1) k] whatstate_split by (metis list.sel(1))
  then show ?thesis using that k f i w by blast
qed

lemma stack_tops:
  assumes rep: "blocks_rep m st" and al: "list_all2 (entry_ok own bs) stk (filter SL_INS st)" and f: "filter SL_INS st = x # xs"
  shows "tops bs (SL_SER x) stk" "list_all2 (entry_ok own bs) (tl stk) xs" "hd stk = None \<longleftrightarrow> SL_SER x \<notin> own" "stk \<noteq> []"
    "\<forall>y\<in>set xs. SL_SER y \<noteq> SL_SER x"
proof -
  obtain t ts where stk: "stk = t # ts" "entry_ok own bs t x" "list_all2 (entry_ok own bs) ts xs"
    using al f by (auto simp: list_all2_Cons2)
  have "sorted_wrt (\<lambda>x y. SL_SER y < SL_SER x) (filter SL_INS st)" using rep by (simp add: blocks_rep_def sorted_wrt_filter)
  then show ne: "\<forall>y\<in>set xs. SL_SER y \<noteq> SL_SER x" using f by fastforce
  have "x \<in> set (filter SL_INS st)" unfolding f by simp
  then have "SL_SER x \<noteq> 0" using rep_nonzero [OF rep, of x] by simp
  moreover have "i < length bs \<and> hd (fs_key (bs ! i)) \<noteq> SL_SER x" if mem: "Some i \<in> set ts" for i
  proof -
    obtain j where j: "j < length ts" "ts ! j = Some i" using mem by (auto simp: in_set_conv_nth)
    then have "entry_ok own bs (Some i) (xs ! j)" using list_all2_nthD [OF stk(3)] by fastforce
    moreover have "xs ! j \<in> set xs" using j list_all2_lengthD [OF stk(3)] by simp
    ultimately show ?thesis using ne by (auto simp: entry_ok_def)
  qed
  ultimately show "tops bs (SL_SER x) stk" using stk(1,2) by (auto simp: tops_def entry_ok_def)
  show "list_all2 (entry_ok own bs) (tl stk) xs" "hd stk = None \<longleftrightarrow> SL_SER x \<notin> own" "stk \<noteq> []" using stk by (auto simp: entry_ok_def)
qed

definition fast_line :: "u32 \<Rightarrow> fastst \<Rightarrow> fastst option" where
  "fast_line x h = fast_flush (h\<lparr>f_sum := x, f_lines := 1\<rparr>)"

lemma fast_line_eq:
  assumes "block_key (f_state h) = Some k" "f_stack h \<noteq> []" "f_lines h = 0" "f_sum h = 0"
  shows "fast_line x h = Some (h\<lparr>f_blocks := add_line k x (f_seq h + 1) (f_blocks h), f_seq := f_seq h + 1,
    f_stack := Some (find_block k (f_blocks h)) # tl (f_stack h)\<rparr>)"
  using assms by (cases "f_stack h") (simp_all add: fast_line_def fast_flush_def add_line_def Let_def)

lemma get_data_sum:
  fixes g buf eol sumonly defines "g' \<equiv> get_data eol sumonly True buf g"
  shows "g_state g' = g_state g" "g_print g' = g_print g" "g_counter g' = g_counter g"
    "g_cnt g' = (g_cnt g)(g_counter g := g_cnt g (g_counter g) + 1)"
    "g_print g \<noteq> 0 \<Longrightarrow> g_lf g' = g_print g" "g_print g = 0 \<Longrightarrow> whatstate (g_state g) \<noteq> 0 \<Longrightarrow> g_lf g' = (if g_lf g = whatstate (g_state g) then 0 else g_lf g)"
    "g_sum g' + (if g_lf g' \<noteq> 0 then 10 else 0) = g_sum g + (if g_lf g \<noteq> 0 then 10 else 0) + (if g_print g \<noteq> 0 then sum_bytes (unescape buf) + 10 else 0)"
  unfolding g'_def by (auto simp: get_data_def put_lf_def put_text_def Let_def)

lemma fast_data_inv:
  assumes inv: "fast_inv S sl this m own Z n g h" and cur: "is_cur m c" and n: "Suc n < 2 ^ 31" and tip: "tip_of sl this"
  obtains h' where "fast_line (sum_bytes (unescape buf) + 10) h = Some h'"
    "fast_inv S sl this m (own_line m own) Z (Suc n) (get_data eol sumonly True buf g) h'"
proof -
  note I = inv [unfolded fast_inv_def]
  have rep: "blocks_rep m (g_state g)" using I by blast
  obtain k x xs where k: "block_key (g_state g) = Some k" "hd k = c" and f: "filter SL_INS (g_state g) = x # xs" "SL_SER x = c" and c: "c \<noteq> 0" "whatstate (g_state g) = c"
    using cur_split [OF rep cur] by blast
  have al: "list_all2 (entry_ok own (f_blocks h)) (f_stack h) (filter SL_INS (g_state g))" using I by blast
  note st = stack_tops [OF rep al f(1), unfolded f(2)]
  let ?x = "sum_bytes (unescape buf) + 10" and ?i = "find_block k (f_blocks h)" and ?g = "get_data eol sumonly True buf g"
  let ?as = "add_line k ?x (f_seq h + 1) (f_blocks h)"
  let ?h = "h\<lparr>f_blocks := ?as, f_seq := f_seq h + 1, f_stack := Some ?i # tl (f_stack h)\<rparr>"
  have e: "fast_line ?x h = Some ?h" using I k(1) st(4) by (intro fast_line_eq) simp_all
  note a = add_line_spec [where k = k and bs = "f_blocks h" and x = ?x and seq = "f_seq h + 1"]
  note G = get_data_sum [where eol = eol and sumonly = sumonly and buf = buf and g = g]
  have seq: "f_seq h + 1 = of_nat (Suc n)" using I by simp
  have cl: "cls sl this k \<in> {Added, Same} \<longleftrightarrow> g_print g \<noteq> 0" "g_print g \<noteq> 0 \<Longrightarrow> g_print g = c" "g_counter g = cls sl this k"
    using cls_state(2,3) [OF rep k(1) tip] I k by auto
  have u: "unat (of_nat j :: u32) = j" if "j \<le> Suc n" for j using that n by (simp add: unat_of_nat)
  have lt: "SL_SER (fs_seq b) < of_nat (Suc n)" if "b \<in> set (f_blocks h)" for b
  proof -
    have "SL_SER (fs_seq b) \<le> of_nat n" using I that by blast
    moreover have "of_nat n < (of_nat (Suc n) :: u32)" by (simp add: word_less_nat_alt u del: of_nat_Suc)
    ultimately show ?thesis by (rule le_less_trans)
  qed
  have heads: "hd (fs_key b) \<in> S" if b: "b \<in> set ?as" for b
  proof -
    obtain j where j: "j < length ?as" "b = ?as ! j" using b by (auto simp: in_set_conv_nth)
    have "\<forall>i. m i \<noteq> None \<longrightarrow> i \<in> S" and old: "\<forall>b\<in>set (f_blocks h). hd (fs_key b) \<in> S" using I by blast+
    then have "c \<in> S" using cur by (auto simp: is_cur_def)
    then show ?thesis using a(2) a(5) [of j] a(7) [of j] j old k(2) by (metis nth_mem)
  qed
  have seqs: "SL_SER (fs_seq b) \<noteq> 0 \<and> SL_SER (fs_seq b) \<le> of_nat (Suc n)" if b: "b \<in> set ?as" for b
  proof -
    obtain j where j: "j < length ?as" "b = ?as ! j" using b by (auto simp: in_set_conv_nth)
    show ?thesis
    proof (cases "j = ?i")
      case True
      then have "SL_SER (fs_seq b) = of_nat (Suc n)" using a(3) j SL_small(1) [OF n] seq by simp
      moreover have "of_nat (Suc n) \<noteq> (0 :: u32)" by (simp add: word_unat_eq_iff u del: of_nat_Suc)
      ultimately show ?thesis by simp
    next
      case False
      then have "b \<in> set (f_blocks h)" using a(5,7) j by (metis nth_mem)
      then show ?thesis using I lt less_imp_le by blast
    qed
  qed
  have cnt: "g_cnt ?g d = sum_of (cls sl this) {d} fs_lines ?as" for d
    using I unfolding a(9) G(4) cl(3) by simp
  have sm: "g_sum ?g + (if g_lf ?g \<noteq> 0 then 10 else 0) = sum_of (cls sl this) {Added, Same} fs_sum ?as"
    using I cl(1) unfolding a(10) G(7) by simp
  have al': "list_all2 (entry_ok (own_line m own) ?as) (Some ?i # tl (f_stack h)) (x # xs)"
  proof -
    have "entry_ok (own_line m own) ?as t y" if "entry_ok own (f_blocks h) t y" "y \<in> set xs" for t y
    proof -
      have "\<not> is_cur m (SL_SER y)" using st(5) that(2) cur whatstate_cur [OF rep, of "SL_SER y"] c by (metis is_cur_def linorder_neqE)
      then show ?thesis using that(1) a(4,6) unfolding entry_ok_def own_line_def by auto
    qed
    then have "list_all2 (entry_ok (own_line m own) ?as) (tl (f_stack h)) xs"
      using st(2) by (auto simp: list_all2_conv_all_nth)
    moreover have "entry_ok (own_line m own) ?as (Some ?i) x" using a(1,2) k(2) f(2) cur by (simp add: entry_ok_def own_line_def)
    ultimately show ?thesis by simp
  qed
  have lst: "last_ok (is_active sl this) ?as (Some ?i # tl (f_stack h)) Z (g_lf ?g)"
  proof (cases "g_print g = 0")
    case True
    have "c \<notin> Z" using I cur by (auto simp: is_cur_def)
    then have "last_ok (is_active sl this) ?as (Some ?i # tl (f_stack h)) Z (if g_lf g = hd k then 0 else g_lf g)"
      using I True cl(1) st(1) k(2) by (intro last_hidden) simp_all
    then show ?thesis using G(6) [OF True] c k(2) by simp
  next
    case False
    have "last_ok (is_active sl this) ?as (Some ?i # tl (f_stack h)) Z (hd k)"
      using False cl(1) k(2) c(1) lt SL_small [OF n] seq by (intro last_shown) (simp_all del: of_nat_Suc)
    then show ?thesis using G(5) False cl(2) k(2) by simp
  qed
  show ?thesis
    by (rule that [OF e])
      (use I G(1-3) k(1) cl(3) a(8) heads seqs cnt sm al' lst f(1) seq in \<open>simp add: fast_inv_def del: of_nat_Suc\<close>)
qed

lemma changestate_filter:
  assumes "changestate st type ser = Some st'"
  shows "type = CHR ''I'' \<Longrightarrow> filter SL_INS st' = SL_SET ser True # filter SL_INS st"
    "type \<noteq> CHR ''I'' \<Longrightarrow> type \<noteq> CHR ''E'' \<Longrightarrow> filter SL_INS st' = filter SL_INS st"
    "type = CHR ''E'' \<Longrightarrow> \<exists>y\<in>set st. SL_SER y = ser \<and> filter SL_INS st = (if SL_INS y then [y] else []) @ filter SL_INS st'"
proof -
  let ?P = "\<lambda>x. \<not> SL_SER x \<le> ser"
  define larger rest where "larger = takeWhile ?P st" and "rest = dropWhile ?P st"
  have st: "st = larger @ rest" by (simp add: larger_def rest_def)
  have c: "\<not> SL_INS ser" "\<not> list_ex SL_INS larger" "(if type = CHR ''E'' then
      (case rest of [] \<Rightarrow> None | x # xs \<Rightarrow> if SL_SER x = ser then Some (larger @ xs) else None)
      else Some (larger @ SL_SET ser (type = CHR ''I'') # rest)) = Some st'"
    using assms unfolding changestate_def Let_def larger_def [symmetric] rest_def [symmetric] by (simp_all split: if_splits)
  have l: "filter SL_INS larger = []" using c(2) by (auto simp: filter_empty_conv list_ex_iff)
  show "filter SL_INS st' = SL_SET ser True # filter SL_INS st" if "type = CHR ''I''"
    using c(3) l that by (auto simp: st SL_bits(2))
  show "filter SL_INS st' = filter SL_INS st" if "type \<noteq> CHR ''I''" "type \<noteq> CHR ''E''"
    using c(1,3) l that by (auto simp: st SL_bits(2))
  show "\<exists>y\<in>set st. SL_SER y = ser \<and> filter SL_INS st = (if SL_INS y then [y] else []) @ filter SL_INS st'" if "type = CHR ''E''"
    using c(3) l that by (auto simp: st split: list.splits if_splits)
qed

lemma get_ctl_sum:
  assumes rep: "blocks_rep m (g_state g)" and leg: "legal m (ctl_type buf) (ctl_ser buf)" and tip: "tip_of sl this"
  obtains st g' where "changestate (g_state g) (ctl_type buf) (ctl_ser buf) = Some st" "blocks_rep (step_open m (ctl_type buf) (ctl_ser buf)) st"
    "get_ctl eol sumonly True sl this buf g = Some g'" "g_state g' = st" "g_print g' = printstate st sl" "g_cnt g' = g_cnt g"
    "\<forall>k. block_key st = Some k \<longrightarrow> g_counter g' = cls sl this k"
    "g_lf g' = (if ctl_type buf = CHR ''E'' \<and> whatstate (g_state g) = ctl_ser buf \<and> \<not> ctl_nolf buf \<and> g_lf g = ctl_ser buf then 0 else g_lf g)"
    "g_sum g' + (if g_lf g' \<noteq> 0 then 10 else 0) = g_sum g + (if g_lf g \<noteq> 0 then 10 else 0)"
proof -
  define h where "h = (if ctl_type buf = CHR ''E'' \<and> g_lf g = ctl_ser buf \<and> whatstate (g_state g) = ctl_ser buf
               then (if \<not> ctl_nolf buf then put_lf eol sumonly True g else g\<lparr>g_nonl := True\<rparr>) else g)"
  have "ctl_ser buf \<noteq> 0" using leg by (simp add: legal_def)
  then have h: "g_state h = g_state g" "g_cnt h = g_cnt g" "g_sum h + (if g_lf h \<noteq> 0 then 10 else 0) = g_sum g + (if g_lf g \<noteq> 0 then 10 else 0)"
    "g_lf h = (if ctl_type buf = CHR ''E'' \<and> whatstate (g_state g) = ctl_ser buf \<and> \<not> ctl_nolf buf \<and> g_lf g = ctl_ser buf then 0 else g_lf g)"
    unfolding h_def by (auto simp: put_lf_def)
  obtain st where st: "changestate (g_state g) (ctl_type buf) (ctl_ser buf) = Some st" "blocks_rep (step_open m (ctl_type buf) (ctl_ser buf)) st"
    using changestate_rep [OF rep leg] by blast
  let ?g = "h\<lparr>g_state := st, g_print := printstate st sl\<rparr>"
  have "sl (unat this) \<noteq> 0" "this \<noteq> 0" using tip by (simp_all add: tip_of_def)
  then have "\<exists>c. get_counter sl this ?g = Some c" by (simp add: get_counter_def delstate_def)
  then obtain c where c: "get_counter sl this ?g = Some c" by blast
  have "get_ctl eol sumonly True sl this buf g = Some (?g\<lparr>g_counter := c\<rparr>)"
    using \<open>this \<noteq> 0\<close> st(1) c h(1) unfolding get_ctl_def Let_def h_def [symmetric] by simp
  moreover have "c = cls sl this k" if "block_key st = Some k" for k using cls_state(1) [OF st(2) that tip, of ?g] c by simp
  ultimately show ?thesis using that st h by simp
qed

text \<open>The control lines: opening an insertion, closing one, and the others.\<close>

lemma fast_ctl_cases:
  assumes rep: "blocks_rep m st" and leg: "legal m (ctl_type buf) (ctl_ser buf)" and ch: "changestate st (ctl_type buf) (ctl_ser buf) = Some st'"
  obtains (open_ins) "ctl_type buf = CHR ''I''" "filter SL_INS st' = SL_SET (ctl_ser buf) True # filter SL_INS st"
  | (close_ins) y where "ctl_type buf = CHR ''E''" "m (ctl_ser buf) = Some True" "SL_SER y = ctl_ser buf" "filter SL_INS st = y # filter SL_INS st'" "whatstate st = ctl_ser buf"
  | (deletion) "ctl_type buf \<noteq> CHR ''I''" "\<not> closes_nolf m buf" "filter SL_INS st' = filter SL_INS st" "ctl_type buf = CHR ''E'' \<Longrightarrow> whatstate st \<noteq> ctl_ser buf"
proof (cases "ctl_type buf = CHR ''E''")
  case False
  then show ?thesis using changestate_filter(1,2) [OF ch] open_ins deletion by (auto simp: closes_nolf_def)
next
  case True
  obtain y where y: "y \<in> set st" "SL_SER y = ctl_ser buf" "filter SL_INS st = (if SL_INS y then [y] else []) @ filter SL_INS st'"
    using changestate_filter(3) [OF ch True] by blast
  have my: "m (ctl_ser buf) = Some (SL_INS y)" using rep_mem [OF rep y(1)] y(2) by simp
  show ?thesis
  proof (cases "SL_INS y")
    case True
    then show ?thesis using close_ins [of y] \<open>ctl_type buf = _\<close> my y by (simp add: whatstate_filter)
  next
    case False
    have "ctl_ser buf \<noteq> 0" using leg by (simp add: legal_def)
    then have "whatstate st \<noteq> ctl_ser buf" using whatstate_cur [OF rep] my False by (auto simp: is_cur_def)
    then show ?thesis using deletion True my y False by (simp add: closes_nolf_def)
  qed
qed

lemma stack_drop:
  "list_all2 (entry_ok own bs) stk xs \<Longrightarrow> \<forall>y\<in>set xs. SL_SER y \<noteq> s \<Longrightarrow> list_all2 (entry_ok (own - {s}) bs) stk xs"
  by (induction rule: list_all2_induct) (auto simp: entry_ok_def)

lemma legal_not_open:
  assumes "blocks_rep m st" "m s \<noteq> Some True"
  shows "\<forall>y\<in>set (filter SL_INS st). SL_SER y \<noteq> s"
  using assms rep_mem [OF assms(1)] by force

lemma last_push: "last_ok act bs (None # stk) Z lf = last_ok act bs stk Z lf"
  by (simp add: last_ok_def last_is_def)

text \<open>The flag of a block changes neither its key nor its numbers.\<close>

definition flag_block :: "nat \<Rightarrow> sumdata list \<Rightarrow> sumdata list" where
  "flag_block i bs = bs[i := (bs ! i)\<lparr>fs_seq := SL_SET (fs_seq (bs ! i)) True\<rparr>]"

lemma flag_block_spec:
  assumes "i < length bs"
  shows "map fs_key (flag_block i bs) = map fs_key bs" "sum_of cl C fs_lines (flag_block i bs) = sum_of cl C fs_lines bs"
    "sum_of cl C fs_sum (flag_block i bs) = sum_of cl C fs_sum bs" "(\<lambda>b. SL_SER (fs_seq b)) ` set (flag_block i bs) = (\<lambda>b. SL_SER (fs_seq b)) ` set bs"
    "entry_ok own (flag_block i bs) = entry_ok own bs"
proof -
  show k: "map fs_key (flag_block i bs) = map fs_key bs" using assms by (simp add: flag_block_def map_update list_update_same_conv)
  show "sum_of cl C fs_lines (flag_block i bs) = sum_of cl C fs_lines bs" "sum_of cl C fs_sum (flag_block i bs) = sum_of cl C fs_sum bs"
    using sum_of_update [OF assms, of "(bs ! i)\<lparr>fs_seq := SL_SET (fs_seq (bs ! i)) True\<rparr>" cl C] by (simp_all add: flag_block_def)
  have "map (\<lambda>b. SL_SER (fs_seq b)) (flag_block i bs) = map (\<lambda>b. SL_SER (fs_seq b)) bs"
    using assms by (simp add: flag_block_def map_update list_update_same_conv SL_bits(1))
  then show "(\<lambda>b. SL_SER (fs_seq b)) ` set (flag_block i bs) = (\<lambda>b. SL_SER (fs_seq b)) ` set bs" by (metis set_map)
  have "length (flag_block i bs) = length bs" "\<And>j. j < length bs \<Longrightarrow> fs_key (flag_block i bs ! j) = fs_key (bs ! j)"
    using k by (metis length_map, metis length_map nth_map)
  then show "entry_ok own (flag_block i bs) = entry_ok own bs" by (auto simp: entry_ok_def fun_eq_iff)
qed

text \<open>Only the parts of the invariant that a control line touches remain to be shown.\<close>

lemma fast_inv_ctl:
  assumes inv: "fast_inv S sl this m own Z n g h"
    and g': "blocks_rep m' st" "g_state g' = st" "g_print g' = printstate st sl" "g_cnt g' = g_cnt g"
      "\<forall>k. block_key st = Some k \<longrightarrow> g_counter g' = cls sl this k"
      "g_sum g' + (if g_lf g' \<noteq> 0 then 10 else 0) = g_sum g + (if g_lf g \<noteq> 0 then 10 else 0)"
    and S: "\<forall>i. m' i \<noteq> None \<longrightarrow> i \<in> S"
    and bs: "bs = f_blocks h \<or> (\<exists>i<length (f_blocks h). bs = flag_block i (f_blocks h))"
    and new: "list_all2 (entry_ok own' bs) stk (filter SL_INS st)" "\<forall>z\<in>Z'. m' z \<noteq> Some True" "last_ok (is_active sl this) bs stk Z' (g_lf g')"
  shows "fast_inv S sl this m' own' Z' n g' (h\<lparr>f_state := st, f_cur := whatstate st, f_stack := stk, f_blocks := bs\<rparr>)"
proof -
  note I = inv [unfolded fast_inv_def]
  have b: "map fs_key bs = map fs_key (f_blocks h)" "\<And>cl C. sum_of cl C fs_lines bs = sum_of cl C fs_lines (f_blocks h)"
    "\<And>cl C. sum_of cl C fs_sum bs = sum_of cl C fs_sum (f_blocks h)" "(\<lambda>b. SL_SER (fs_seq b)) ` set bs = (\<lambda>b. SL_SER (fs_seq b)) ` set (f_blocks h)"
    using bs flag_block_spec(1-4) by metis+
  have "\<forall>x\<in>(\<lambda>b. SL_SER (fs_seq b)) ` set (f_blocks h). x \<noteq> 0 \<and> x \<le> of_nat n" using I by simp
  then have "\<forall>b\<in>set bs. SL_SER (fs_seq b) \<noteq> 0 \<and> SL_SER (fs_seq b) \<le> of_nat n" unfolding b(4) [symmetric] by blast
  moreover have "\<forall>b\<in>set bs. hd (fs_key b) \<in> S"
  proof -
    have "\<forall>k\<in>set (map fs_key bs). hd k \<in> S" unfolding b(1) using I by simp
    then show ?thesis by simp
  qed
  ultimately show ?thesis using I g' S new b(1-3) by (simp add: fast_inv_def)
qed

lemma fast_ctl_inv:
  assumes inv: "fast_inv S sl this m own Z n g h" and tip: "tip_of sl this" and leg: "legal m (ctl_type buf) (ctl_ser buf)"
    and new: "ctl_type buf = CHR ''I'' \<longrightarrow> ctl_ser buf \<notin> Z" and lf: "closes_nolf m buf \<longrightarrow> ctl_ser buf \<in> own"
    and ser: "ctl_ser buf \<in> S"
  obtains g' h' where "get_ctl eol sumonly True sl this buf g = Some g'" "fast_ctl buf h = Some h'"
    "fast_inv S sl this (step_open m (ctl_type buf) (ctl_ser buf)) (own - {ctl_ser buf}) (if closes_nolf m buf then insert (ctl_ser buf) Z else Z) n g' h'"
proof -
  note I = inv [unfolded fast_inv_def]
  let ?s = "ctl_ser buf" and ?t = "ctl_type buf" and ?m = "step_open m (ctl_type buf) (ctl_ser buf)" and ?bs = "f_blocks h"
  have rep: "blocks_rep m (g_state g)" and fs: "f_state h = g_state g" "f_cur h = whatstate (g_state g)"
    and al: "list_all2 (entry_ok own ?bs) (f_stack h) (filter SL_INS (g_state g))"
    and z: "\<forall>z\<in>Z. m z \<noteq> Some True" and last: "last_ok (is_active sl this) ?bs (f_stack h) Z (g_lf g)" using I by blast+
  obtain st g' where st: "changestate (g_state g) ?t ?s = Some st" and g': "get_ctl eol sumonly True sl this buf g = Some g'"
    and G: "blocks_rep ?m st" "g_state g' = st" "g_print g' = printstate st sl" "g_cnt g' = g_cnt g"
      "\<forall>k. block_key st = Some k \<longrightarrow> g_counter g' = cls sl this k"
      "g_sum g' + (if g_lf g' \<noteq> 0 then 10 else 0) = g_sum g + (if g_lf g \<noteq> 0 then 10 else 0)"
    and lf': "g_lf g' = (if ?t = CHR ''E'' \<and> whatstate (g_state g) = ?s \<and> \<not> ctl_nolf buf \<and> g_lf g = ?s then 0 else g_lf g)"
    using get_ctl_sum [OF rep leg tip, of eol sumonly] by metis
  have s: "?s \<noteq> 0" "\<not> SL_INS ?s" using leg by (simp_all add: legal_def)
  have "\<forall>i. ?m i \<noteq> None \<longrightarrow> i \<in> S" using I ser by (auto simp: step_open_def)
  note step = fast_inv_ctl [OF inv G this]
  show ?thesis
    using rep leg st
  proof (cases rule: fast_ctl_cases)
    case open_ins
    have m: "m ?s \<noteq> Some True" using leg open_ins(1) by (simp add: legal_def)
    have w: "whatstate st = ?s" using s(2) by (simp add: whatstate_filter open_ins(2) SL_SET_parts)
    have e: "fast_ctl buf h = Some (h\<lparr>f_state := st, f_cur := whatstate st, f_stack := None # f_stack h, f_blocks := ?bs\<rparr>)"
      using st open_ins(1) fs unfolding fast_ctl_def by (simp add: w)
    have "fast_inv S sl this ?m (own - {?s}) Z n g' (h\<lparr>f_state := st, f_cur := whatstate st, f_stack := None # f_stack h, f_blocks := ?bs\<rparr>)"
    proof (rule step)
      show "list_all2 (entry_ok (own - {?s}) ?bs) (None # f_stack h) (filter SL_INS st)"
        using stack_drop [OF al legal_not_open [OF rep m]] s(2) by (simp add: open_ins(2) entry_ok_def SL_SET_parts)
      show "\<forall>z\<in>Z. ?m z \<noteq> Some True" using z new open_ins(1) by (auto simp: step_open_def)
      show "last_ok (is_active sl this) ?bs (None # f_stack h) Z (g_lf g')" using last lf' open_ins(1) by (simp add: last_push)
    qed simp
    then show ?thesis using that [OF g' e] open_ins(1) by (simp add: closes_nolf_def)
  next
    case deletion
    have m: "m ?s \<noteq> Some True"
    proof
      assume "m ?s = Some True"
      then have "is_cur m ?s" "?t = CHR ''E''" using leg by (auto simp: legal_def is_cur_def)
      then show False using deletion(4) whatstate_cur [OF rep s(1)] by simp
    qed
    have w: "whatstate st = f_cur h" by (simp add: fs(2) whatstate_filter deletion(3))
    have e: "fast_ctl buf h = Some (h\<lparr>f_state := st, f_cur := whatstate st, f_stack := f_stack h, f_blocks := ?bs\<rparr>)"
      using st deletion(1,4) fs unfolding fast_ctl_def w by (cases h) (auto simp: Let_def)
    have "fast_inv S sl this ?m (own - {?s}) Z n g' (h\<lparr>f_state := st, f_cur := whatstate st, f_stack := f_stack h, f_blocks := ?bs\<rparr>)"
    proof (rule step)
      show "list_all2 (entry_ok (own - {?s}) ?bs) (f_stack h) (filter SL_INS st)"
        using stack_drop [OF al legal_not_open [OF rep m]] by (simp add: deletion(3))
      show "\<forall>z\<in>Z. ?m z \<noteq> Some True" using z deletion(1) by (auto simp: step_open_def)
      show "last_ok (is_active sl this) ?bs (f_stack h) Z (g_lf g')" using last lf' deletion(4) by auto
    qed simp
    then show ?thesis using that [OF g' e] deletion(2) by simp
  next
    case (close_ins y)
    note T = stack_tops [OF rep al close_ins(4), unfolded close_ins(3)]
    obtain t ts where stk: "f_stack h = t # ts" using T(4) by (cases "f_stack h") auto
    have sZ: "?s \<notin> Z" using z close_ins(2) by auto
    have z': "\<forall>z\<in>insert ?s Z. ?m z \<noteq> Some True" using z close_ins(1) by (auto simp: step_open_def)
    have al': "list_all2 (entry_ok (own - {?s}) ?bs) ts (filter SL_INS st)" using stack_drop [OF T(2,5)] stk by simp
    show ?thesis
    proof (cases "ctl_nolf buf")
      case False
      have e: "fast_ctl buf h = Some (h\<lparr>f_state := st, f_cur := whatstate st, f_stack := ts, f_blocks := ?bs\<rparr>)"
        using st close_ins(1,5) fs False unfolding fast_ctl_def by (simp add: stk)
      have l: "last_ok (is_active sl this) ?bs ts Z (g_lf g')"
        using last_pop [OF last T(1) sZ] lf' False close_ins(1,5) by (simp add: stk)
      have "fast_inv S sl this ?m (own - {?s}) Z n g' (h\<lparr>f_state := st, f_cur := whatstate st, f_stack := ts, f_blocks := ?bs\<rparr>)"
        by (rule step [OF _ al' _ l]) (use z' in simp_all)
      then show ?thesis using that [OF g' e] False by (simp add: closes_nolf_def)
    next
      case True
      then have cl: "closes_nolf m buf" using close_ins by (simp add: closes_nolf_def)
      then obtain i where i: "t = Some i" using lf T(3) stk by (cases t) auto
      then have il: "i < length ?bs" using T(1) stk by (simp add: tops_def)
      have e: "fast_ctl buf h = Some (h\<lparr>f_state := st, f_cur := whatstate st, f_stack := ts, f_blocks := flag_block i ?bs\<rparr>)"
        using st close_ins(1,5) fs True unfolding fast_ctl_def by (simp add: stk i flag_block_def)
      have l: "last_ok (is_active sl this) (flag_block i ?bs) ts (insert ?s Z) (g_lf g')"
        using last_pop_nolf [OF last T(1) sZ, of i] lf' True i by (simp add: stk flag_block_def)
      have "fast_inv S sl this ?m (own - {?s}) (insert ?s Z) n g' (h\<lparr>f_state := st, f_cur := whatstate st, f_stack := ts, f_blocks := flag_block i ?bs\<rparr>)"
        by (rule step [OF _ _ z' l]) (use al' il in \<open>auto simp: flag_block_spec(5)\<close>)
      then show ?thesis using that [OF g' e] cl by simp
    qed
  qed
qed

lemma fast_loop_inv:
  assumes tip: "tip_of sl this"
  shows "fast_inv S sl this m own Z n g h \<Longrightarrow> fast_flush f = Some h \<Longrightarrow> f_lines f = 0 \<longrightarrow> f_sum f = 0 \<Longrightarrow>
    distinct (map fs_key (f_blocks f)) \<Longrightarrow> unat (f_lines f) \<le> n \<Longrightarrow> sum_weave ws m own Z \<Longrightarrow> n + length ws < 2 ^ 31 \<Longrightarrow>
    \<forall>buf\<in>set ws. isData buf \<or> ctl_ser buf \<in> S \<Longrightarrow>
    \<exists>g' f' h' m' own' Z' n'. get_loop eol sumonly True sl this ws g = Some g' \<and> fast_loop ws f = Some f' \<and>
      fast_flush f' = Some h' \<and> fast_inv S sl this m' own' Z' n' g' h' \<and> (\<forall>i. m' i \<noteq> Some True)"
proof (induction ws arbitrary: m own Z n g h f)
  case Nil
  then show ?case by auto
next
  case (Cons buf ws)
  show ?case
  proof (cases "isData buf")
    case True
    then obtain c where c: "is_cur m c" and w: "sum_weave ws m (own_line m own) Z" using Cons.prems(6) by auto
    have n: "Suc n < 2 ^ 31" "Suc n + length ws < 2 ^ 31" using Cons.prems(7) by simp_all
    obtain h' where h': "fast_line (sum_bytes (unescape buf) + 10) h = Some h'"
      "fast_inv S sl this m (own_line m own) Z (Suc n) (get_data eol sumonly True buf g) h'"
      using fast_data_inv [OF Cons.prems(1) c n(1) tip] by blast
    let ?f = "f\<lparr>f_sum := f_sum f + (sum_bytes (unescape buf) + 10), f_lines := f_lines f + 1\<rparr>"
    have u: "unat (f_lines f + 1) = Suc (unat (f_lines f))" using Cons.prems(5) n(1) by (simp add: unat_word_ariths)
    then have "f_lines f + 1 \<noteq> 0" by (metis nat.distinct(1) unat_0)
    then have "fast_flush ?f = Some h'"
      using flush_line [OF Cons.prems(3) _ Cons.prems(4)] Cons.prems(2) h'(1) by (simp add: fast_line_def)
    then have "\<exists>g' f' h' m' own' Z' n'. get_loop eol sumonly True sl this ws (get_data eol sumonly True buf g) = Some g' \<and> fast_loop ws ?f = Some f' \<and>
      fast_flush f' = Some h' \<and> fast_inv S sl this m' own' Z' n' g' h' \<and> (\<forall>i. m' i \<noteq> Some True)"
      using \<open>f_lines f + 1 \<noteq> 0\<close> Cons.prems(4,5,8) u w n(2) by (intro Cons.IH [OF h'(2)]) simp_all
    then show ?thesis using True by (simp add: add.assoc)
  next
    case False
    then have w: "legal m (ctl_type buf) (ctl_ser buf)" "ctl_type buf = CHR ''I'' \<longrightarrow> ctl_ser buf \<notin> Z" "closes_nolf m buf \<longrightarrow> ctl_ser buf \<in> own"
      "sum_weave ws (step_open m (ctl_type buf) (ctl_ser buf)) (own - {ctl_ser buf}) (if closes_nolf m buf then insert (ctl_ser buf) Z else Z)"
      using Cons.prems(6) by simp_all
    have "ctl_ser buf \<in> S" using Cons.prems(8) False by simp
    then obtain g' h' where g': "get_ctl eol sumonly True sl this buf g = Some g'" "fast_ctl buf h = Some h'"
      "fast_inv S sl this (step_open m (ctl_type buf) (ctl_ser buf)) (own - {ctl_ser buf}) (if closes_nolf m buf then insert (ctl_ser buf) Z else Z) n g' h'"
      using fast_ctl_inv [OF Cons.prems(1) tip w(1-3)] by blast
    have z: "f_lines h' = 0" "f_sum h' = 0" "distinct (map fs_key (f_blocks h'))" using g'(3) by (simp_all add: fast_inv_def)
    have "\<exists>g'' f' h'' m' own' Z' n'. get_loop eol sumonly True sl this ws g' = Some g'' \<and> fast_loop ws h' = Some f' \<and>
      fast_flush f' = Some h'' \<and> fast_inv S sl this m' own' Z' n' g'' h'' \<and> (\<forall>i. m' i \<noteq> Some True)"
      using z Cons.prems(7,8) w(4) by (intro Cons.IH [OF g'(3)]) (simp_all add: fast_flush_def)
    then show ?thesis using False g'(1,2) Cons.prems(2) by simp
  qed
qed

lemma fast_init_inv: "fast_inv S sl this Map.empty {} {} 0 get_init fast_init"
  by (simp add: fast_inv_def get_init_def fast_init_def blocks_rep_def sum_of_def last_ok_def block_key_def)

text \<open>At the end all lines have been flushed and the stack is empty.\<close>

lemma fast_load:
  assumes tip: "tip_of sl this" and w: "sum_weave ws Map.empty {} {}" "length ws < 2 ^ 31" "\<forall>buf\<in>set ws. isData buf \<or> ctl_ser buf \<in> S"
  obtains g bs Z where "get_loop eol sumonly True sl this ws get_init = Some g" "fastsum_load ws = Some bs"
    "\<forall>b\<in>set bs. SL_SER (fs_seq b) \<noteq> 0" "\<forall>b\<in>set bs. hd (fs_key b) \<in> S"
    "\<forall>c. g_cnt g c = sum_of (cls sl this) {c} fs_lines bs"
    "g_sum g + (if g_lf g \<noteq> 0 then 10 else 0) = sum_of (cls sl this) {Added, Same} fs_sum bs" "last_ok (is_active sl this) bs [] Z (g_lf g)"
proof -
  have f0: "fast_flush fast_init = Some fast_init" "f_lines fast_init = 0" "f_sum fast_init = 0" "f_blocks fast_init = []" by (simp_all add: fast_flush_def fast_init_def)
  obtain g f h m own Z n where g: "get_loop eol sumonly True sl this ws get_init = Some g" and f: "fast_loop ws fast_init = Some f"
    "fast_flush f = Some h" and inv: "fast_inv S sl this m own Z n g h" and m: "\<forall>i. m i \<noteq> Some True"
    using fast_loop_inv [OF tip fast_init_inv f0(1), of ws S eol sumonly] f0 w by auto
  note I = inv [unfolded fast_inv_def]
  have "filter SL_INS (g_state g) = []"
    using rep_mem [of m "g_state g"] I m by (fastforce simp: filter_empty_conv)
  then have stk: "f_stack h = []" using I by simp
  have fh: "f = h"
  proof (rule ccontr)
    assume "f \<noteq> h"
    then have "f_lines f \<noteq> 0" using f(2) by (auto simp: fast_flush_def)
    then have "f_stack h \<noteq> []" using f(2) by (auto simp: fast_flush_def Let_def split: option.splits list.splits)
    then show False using stk by simp
  qed
  then have "fastsum_load ws = Some (f_blocks h)" using f(1) stk I by (simp add: fastsum_load_def)
  then show ?thesis using that [OF g, of "f_blocks h" Z] I stk by simp
qed

section \<open>Adding up the blocks\<close>

lemma fast_block_cls:
  assumes "TREE s \<le> unat (hd (fs_key b))" "unat (hd (fs_key b)) \<le> TABLE s" "hd (fs_key b) \<noteq> 0"
  shows "fast_block s sl this b r =
    Some (case cls sl this (fs_key b) of
            Added \<Rightarrow> fast_save b (r\<lparr>r_added := r_added r + fs_lines b\<rparr>)
          | Deleted \<Rightarrow> r\<lparr>r_deleted := r_deleted r + fs_lines b\<rparr>
          | Same \<Rightarrow> fast_save b (r\<lparr>r_same := r_same r + fs_lines b\<rparr>)
          | Other \<Rightarrow> r)"
proof -
  have "fast_dels sl this es \<noteq> Added" for es by (induction es) auto
  then show ?thesis using assms by (auto simp: fast_block_def cls_def Let_def split: counter.splits)
qed

lemma fast_save_parts:
  "r_sum (fast_save b r) = r_sum r + fs_sum b" "r_added (fast_save b r) = r_added r" "r_deleted (fast_save b r) = r_deleted r" "r_same (fast_save b r) = r_same r"
  "r_seq (fast_save b r) = (if r_seq r < SL_SER (fs_seq b) then SL_SER (fs_seq b) else r_seq r)"
  "r_nolf (fast_save b r) = (if r_seq r < SL_SER (fs_seq b) then SL_INS (fs_seq b) else r_nolf r)"
  by (simp_all add: fast_save_def Let_def)

definition in_table :: "sccs \<Rightarrow> u32 set" where
  "in_table s = {i. i \<noteq> 0 \<and> TREE s \<le> unat i \<and> unat i \<le> TABLE s}"

lemma fast_block_spec:
  assumes "hd (fs_key b) \<in> in_table s"
  obtains r' where "fast_block s sl this b r = Some r'" "r_sum r' = r_sum r + sum_of (cls sl this) {Added, Same} fs_sum [b]"
    "r_added r' = r_added r + sum_of (cls sl this) {Added} fs_lines [b]" "r_deleted r' = r_deleted r + sum_of (cls sl this) {Deleted} fs_lines [b]"
    "r_same r' = r_same r + sum_of (cls sl this) {Same} fs_lines [b]"
    "r_seq r' = (if is_active sl this (fs_key b) \<and> r_seq r < SL_SER (fs_seq b) then SL_SER (fs_seq b) else r_seq r)"
    "r_nolf r' = (if is_active sl this (fs_key b) \<and> r_seq r < SL_SER (fs_seq b) then SL_INS (fs_seq b) else r_nolf r)"
  by (rule that [OF fast_block_cls]) (use assms in \<open>cases "cls sl this (fs_key b)"; simp add: in_table_def sum_of_def fast_save_parts\<close>)+

lemma sum_of_Cons: "sum_of cl C f (b # bs) = sum_of cl C f [b] + sum_of cl C f bs"
  by (simp add: sum_of_def)

lemma fast_blocks_sums:
  "\<forall>b\<in>set bs. hd (fs_key b) \<in> in_table s \<Longrightarrow>
   \<exists>r'. fast_blocks s sl this bs r = Some r' \<and> r_sum r' = r_sum r + sum_of (cls sl this) {Added, Same} fs_sum bs \<and>
     r_added r' = r_added r + sum_of (cls sl this) {Added} fs_lines bs \<and> r_deleted r' = r_deleted r + sum_of (cls sl this) {Deleted} fs_lines bs \<and>
     r_same r' = r_same r + sum_of (cls sl this) {Same} fs_lines bs"
proof (induction bs arbitrary: r)
  case Nil
  then show ?case by (simp add: sum_of_def)
next
  case (Cons b bs)
  obtain q where q: "fast_block s sl this b r = Some q" "r_sum q = r_sum r + sum_of (cls sl this) {Added, Same} fs_sum [b]"
    "r_added q = r_added r + sum_of (cls sl this) {Added} fs_lines [b]" "r_deleted q = r_deleted r + sum_of (cls sl this) {Deleted} fs_lines [b]"
    "r_same q = r_same r + sum_of (cls sl this) {Same} fs_lines [b]"
    using fast_block_spec [of b s sl this r] Cons.prems by (metis list.set_intros(1))
  obtain r' where r': "fast_blocks s sl this bs q = Some r'" "r_sum r' = r_sum q + sum_of (cls sl this) {Added, Same} fs_sum bs"
     "r_added r' = r_added q + sum_of (cls sl this) {Added} fs_lines bs" "r_deleted r' = r_deleted q + sum_of (cls sl this) {Deleted} fs_lines bs"
     "r_same r' = r_same q + sum_of (cls sl this) {Same} fs_lines bs"
    using Cons.IH [of q] Cons.prems by auto
  show ?case unfolding sum_of_Cons [of _ _ _ b bs] using q r' by (intro exI [of _ r']) (simp only: fast_blocks.simps option.case simp_thms add.assoc)
qed

text \<open>The newest block decides about the line feed.\<close>

lemma fast_blocks_older:
  assumes "\<forall>b\<in>set bs. hd (fs_key b) \<in> in_table s" "\<forall>b\<in>set bs. is_active sl this (fs_key b) \<longrightarrow> SL_SER (fs_seq b) \<le> r_seq r" "fast_blocks s sl this bs r = Some r'"
  shows "r_nolf r' = r_nolf r"
  using assms
proof (induction bs arbitrary: r)
  case (Cons b bs)
  obtain q where q: "fast_block s sl this b r = Some q" "r_seq q = r_seq r" "r_nolf q = r_nolf r"
    using fast_block_spec [of b s sl this r] Cons.prems(1,2) by (metis leD list.set_intros(1))
  then show ?case using Cons.IH [of q] Cons.prems by simp
qed simp

lemma fast_blocks_newest:
  assumes "\<forall>b\<in>set bs. hd (fs_key b) \<in> in_table s" "a < length bs" "is_active sl this (fs_key (bs ! a))" "r_seq r < seq_at bs a"
    "\<forall>j<length bs. j \<noteq> a \<and> is_active sl this (fs_key (bs ! j)) \<longrightarrow> seq_at bs j < seq_at bs a" "fast_blocks s sl this bs r = Some r'"
  shows "r_nolf r' = SL_INS (fs_seq (bs ! a))"
  using assms
proof (induction bs arbitrary: a r)
  case (Cons b bs)
  obtain q where q: "fast_block s sl this b r = Some q" 
    "r_seq q = (if is_active sl this (fs_key b) \<and> r_seq r < SL_SER (fs_seq b) then SL_SER (fs_seq b) else r_seq r)"
    "r_nolf q = (if is_active sl this (fs_key b) \<and> r_seq r < SL_SER (fs_seq b) then SL_INS (fs_seq b) else r_nolf r)"
    using fast_block_spec [of b s sl this r] Cons.prems(1) by (metis list.set_intros(1))
  have rest: "fast_blocks s sl this bs q = Some r'" using q(1) Cons.prems(6) by simp
  show ?case
  proof (cases a)
    case 0
    have "SL_SER (fs_seq c) \<le> r_seq q" if "c \<in> set bs" "is_active sl this (fs_key c)" for c
    proof -
      obtain j where "j < length bs" "c = bs ! j" using \<open>c \<in> set bs\<close> by (auto simp: in_set_conv_nth)
      then show ?thesis using Cons.prems(3,4) spec [OF Cons.prems(5), of "Suc j"] that(2) 0 q(2) by (auto simp: less_imp_le)
    qed
    then have "r_nolf r' = r_nolf q" using Cons.prems(1) by (intro fast_blocks_older [OF _ _ rest]) auto
    then show ?thesis using q(3) Cons.prems(3,4) 0 by simp
  next
    case (Suc i)
    have "r_seq q < seq_at bs i" using q(2) Cons.prems(4) spec [OF Cons.prems(5), of 0] Suc by auto
    moreover have "seq_at bs j < seq_at bs i" if "j < length bs" "j \<noteq> i" "is_active sl this (fs_key (bs ! j))" for j
      using spec [OF Cons.prems(5), of "Suc j"] that Suc by auto
    ultimately have "r_nolf r' = SL_INS (fs_seq (bs ! i))" using Cons.prems(1,2,3) Suc rest by (intro Cons.IH [of i q]) simp_all
    then show ?thesis using Suc by simp
  qed
qed simp

lemma fast_blocks_nolf:
  assumes "\<forall>b\<in>set bs. hd (fs_key b) \<in> in_table s" "\<forall>b\<in>set bs. SL_SER (fs_seq b) \<noteq> 0" "last_ok (is_active sl this) bs [] Z lf"
    "fast_blocks s sl this bs r = Some r'" "r_seq r = 0" "\<not> r_nolf r"
  shows "r_nolf r' \<longleftrightarrow> lf \<noteq> 0"
proof (cases "lf = 0 \<and> (\<forall>b\<in>set bs. \<not> is_active sl this (fs_key b))")
  case True
  then show ?thesis using fast_blocks_older [OF assms(1) _ assms(4)] assms(6) by blast
next
  case False
  then obtain a where a: "last_is (is_active sl this) bs [] Z lf a" using assms(3) unfolding last_ok_def by blast
  then have "r_seq r < seq_at bs a" using assms(2,5) by (simp add: last_is_def word_neq_0_conv)
  then have "r_nolf r' = SL_INS (fs_seq (bs ! a))"
    using a by (intro fast_blocks_newest [OF assms(1) _ _ _ _ assms(4)]) (simp_all add: last_is_def)
  then show ?thesis using a by (simp add: last_is_def)
qed

section \<open>Properties\<close>

text \<open>
  C39. The cached checksums agree with the pass over the weave.  For every set of deltas whose newest
  delta is \<open>this\<close> and every weave that \<open>sum_weave\<close> allows, \<open>fastsum\<close> meets no failing assertion and
  returns the checksum that \<open>get_reg\<close> computes, a line feed missing at the end of the version
  included, and the same numbers of added, deleted and unchanged lines.
\<close>

theorem fastsum_get:
  assumes tip: "tip_of sl this" and ws: "sum_weave ws Map.empty {} {}" "length ws < 2 ^ 31"
    and sers: "\<forall>buf\<in>set ws. isData buf \<or> ctl_ser buf \<in> in_table s"
  shows "\<exists>g r. get_loop eol sumonly True sl this ws get_init = Some g \<and> fastsum s ws sl this = Some r \<and>
    r_sum r = g_sum g \<and> r_added r = g_cnt g Added \<and> r_deleted r = g_cnt g Deleted \<and> r_same r = g_cnt g Same"
proof -
  obtain g bs Z where g: "get_loop eol sumonly True sl this ws get_init = Some g" and bs: "fastsum_load ws = Some bs"
    "\<forall>b\<in>set bs. SL_SER (fs_seq b) \<noteq> 0" "\<forall>b\<in>set bs. hd (fs_key b) \<in> in_table s"
    and cnt: "\<forall>c. g_cnt g c = sum_of (cls sl this) {c} fs_lines bs"
    and sm: "g_sum g + (if g_lf g \<noteq> 0 then 10 else 0) = sum_of (cls sl this) {Added, Same} fs_sum bs" and last: "last_ok (is_active sl this) bs [] Z (g_lf g)"
    using fast_load [OF tip ws sers] by metis
  let ?r = "\<lparr>r_sum = 0, r_added = 0, r_deleted = 0, r_same = 0, r_seq = 0, r_nolf = False\<rparr> :: fastres"
  obtain r where r: "fast_blocks s sl this bs ?r = Some r" "r_sum r = sum_of (cls sl this) {Added, Same} fs_sum bs"
    "r_added r = g_cnt g Added" "r_deleted r = g_cnt g Deleted" "r_same r = g_cnt g Same"
    using fast_blocks_sums [OF bs(3), of sl this ?r] cnt by auto
  have nolf: "r_nolf r \<longleftrightarrow> g_lf g \<noteq> 0" using fast_blocks_nolf [OF bs(3,2) last r(1)] by simp
  define q where "q = (if r_nolf r then r\<lparr>r_sum := r_sum r - 10\<rparr> else r)"
  have "fastsum s ws sl this = Some q" using bs(1) r(1) by (simp add: fastsum_def q_def)
  moreover have "r_sum q = g_sum g" using r(2) nolf sm by (auto simp: q_def algebra_simps)
  moreover have "r_added q = g_cnt g Added" "r_deleted q = g_cnt g Deleted" "r_same q = g_cnt g Same" using r(3-5) by (simp_all add: q_def)
  ultimately show ?thesis using g by blast
qed

definition ex_nolf :: "string list" where
  "ex_nolf =
     [CHR 0x01 # ''I 2'', ''one'', CHR 0x01 # ''D 3'', ''two'', CHR 0x01 # ''E 3'',
      CHR 0x01 # ''I 3'', ''three'', CHR 0x01 # ''E 3N'', CHR 0x01 # ''E 2'']"

lemma ex_nolf_ctl:
  "isData (CHR 0x01 # ''I 3'') = False" "isData (CHR 0x01 # ''E 3N'') = False" "ctl_type (CHR 0x01 # ''I 3'') = CHR ''I''" "ctl_ser (CHR 0x01 # ''I 3'') = 3"
  "ctl_type (CHR 0x01 # ''E 3N'') = CHR ''E''" "ctl_ser (CHR 0x01 # ''E 3N'') = 3" "ctl_nolf (CHR 0x01 # ''E 3N'')" "\<not> ctl_nolf (CHR 0x01 # ''E 3'')" "\<not> ctl_nolf (CHR 0x01 # ''E 2'')"
  by code_simp+

definition ex_deltas :: slist where
  "ex_deltas t = (if t \<in> {1, 2, 3} then 1 else 0)"

lemma ex_nolf_ok: "sum_weave ex_nolf Map.empty {} {}"
proof -
  have "is_cur [2 \<mapsto> True] 2" "is_cur [2 \<mapsto> True, 3 \<mapsto> False] 2" "is_cur [2 \<mapsto> True, 3 \<mapsto> True] 3" by (auto simp: is_cur_def)
  moreover have "([2 \<mapsto> True, 3 \<mapsto> False])(3 := None) = ([2 \<mapsto> True] :: opens)" "([2 \<mapsto> True, 3 \<mapsto> True])(3 := None) = ([2 \<mapsto> True] :: opens)" by (auto simp: fun_eq_iff)
  ultimately show ?thesis by (auto simp: ex_nolf_def ex_ctl ex_nolf_ctl legal_def step_open_def closes_nolf_def own_line_def)
qed

theorem fastsum_get_witness:
  "\<exists>g r. get_loop [CHR 0x0A] True True ex_deltas 3 ex_nolf get_init = Some g \<and> fastsum ex_file ex_nolf ex_deltas 3 = Some r \<and>
     r_sum r = g_sum g \<and> r_added r = g_cnt g Added \<and> r_deleted r = g_cnt g Deleted \<and> r_same r = g_cnt g Same \<and>
     g_sum g = 868 \<and> g_cnt g Added = 1 \<and> g_cnt g Deleted = 1 \<and> g_cnt g Same = 1"
proof -
  have "tip_of ex_deltas 3" by (auto simp: tip_of_def ex_deltas_def)
  moreover have "length ex_nolf < 2 ^ 31" by (simp add: ex_nolf_def)
  moreover have "TREE ex_file \<le> 2" "3 \<le> TABLE ex_file" by code_simp+
  then have "\<forall>buf\<in>set ex_nolf. isData buf \<or> ctl_ser buf \<in> in_table ex_file"
    by (simp add: ex_nolf_def ex_ctl ex_nolf_ctl in_table_def)
  ultimately obtain g r where g: "get_loop [CHR 0x0A] True True ex_deltas 3 ex_nolf get_init = Some g" "fastsum ex_file ex_nolf ex_deltas 3 = Some r"
    "r_sum r = g_sum g" "r_added r = g_cnt g Added" "r_deleted r = g_cnt g Deleted" "r_same r = g_cnt g Same"
    using fastsum_get [OF _ ex_nolf_ok] by metis
  have "map_option (\<lambda>r. (r_sum r, r_added r, r_deleted r, r_same r)) (fastsum ex_file ex_nolf ex_deltas 3) = Some (868, 1, 1, 1)" by code_simp
  then show ?thesis using g by auto
qed

end
