(* ===== verification/Spec2Isabelle.thy ===== *)
theory Spec2Isabelle
  imports BK_Graph BK_LineOps BK_Shell BK_PQ BK_Time BK_Glob BK_Getopt BK_Memhash BK_U32hash BK_Web BK_Paths BK_Fastsum
begin

text \<open>
  A verification of the core of BitKeeper, a distributed version control system in C: the graph
  of deltas of an s.file and the algorithms that turn a revision into the set of deltas that make
  it up, and the library of containers and text routines they stand on.  All paths below are
  relative to \<open>src/src\<close>.

  \<^bold>\<open>The program and its parts.\<close>  An s.file keeps every version of a file as a table of deltas and a
  weave of lines.  \<open>sccs.h\<close> and \<open>dataheap.c\<close> hold the table and a heap of strings in memory;
  \<open>slib.c\<close> computes with it (which deltas make up a revision, dates, lookup by revision, user
  lists of includes and excludes); \<open>libgraph.c\<close> computes symmetric differences of versions and
  converts merges between their two representations.  Everything is written on top of \<open>libc/\<close>:
  growing arrays, hash tables, priority queues, growing memory regions, text routines.  The
  commands (\<open>get.c\<close>, \<open>pull.c\<close>, and so on) call these.

  \<^bold>\<open>Conventions.\<close>  A C string is the list of its characters without the NUL.  A failing assertion,
  a read or write outside an object and a stale pointer are \<open>None\<close> (or a constructor of an error
  type), so that a theorem with \<open>Some\<close> also says that none of them happens.  Sizes that the code
  keeps in 32 bits are words, or numbers with the bound written out: \<open>to_int\<close> fails beyond \<open>INT_MAX\<close>
  where an \<open>int\<close> overflows into a size of a buffer, and \<open>wrap32\<close> wraps where only a value is computed.
  A \<open>char\<close> is signed (\<open>schar\<close>) where it becomes an \<open>int\<close>.  Loops that end for a
  structural reason are recursive functions with a termination proof; loops whose end depends on
  the data are \<open>partial_function (option)\<close>, and their theorems state that they return.  The
  walk over a user's list of revisions has fuel: \<open>walk_fuel\<close>, computed from the list and the
  number of deltas, which \<open>walk_loop_ends\<close> proves to be enough.  Functions that the code gets from elsewhere (the hash function of the tables, the
  comparison of a queue, the environment variable behind case-insensitive matching, the line that
  is to be looked up) are arguments of the definitions, and the theorems hold for all of them.

  \<^bold>\<open>The theories.\<close>
  \<^item> \<open>BK_Prelude\<close>: the machine types, the character classes and string functions of the C library
    that are used, generic facts on lists and words.
  \<^item> \<open>BK_Sccs\<close>: the record of an s.file (\<open>sccs.h\<close>: \<open>struct sccs\<close>, the accessor macros), the string
    heap (\<open>dataheap.c\<close>: \<open>sccs_addStr\<close>), lists of serials as text (\<open>sccs_eachNum\<close>,
    \<open>sccs_saveNum\<close>) and the lookup of a revision (\<open>findrev\<close> and its helpers in \<open>slib.c\<close>).
  \<^item> \<open>BK_Marks\<close>: what a version is, independently of the code: the set of deltas given by the graph
    and by the include and exclude lists, newest decision first; \<open>mark_encoding\<close> is the interface
    of the arrays of marks that the passes over the graph keep.
  \<^item> \<open>BK_Serialmap\<close> (\<open>slib.c\<close>: \<open>walkList\<close>, \<open>serialmap\<close>, \<open>sccs_set\<close>, \<open>compressmap\<close>, \<open>sccs_setCludes\<close>):
    \<open>serialmap\<close> computes exactly that set, \<open>compressmap\<close> and \<open>serialmap\<close> are inverse, the walk over
    a user's list ends, and the cases in which \<open>sccs_setCludes\<close> leaves an old list behind.
  \<^item> \<open>BK_Weave\<close> (\<open>slib.c\<close>: \<open>changestate\<close>, \<open>printstate\<close> and their relatives, the pass of \<open>get_reg\<close> over the
    weave of a plain ASCII file, \<open>fastsum\<close>): the array of open blocks is a sorted representation of
    the blocks that the control lines have opened, and the set of deltas from \<open>serialmap\<close> makes
    \<open>get\<close> print exactly the lines of the version.
  \<^item> \<open>BK_Fastsum\<close> (\<open>slib.c\<close>): the checksum and the counts of lines that \<open>fastsum\<close> takes from its cache
    of blocks are those of the pass of \<open>get_reg\<close>, proved by running both over the weave in step.
  \<^item> \<open>BK_Symdiff\<close>, \<open>BK_Graph\<close> (\<open>libgraph.c\<close>: \<open>symdiff\<close>, \<open>symdiff_expand\<close>, \<open>symdiff_compress\<close>,
    \<open>graph_check\<close>, \<open>graph_convert\<close>): one pass gives the symmetric difference of two versions and the
    list of changes to store for a merge; its two halves are interpretations of \<open>mark_encoding\<close>.
  \<^item> \<open>BK_Lines\<close>, \<open>BK_LineOps\<close> (\<open>libc/utils/lines.c\<close>, \<open>libc/lines.h\<close>): the growing arrays with their
    packed size word and shared capacity, against the locale \<open>flexible_array\<close>; the limit of 2^27
    elements; searching, sorting, removing, splitting and joining.
  \<^item> \<open>BK_Shell\<close> (\<open>shellquote\<close>, \<open>shellSplit\<close>): the round trip, that the splitter stays in its buffer,
    and the words that are lost.
  \<^item> \<open>BK_PQ\<close> (\<open>libc/utils/pq.c\<close>): both heaps as interpretations of \<open>priority_queue\<close>.
  \<^item> \<open>BK_Time\<close> (\<open>slib.c\<close>, \<open>sccs.h\<close>): the calendar tables against the Gregorian calendar for 1970 to
    2037, printing and parsing a date with its zone, fixing dates, finding a delta by date.
  \<^item> \<open>BK_Glob\<close> (\<open>libc/utils/glob.c\<close>), \<open>BK_Getopt\<close> (\<open>libc/utils/getopt.c\<close>): the matcher against a
    declarative meaning of patterns; the option parser ends and returns the options of a command
    line in the documented forms; in both, the inputs on which they leave the text.
  \<^item> \<open>BK_Hash\<close> (\<open>libc/hash.h\<close>, \<open>libc/hash/hash.c\<close>): the table of methods, iteration and the key
    differences, proved once in the locales \<open>hash_table\<close>, \<open>hash_deletes\<close>, \<open>key_diff\<close> and \<open>key_diff3\<close>
    from the laws of the methods.  \<open>BK_Memhash\<close> (\<open>memhash.c\<close>, chained buckets) and \<open>BK_U32hash\<close>
    (\<open>u32hash.c\<close>, open addressing) prove the laws for the two implementations and get the
    properties of the clients by interpretation.
  \<^item> \<open>BK_Data\<close> (\<open>libc/utils/data.c\<close>): growing memory regions and what happens at their size limit.
  \<^item> \<open>BK_Web\<close> (\<open>libc/utils/webencode.c\<close>): binary data as text and back.
  \<^item> \<open>BK_Paths\<close> (\<open>cleanpath.c\<close>, \<open>dirname.c\<close>, \<open>relpath.c\<close>, \<open>concat_path.c\<close>, \<open>samepath.c\<close>,
    \<open>str_subst.c\<close> in \<open>libc/utils\<close>): path names, with \<open>cleanPath\<close> against the normal form by components.

  \<^bold>\<open>Bounds.\<close>  The arrays are verified up to 2^27 - 1 elements; \<open>addLine_limit\<close> proves that one
  more carries out of the length field of their header.  The chained table is verified
  up to 2^29 entries and the open addressing table up to 2^29 entries or as many values as fit in
  0xfff00000 bytes; beyond these the 32-bit sizes in the code would wrap around.  The buffer of
  \<open>shellSplit\<close> is doubled in an \<open>int\<close> and is enough for command lines, and for single words, of
  2^30 - 2 characters; \<open>joinLines\<close> and the offsets of \<open>memhash.c\<close> are verified up to \<open>INT_MAX\<close>, with what
  happens beyond it.  The matcher is verified for the patterns of \<open>glob_ok\<close> and the option parser
  for the command lines of \<open>item_ok\<close>; cases outside these are in \<open>match_one_ends\<close>,
  \<open>getopt_colon_equal\<close> and \<open>opt_char_EOF\<close>.  The calendar
  functions are verified for the years of their table.  \<open>MAXPATH\<close> is 1024 as in \<open>system.h\<close>.

  \<^bold>\<open>Not modelled.\<close>  Parsing and writing of s.files, the line prefixes, keyword expansion and hash files of
  \<open>get_reg\<close>, creating deltas and diffing are in the parts of \<open>slib.c\<close>, \<open>cweave.c\<close>, \<open>diff.c\<close> and
  \<open>libdiff.c\<close> that are not covered.  The rest of the program is input and output, processes, locks and network (\<open>bkd*.c\<close>,
  \<open>remote.c\<close>, \<open>libc/utils/spawn*.c\<close>, \<open>fslayer\<close>), interactive or file-system level tools (\<open>resolve*.c\<close>,
  \<open>check.c\<close>, \<open>takepatch.c\<close>), the nested collections, imported third-party libraries (\<open>tomcrypt\<close>,
  \<open>tommath\<close>, zlib, the Tcl/Tk interpreter under \<open>gui\<close>) and build tools; their behaviour is that of
  the operating system or of other processes.
\<close>

end
